theory Spec2Isabelle
  imports Complex_Main "HOL-Library.Multiset" "HOL-Library.Signed_Division"
begin

section \<open>Vectors, failures and loops\<close>

text \<open>
  The C++ sources work on \<^verbatim>\<open>std::vector\<close> buffers indexed by \<^verbatim>\<open>int\<close>. A vector is a
  list; an index is an \<^typ>\<open>int\<close>, as in the source, so that negative indices and negative
  sizes are inputs of the model too. Three things can go wrong in the source and each is
  a value of \<open>error\<close>:
  \<^item> \<open>Runtime_error msg\<close>: a \<^verbatim>\<open>throw std::runtime_error(msg)\<close> of the repository's code;
  \<^item> \<open>Length_error\<close>: a vector constructed, assigned, resized or reserved with a negative
    \<^verbatim>\<open>int\<close> size (the conversion to \<^verbatim>\<open>size_t\<close> gives a size beyond \<^verbatim>\<open>max_size()\<close>);
  \<^item> \<open>Undefined\<close>: undefined behaviour of the C++ program: a read or write outside the
    bounds of a vector, or the conversion of an infinite or NaN \<^verbatim>\<open>double\<close> to \<^verbatim>\<open>int\<close>.
    Nothing is thrown there and nothing is known of what the program does next.
  \<^verbatim>\<open>float\<close> values are elements of a commutative ring \<open>'a\<close> (exact arithmetic), and
  \<^verbatim>\<open>int\<close> arithmetic is unbounded: buffers hold fewer than \<open>2^31\<close> elements.
\<close>

datatype error = Runtime_error string | Length_error | Undefined

definition rbind :: "error + 'a \<Rightarrow> ('a \<Rightarrow> error + 'b) \<Rightarrow> error + 'b" where
  "rbind m f = (case m of Inl e \<Rightarrow> Inl e | Inr x \<Rightarrow> f x)"

text \<open>\<^verbatim>\<open>v[i]\<close> as a read.\<close>

definition vget :: "'a list \<Rightarrow> int \<Rightarrow> error + 'a" where
  "vget v i = (if 0 \<le> i \<and> i < int (length v) then Inr (v ! nat i) else Inl Undefined)"

text \<open>\<^verbatim>\<open>v[i] = x\<close>.\<close>

definition vset :: "'a list \<Rightarrow> int \<Rightarrow> 'a \<Rightarrow> error + 'a list" where
  "vset v i x = (if 0 \<le> i \<and> i < int (length v) then Inr (v[nat i := x]) else Inl Undefined)"

text \<open>\<^verbatim>\<open>vector<T> v(n, x)\<close>, \<^verbatim>\<open>v.assign(n, x)\<close> and \<^verbatim>\<open>v.resize(n)\<close> on an empty vector.\<close>

definition vnew :: "int \<Rightarrow> 'a \<Rightarrow> error + 'a list" where
  "vnew n x = (if n < 0 then Inl Length_error else Inr (replicate (nat n) x))"

text \<open>\<^verbatim>\<open>for (x : xs) body\<close>; with \<open>[lo..hi - 1]\<close> it is
  \<^verbatim>\<open>for (int i = lo; i < hi; i++) body\<close>. The loop stops at the first failure.\<close>

primrec for_each :: "'i list \<Rightarrow> ('i \<Rightarrow> 's \<Rightarrow> error + 's) \<Rightarrow> 's \<Rightarrow> error + 's" where
  "for_each [] body s = Inr s"
| "for_each (x # xs) body s = rbind (body x s) (for_each xs body)"

section \<open>The CSR matrix (csr.hpp)\<close>

record 'a CSR =
  nrows :: int
  ncols :: int
  nnz :: nat
  indptr :: "int list"
  indices :: "int list"
  data :: "'a list"

section \<open>The tiler (tiler.hpp, tiler.cpp)\<close>

record Tile =
  row_start :: int
  row_end :: int
  col_start :: int
  col_end :: int
  nnz :: nat
  is_dense :: bool

text \<open>\<^verbatim>\<open>Tile::density()\<close>. The source computes in \<^verbatim>\<open>double\<close>; the model in \<^typ>\<open>rat\<close>.\<close>

definition density :: "Tile \<Rightarrow> rat" where
  "density t =
    (let rows = row_end t - row_start t; cols = col_end t - col_start t
     in if rows = 0 \<or> cols = 0 then 0
        else of_nat (Tile.nnz t) / (of_int rows * of_int cols))"

record TilingConfig =
  tile_rows :: int
  tile_cols :: int

text \<open>
  \<^verbatim>\<open>make_2d_tiles\<close> (logging left out). \<^verbatim>\<open>ceil(double(n) / T)\<close> is exact for 32-bit
  operands; a zero tile size makes the quotient infinite or NaN, whose conversion to
  \<^verbatim>\<open>int\<close> is undefined. \<^verbatim>\<open>i / T_R\<close> is C++ division, which truncates (\<open>sdiv\<close>).
\<close>

definition make_2d_tiles :: "'a CSR \<Rightarrow> TilingConfig \<Rightarrow> error + Tile list" where
  "make_2d_tiles X_prime cfg =
    (let n_rows = nrows X_prime; n_cols = ncols X_prime;
         T_R = tile_rows cfg; T_C = tile_cols cfg
     in if T_R = 0 \<or> T_C = 0 then Inl Undefined
     else
       let num_row_tiles = \<lceil>(of_int n_rows :: rat) / of_int T_R\<rceil>;
           num_col_tiles = \<lceil>(of_int n_cols :: rat) / of_int T_C\<rceil>
       in if num_row_tiles * num_col_tiles < 0 then Inl Length_error
       else
         rbind
           (for_each [0..num_row_tiles - 1] (\<lambda>rb tiles.
              for_each [0..num_col_tiles - 1] (\<lambda>cb tiles.
                let row_start = rb * T_R;
                    row_end = min (row_start + T_R) n_rows;
                    col_start = cb * T_C;
                    col_end = min (col_start + T_C) n_cols
                in Inr (tiles @ [\<lparr>row_start = row_start, row_end = row_end,
                                   col_start = col_start, col_end = col_end,
                                   nnz = 0, is_dense = False\<rparr>])) tiles) [])
           (\<lambda>tiles.
              for_each [0..n_rows - 1] (\<lambda>i tiles.
                rbind (vget (indptr X_prime) i) (\<lambda>row_start_idx.
                rbind (vget (indptr X_prime) (i + 1)) (\<lambda>row_end_idx.
                  for_each [row_start_idx..row_end_idx - 1] (\<lambda>idx tiles.
                    rbind (vget (indices X_prime) idx) (\<lambda>j.
                      let rb = i sdiv T_R; cb = j sdiv T_C
                      in if rb \<ge> 0 \<and> rb < num_row_tiles \<and> cb \<ge> 0 \<and> cb < num_col_tiles
                         then
                           let tile_idx = rb * num_col_tiles + cb
                           in rbind (vget tiles tile_idx) (\<lambda>t.
                                vset tiles tile_idx (t\<lparr>Tile.nnz := Suc (Tile.nnz t)\<rparr>))
                         else Inr tiles)) tiles))) tiles))"

text \<open>\<^verbatim>\<open>predict_tile_density\<close>: the classified tiles and the two counts.\<close>

definition predict_tile_density :: "Tile list \<Rightarrow> rat \<Rightarrow> Tile list \<times> nat \<times> nat" where
  "predict_tile_density tiles threshold =
    fold (\<lambda>tile (done, dense_count, sparse_count).
            let tile' = tile\<lparr>is_dense := (density tile \<ge> threshold)\<rparr>
            in if is_dense tile' then (done @ [tile'], Suc dense_count, sparse_count)
               else (done @ [tile'], dense_count, Suc sparse_count))
         tiles ([], 0, 0)"

section \<open>The permutation engine (permutation.hpp, permutation.cpp)\<close>

text \<open>
  \<^verbatim>\<open>std::sort\<close> belongs to the C++ library, not to the repository: every function that
  calls it takes it as the parameter \<open>std_sort\<close>, applied to the comparator and the range.
  What the C++ standard promises of it is \<open>std_sort_spec\<close>: for a comparator that is a
  strict weak ordering, the result is a rearrangement of the range in which no element is
  less than an earlier one. The order of equivalent elements is left open.
\<close>

definition strict_weak_order :: "('e \<Rightarrow> 'e \<Rightarrow> bool) \<Rightarrow> bool" where
  "strict_weak_order cmp \<longleftrightarrow>
     (\<forall>x. \<not> cmp x x) \<and> (\<forall>x y z. cmp x y \<and> cmp y z \<longrightarrow> cmp x z) \<and>
     (\<forall>x y z. \<not> cmp x y \<and> \<not> cmp y z \<longrightarrow> \<not> cmp x z)"

definition std_sort_spec :: "(('e \<Rightarrow> 'e \<Rightarrow> bool) \<Rightarrow> 'e list \<Rightarrow> 'e list) \<Rightarrow> bool" where
  "std_sort_spec std_sort \<longleftrightarrow>
     (\<forall>cmp xs. strict_weak_order cmp \<longrightarrow>
        mset (std_sort cmp xs) = mset xs \<and> sorted_wrt (\<lambda>a b. \<not> cmp b a) (std_sort cmp xs))"

text \<open>\<^verbatim>\<open>static_cast<size_t>\<close> of an \<^verbatim>\<open>int\<close> (64-bit \<^verbatim>\<open>size_t\<close>).\<close>

definition size_t_of_int :: "int \<Rightarrow> nat" where
  "size_t_of_int d = nat (d mod 2 ^ 64)"

definition compute_nnz_per_row :: "'a CSR \<Rightarrow> error + nat list" where
  "compute_nnz_per_row X =
    rbind (vnew (nrows X) 0) (\<lambda>nnz_per_row.
      for_each [0..nrows X - 1] (\<lambda>i nnz_per_row.
        rbind (vget (indptr X) (i + 1)) (\<lambda>hi.
        rbind (vget (indptr X) i) (\<lambda>lo.
          vset nnz_per_row i (size_t_of_int (hi - lo))))) nnz_per_row)"

text \<open>
  \<^verbatim>\<open>create_row_new2old\<close>: \<^verbatim>\<open>std::iota\<close>, then \<^verbatim>\<open>std::sort\<close> with a comparator on
  the counts. The comparator only ever sees elements of the range, which are indices of
  \<open>nnz_per_row\<close>. \<^verbatim>\<open>create_col_new2old\<close> has the same body.
\<close>

definition create_row_new2old ::
  "((int \<Rightarrow> int \<Rightarrow> bool) \<Rightarrow> int list \<Rightarrow> int list) \<Rightarrow> nat list \<Rightarrow> bool \<Rightarrow> int list" where
  "create_row_new2old std_sort nnz_per_row descending =
    (let n = int (length nnz_per_row);
         row_new2old = [0..n - 1]
     in if descending
        then std_sort (\<lambda>a b. nnz_per_row ! nat a > nnz_per_row ! nat b) row_new2old
        else std_sort (\<lambda>a b. nnz_per_row ! nat a < nnz_per_row ! nat b) row_new2old)"

definition create_col_new2old ::
  "((int \<Rightarrow> int \<Rightarrow> bool) \<Rightarrow> int list \<Rightarrow> int list) \<Rightarrow> nat list \<Rightarrow> bool \<Rightarrow> int list" where
  "create_col_new2old std_sort nnz_per_col descending =
    (let n = int (length nnz_per_col);
         col_new2old = [0..n - 1]
     in if descending
        then std_sort (\<lambda>a b. nnz_per_col ! nat a > nnz_per_col ! nat b) col_new2old
        else std_sort (\<lambda>a b. nnz_per_col ! nat a < nnz_per_col ! nat b) col_new2old)"

text \<open>
  The block that ends \<^verbatim>\<open>permute_csr_rows\<close>, \<^verbatim>\<open>unpermute_csr_rows\<close>,
  \<^verbatim>\<open>permute_csr_cols\<close> and \<^verbatim>\<open>unpermute_csr_cols\<close>, the same text in each: every row's
  (column, value) pairs are collected, sorted by column and written back.
\<close>

definition sort_each_row ::
  "((int \<times> 'a \<Rightarrow> int \<times> 'a \<Rightarrow> bool) \<Rightarrow> (int \<times> 'a) list \<Rightarrow> (int \<times> 'a) list) \<Rightarrow>
   int \<Rightarrow> int list \<Rightarrow> int list \<times> 'a list \<Rightarrow> error + int list \<times> 'a list" where
  "sort_each_row std_sort n ptr =
    for_each [0..n - 1] (\<lambda>i (ind, dat).
      rbind (vget ptr i) (\<lambda>start.
      rbind (vget ptr (i + 1)) (\<lambda>end.
        if end - start < 0 then Inl Length_error
        else
          rbind
            (for_each [start..end - 1] (\<lambda>idx row_data.
               rbind (vget ind idx) (\<lambda>c.
               rbind (vget dat idx) (\<lambda>v. Inr (row_data @ [(c, v)])))) [])
            (\<lambda>row_data.
               let sorted_row = std_sort (\<lambda>a b. fst a < fst b) row_data
               in for_each [0..int (length sorted_row) - 1] (\<lambda>k (ind, dat).
                    rbind (vget sorted_row k) (\<lambda>e.
                    rbind (vset ind (start + k) (fst e)) (\<lambda>ind.
                    rbind (vset dat (start + k) (snd e)) (\<lambda>dat. Inr (ind, dat)))))
                    (ind, dat)))))"

definition permute_csr_rows ::
  "((int \<times> 'a \<Rightarrow> int \<times> 'a \<Rightarrow> bool) \<Rightarrow> (int \<times> 'a) list \<Rightarrow> (int \<times> 'a) list) \<Rightarrow>
   ('a::zero) CSR \<Rightarrow> int list \<Rightarrow> error + 'a CSR" where
  "permute_csr_rows std_sort X row_new2old =
    (if int (length row_new2old) \<noteq> nrows X
     then Inl (Runtime_error ''permute_csr_rows: row_new2old size mismatch'')
     else
       rbind (vnew (nrows X + 1) 0) (\<lambda>Xp_indptr.
       rbind
         (for_each [0..nrows X - 1] (\<lambda>i_new Xp_indptr.
            rbind (vget row_new2old i_new) (\<lambda>i_old.
            rbind (vget (indptr X) i_old) (\<lambda>row_start.
            rbind (vget (indptr X) (i_old + 1)) (\<lambda>row_end.
              let row_nnz = row_end - row_start
              in rbind (vget Xp_indptr i_new) (\<lambda>prev.
                   vset Xp_indptr (i_new + 1) (prev + row_nnz)))))) Xp_indptr)
         (\<lambda>Xp_indptr.
       rbind
         (for_each [0..nrows X - 1] (\<lambda>i_new (write_ptr, Xp_indices, Xp_data).
            rbind (vget row_new2old i_new) (\<lambda>i_old.
            rbind (vget (indptr X) i_old) (\<lambda>row_start.
            rbind (vget (indptr X) (i_old + 1)) (\<lambda>row_end.
              for_each [row_start..row_end - 1] (\<lambda>idx (write_ptr, Xp_indices, Xp_data).
                rbind (vget write_ptr i_new) (\<lambda>dest.
                rbind (vset write_ptr i_new (dest + 1)) (\<lambda>write_ptr.
                rbind (vget (indices X) idx) (\<lambda>c.
                rbind (vset Xp_indices dest c) (\<lambda>Xp_indices.
                rbind (vget (data X) idx) (\<lambda>v.
                rbind (vset Xp_data dest v) (\<lambda>Xp_data.
                  Inr (write_ptr, Xp_indices, Xp_data))))))))
                (write_ptr, Xp_indices, Xp_data)))))
            (Xp_indptr, replicate (CSR.nnz X) 0, replicate (CSR.nnz X) 0))
         (\<lambda>(write_ptr, Xp_indices, Xp_data).
       rbind (sort_each_row std_sort (nrows X) Xp_indptr (Xp_indices, Xp_data))
         (\<lambda>(Xp_indices, Xp_data).
            Inr \<lparr>nrows = nrows X, ncols = ncols X, nnz = CSR.nnz X,
                 indptr = Xp_indptr, indices = Xp_indices, data = Xp_data\<rparr>)))))"

definition permute_weight_rows :: "'a list \<Rightarrow> int \<Rightarrow> int \<Rightarrow> int list \<Rightarrow> error + ('a::zero) list" where
  "permute_weight_rows W W_rows W_cols row_new2old =
    (if int (length row_new2old) \<noteq> W_rows
     then Inl (Runtime_error ''permute_weight_rows: row_new2old size mismatch'')
     else if int (length W) \<noteq> W_rows * W_cols
     then Inl (Runtime_error ''permute_weight_rows: W size mismatch'')
     else
       rbind (vnew (W_rows * W_cols) 0) (\<lambda>Wp.
         for_each [0..W_rows - 1] (\<lambda>i_new Wp.
           rbind (vget row_new2old i_new) (\<lambda>i_old.
             if i_old < 0 \<or> i_old \<ge> W_rows
             then Inl (Runtime_error ''permute_weight_rows: invalid row_new2old entry'')
             else
               for_each [0..W_cols - 1] (\<lambda>j Wp.
                 rbind (vget W (i_old * W_cols + j)) (\<lambda>w.
                   vset Wp (i_new * W_cols + j) w)) Wp)) Wp))"

definition unpermute_csr_rows ::
  "((int \<times> 'a \<Rightarrow> int \<times> 'a \<Rightarrow> bool) \<Rightarrow> (int \<times> 'a) list \<Rightarrow> (int \<times> 'a) list) \<Rightarrow>
   ('a::zero) CSR \<Rightarrow> int list \<Rightarrow> error + 'a CSR" where
  "unpermute_csr_rows std_sort X_permuted row_new2old =
    (if int (length row_new2old) \<noteq> nrows X_permuted
     then Inl (Runtime_error ''unpermute_csr_rows: row_new2old size mismatch'')
     else
       rbind (vnew (nrows X_permuted + 1) 0) (\<lambda>X_indptr.
       rbind
         (for_each [0..nrows X_permuted - 1] (\<lambda>i_new X_indptr.
            rbind (vget row_new2old i_new) (\<lambda>i_old.
              if i_old < 0 \<or> i_old \<ge> nrows X_permuted
              then Inl (Runtime_error ''unpermute_csr_rows: invalid row_new2old entry'')
              else
                rbind (vget (indptr X_permuted) i_new) (\<lambda>row_start.
                rbind (vget (indptr X_permuted) (i_new + 1)) (\<lambda>row_end.
                  let row_nnz = row_end - row_start
                  in rbind (vget X_indptr (i_old + 1)) (\<lambda>cur.
                       vset X_indptr (i_old + 1) (cur + row_nnz)))))) X_indptr)
         (\<lambda>X_indptr.
       rbind
         (for_each [0..nrows X_permuted - 1] (\<lambda>i X_indptr.
            rbind (vget X_indptr (i + 1)) (\<lambda>cur.
            rbind (vget X_indptr i) (\<lambda>prev.
              vset X_indptr (i + 1) (cur + prev)))) X_indptr)
         (\<lambda>X_indptr.
       rbind
         (for_each [0..nrows X_permuted - 1] (\<lambda>i_new (write_ptr, X_indices, X_data).
            rbind (vget row_new2old i_new) (\<lambda>i_old.
            rbind (vget (indptr X_permuted) i_new) (\<lambda>row_start.
            rbind (vget (indptr X_permuted) (i_new + 1)) (\<lambda>row_end.
              for_each [row_start..row_end - 1] (\<lambda>idx (write_ptr, X_indices, X_data).
                rbind (vget write_ptr i_old) (\<lambda>dest.
                rbind (vset write_ptr i_old (dest + 1)) (\<lambda>write_ptr.
                rbind (vget (indices X_permuted) idx) (\<lambda>c.
                rbind (vset X_indices dest c) (\<lambda>X_indices.
                rbind (vget (data X_permuted) idx) (\<lambda>v.
                rbind (vset X_data dest v) (\<lambda>X_data.
                  Inr (write_ptr, X_indices, X_data))))))))
                (write_ptr, X_indices, X_data)))))
            (X_indptr, replicate (CSR.nnz X_permuted) 0, replicate (CSR.nnz X_permuted) 0))
         (\<lambda>(write_ptr, X_indices, X_data).
       rbind (sort_each_row std_sort (nrows X_permuted) X_indptr (X_indices, X_data))
         (\<lambda>(X_indices, X_data).
            Inr \<lparr>nrows = nrows X_permuted, ncols = ncols X_permuted, nnz = CSR.nnz X_permuted,
                 indptr = X_indptr, indices = X_indices, data = X_data\<rparr>))))))"

definition unpermute_rows :: "'a list \<Rightarrow> int \<Rightarrow> int \<Rightarrow> int list \<Rightarrow> error + ('a::zero) list" where
  "unpermute_rows Y_prime Y_rows Y_cols row_new2old =
    (if int (length row_new2old) \<noteq> Y_rows
     then Inl (Runtime_error ''unpermute_rows: row_new2old size mismatch'')
     else if int (length Y_prime) \<noteq> Y_rows * Y_cols
     then Inl (Runtime_error ''unpermute_rows: Y_prime size mismatch'')
     else
       rbind (vnew (Y_rows * Y_cols) 0) (\<lambda>Y.
         for_each [0..Y_rows - 1] (\<lambda>i_new Y.
           rbind (vget row_new2old i_new) (\<lambda>i_old.
             if i_old < 0 \<or> i_old \<ge> Y_rows
             then Inl (Runtime_error ''unpermute_rows: invalid row_new2old entry'')
             else
               for_each [0..Y_cols - 1] (\<lambda>j Y.
                 rbind (vget Y_prime (i_new * Y_cols + j)) (\<lambda>y.
                   vset Y (i_old * Y_cols + j) y)) Y)) Y))"

definition permute_csr_cols ::
  "((int \<times> 'a \<Rightarrow> int \<times> 'a \<Rightarrow> bool) \<Rightarrow> (int \<times> 'a) list \<Rightarrow> (int \<times> 'a) list) \<Rightarrow>
   'a CSR \<Rightarrow> int list \<Rightarrow> error + 'a CSR" where
  "permute_csr_cols std_sort X col_new2old =
    (if int (length col_new2old) \<noteq> ncols X
     then Inl (Runtime_error ''permute_csr_cols: col_new2old size mismatch'')
     else
       rbind (vnew (ncols X) 0) (\<lambda>col_old2new.
       rbind
         (for_each [0..ncols X - 1] (\<lambda>new_col col_old2new.
            rbind (vget col_new2old new_col) (\<lambda>old_col.
              if old_col < 0 \<or> old_col \<ge> ncols X
              then Inl (Runtime_error ''permute_csr_cols: invalid col_new2old entry'')
              else vset col_old2new old_col new_col)) col_old2new)
         (\<lambda>col_old2new.
       rbind
         (for_each [0..int (CSR.nnz X) - 1] (\<lambda>i Xp_indices.
            rbind (vget (indices X) i) (\<lambda>old_col.
              if old_col < 0 \<or> old_col \<ge> ncols X
              then Inl (Runtime_error ''permute_csr_cols: invalid column index in X'')
              else
                rbind (vget col_old2new old_col) (\<lambda>new_col.
                  vset Xp_indices i new_col))) (replicate (CSR.nnz X) 0))
         (\<lambda>Xp_indices.
       rbind (sort_each_row std_sort (nrows X) (indptr X) (Xp_indices, data X))
         (\<lambda>(Xp_indices, Xp_data).
            Inr \<lparr>nrows = nrows X, ncols = ncols X, nnz = CSR.nnz X,
                 indptr = indptr X, indices = Xp_indices, data = Xp_data\<rparr>)))))"

section \<open>The baseline multiply (spmm_baseline.cpp)\<close>

text \<open>
  \<^verbatim>\<open>spmm_baseline\<close> with logging off. The rows of the OpenMP loop write disjoint
  slices of \<open>Y\<close>, so the loop is modelled in row order. The message of the exception
  is shortened to its fixed prefix.
\<close>

definition spmm_baseline :: "('a::semiring_0) CSR \<Rightarrow> 'a list \<Rightarrow> int \<Rightarrow> int \<Rightarrow> error + 'a list" where
  "spmm_baseline X W W_rows W_cols =
    (if ncols X \<noteq> W_rows then Inl (Runtime_error ''Matrix dimension mismatch'')
     else
       let Y_rows = nrows X; Y_cols = W_cols
       in rbind (vnew (Y_rows * Y_cols) 0) (\<lambda>Y.
            for_each [0..nrows X - 1] (\<lambda>i Y.
              rbind (vget (indptr X) i) (\<lambda>row_start.
              rbind (vget (indptr X) (i + 1)) (\<lambda>row_end.
                for_each [row_start..row_end - 1] (\<lambda>idx Y.
                  rbind (vget (indices X) idx) (\<lambda>k.
                  rbind (vget (data X) idx) (\<lambda>x_val.
                    for_each [0..W_cols - 1] (\<lambda>j Y.
                      rbind (vget Y (i * Y_cols + j)) (\<lambda>y.
                      rbind (vget W (k * W_cols + j)) (\<lambda>w.
                        vset Y (i * Y_cols + j) (y + x_val * w)))) Y))) Y))) Y))"

section \<open>Tile extraction and the two tile pipelines (tile_spmm.hpp, tile_spmm.cpp)\<close>

definition extract_tile_csr :: "('a::zero) CSR \<Rightarrow> Tile \<Rightarrow> error + 'a CSR" where
  "extract_tile_csr X tile =
    (let X_tile_nrows = row_end tile - row_start tile;
         X_tile_ncols = col_end tile - col_start tile
     in
       rbind (vnew (X_tile_nrows + 1) 0) (\<lambda>X_tile_indptr.
       rbind
         (for_each [row_start tile..row_end tile - 1] (\<lambda>i (X_tile_indptr, X_tile_nnz).
            let tile_row = i - row_start tile
            in rbind (vget (indptr X) i) (\<lambda>row_start.
               rbind (vget (indptr X) (i + 1)) (\<lambda>row_end.
               rbind
                 (for_each [row_start..row_end - 1] (\<lambda>idx row_nnz.
                    rbind (vget (indices X) idx) (\<lambda>col.
                      if col \<ge> col_start tile \<and> col < col_end tile
                      then Inr (row_nnz + 1) else Inr row_nnz)) 0)
                 (\<lambda>row_nnz.
                    rbind (vget X_tile_indptr tile_row) (\<lambda>prev.
                    rbind (vset X_tile_indptr (tile_row + 1) (prev + row_nnz)) (\<lambda>X_tile_indptr.
                      Inr (X_tile_indptr, X_tile_nnz + nat row_nnz)))))))
            (X_tile_indptr, 0))
         (\<lambda>(X_tile_indptr, X_tile_nnz).
       rbind
         (for_each [row_start tile..row_end tile - 1] (\<lambda>i (write_ptr, X_tile_indices, X_tile_data).
            let tile_row = i - row_start tile
            in rbind (vget (indptr X) i) (\<lambda>row_start.
               rbind (vget (indptr X) (i + 1)) (\<lambda>row_end.
                 for_each [row_start..row_end - 1] (\<lambda>idx (write_ptr, X_tile_indices, X_tile_data).
                   rbind (vget (indices X) idx) (\<lambda>col.
                     if col \<ge> col_start tile \<and> col < col_end tile
                     then
                       rbind (vget write_ptr tile_row) (\<lambda>dest.
                       rbind (vset write_ptr tile_row (dest + 1)) (\<lambda>write_ptr.
                       rbind (vset X_tile_indices dest (col - col_start tile)) (\<lambda>X_tile_indices.
                       rbind (vget (data X) idx) (\<lambda>v.
                       rbind (vset X_tile_data dest v) (\<lambda>X_tile_data.
                         Inr (write_ptr, X_tile_indices, X_tile_data))))))
                     else Inr (write_ptr, X_tile_indices, X_tile_data)))
                   (write_ptr, X_tile_indices, X_tile_data))))
            (X_tile_indptr, replicate X_tile_nnz 0, replicate X_tile_nnz 0))
         (\<lambda>(write_ptr, X_tile_indices, X_tile_data).
            Inr \<lparr>nrows = X_tile_nrows, ncols = X_tile_ncols, nnz = X_tile_nnz,
                 indptr = X_tile_indptr, indices = X_tile_indices, data = X_tile_data\<rparr>))))"

definition extract_tile_W :: "('a::zero) list \<Rightarrow> int \<Rightarrow> int \<Rightarrow> Tile \<Rightarrow> error + 'a list" where
  "extract_tile_W W W_rows W_cols tile =
    (let W_tile_rows = col_end tile - col_start tile
     in rbind (vnew (W_tile_rows * W_cols) 0) (\<lambda>W_tile.
          for_each [0..W_tile_rows - 1] (\<lambda>i W_tile.
            let orig_row = col_start tile + i
            in if orig_row \<ge> 0 \<and> orig_row < W_rows
               then
                 for_each [0..W_cols - 1] (\<lambda>j W_tile.
                   rbind (vget W (orig_row * W_cols + j)) (\<lambda>w.
                     vset W_tile (i * W_cols + j) w)) W_tile
               else Inr W_tile) W_tile))"

definition materialize_csr_to_dense :: "('a::zero) CSR \<Rightarrow> error + 'a list" where
  "materialize_csr_to_dense X_tile =
    (let M = nrows X_tile; K = ncols X_tile
     in rbind (vnew (M * K) 0) (\<lambda>X_dense.
          for_each [0..M - 1] (\<lambda>i X_dense.
            rbind (vget (indptr X_tile) i) (\<lambda>row_start.
            rbind (vget (indptr X_tile) (i + 1)) (\<lambda>row_end.
              for_each [row_start..row_end - 1] (\<lambda>idx X_dense.
                rbind (vget (indices X_tile) idx) (\<lambda>k.
                rbind (vget (data X_tile) idx) (\<lambda>val.
                  vset X_dense (i * K + k) val))) X_dense))) X_dense))"

definition permute_dense_rows :: "('a::zero) list \<Rightarrow> int \<Rightarrow> int \<Rightarrow> int list \<Rightarrow> error + 'a list" where
  "permute_dense_rows X_dense M K row_new2old =
    rbind (vnew (M * K) 0) (\<lambda>X_permuted.
      for_each [0..M - 1] (\<lambda>new_row X_permuted.
        rbind (vget row_new2old new_row) (\<lambda>old_row.
          for_each [0..K - 1] (\<lambda>k X_permuted.
            rbind (vget X_dense (old_row * K + k)) (\<lambda>x.
              vset X_permuted (new_row * K + k) x)) X_permuted)) X_permuted)"

definition permute_dense_cols :: "('a::zero) list \<Rightarrow> int \<Rightarrow> int \<Rightarrow> int list \<Rightarrow> error + 'a list" where
  "permute_dense_cols X_dense M K col_new2old =
    rbind (vnew (M * K) 0) (\<lambda>X_permuted.
      for_each [0..M - 1] (\<lambda>i X_permuted.
        for_each [0..K - 1] (\<lambda>new_col X_permuted.
          rbind (vget col_new2old new_col) (\<lambda>old_col.
          rbind (vget X_dense (i * K + old_col)) (\<lambda>x.
            vset X_permuted (i * K + new_col) x))) X_permuted) X_permuted)"

text \<open>\<^verbatim>\<open>dense_spmm_cpu_tile\<close>: the two pointers are the buffers they point into.\<close>

definition dense_spmm_cpu_tile :: "('a::semiring_0) list \<Rightarrow> 'a list \<Rightarrow> int \<Rightarrow> int \<Rightarrow> int \<Rightarrow> error + 'a list" where
  "dense_spmm_cpu_tile X_dense W_dense M K N =
    rbind (vnew (M * N) 0) (\<lambda>Y_dense.
      for_each [0..M - 1] (\<lambda>i Y_dense.
        for_each [0..N - 1] (\<lambda>j Y_dense.
          rbind
            (for_each [0..K - 1] (\<lambda>k sum.
               rbind (vget X_dense (i * K + k)) (\<lambda>x.
               rbind (vget W_dense (k * N + j)) (\<lambda>w. Inr (sum + x * w)))) 0)
            (\<lambda>sum. vset Y_dense (i * N + j) sum)) Y_dense) Y_dense)"

text \<open>\<^verbatim>\<open>dense_perm_spmm_tile\<close>, built without \<^verbatim>\<open>USE_CUDA\<close>.\<close>

definition dense_perm_spmm_tile ::
  "((int \<Rightarrow> int \<Rightarrow> bool) \<Rightarrow> int list \<Rightarrow> int list) \<Rightarrow>
   ('a::semiring_0) CSR \<Rightarrow> 'a list \<Rightarrow> int \<Rightarrow> int \<Rightarrow> error + 'a list" where
  "dense_perm_spmm_tile std_sort X_tile W_tile W_tile_rows W_cols =
    (let M_tile = nrows X_tile; K_tile = ncols X_tile; N = W_cols
     in
       rbind (materialize_csr_to_dense X_tile) (\<lambda>X_dense.
       rbind (compute_nnz_per_row X_tile) (\<lambda>nnz_per_row.
       let row_new2old = create_row_new2old std_sort nnz_per_row True
       in
       rbind (permute_dense_rows X_dense M_tile K_tile row_new2old) (\<lambda>X_dense_row_permuted.
       rbind (vnew K_tile 0) (\<lambda>nnz_per_col.
       rbind
         (for_each [0..M_tile - 1] (\<lambda>i nnz_per_col.
            for_each [0..K_tile - 1] (\<lambda>k nnz_per_col.
              rbind (vget X_dense_row_permuted (i * K_tile + k)) (\<lambda>x.
                if x \<noteq> 0
                then rbind (vget nnz_per_col k) (\<lambda>c. vset nnz_per_col k (Suc c))
                else Inr nnz_per_col)) nnz_per_col) nnz_per_col)
         (\<lambda>nnz_per_col.
       let col_new2old = create_col_new2old std_sort nnz_per_col True
       in
       if int (length col_new2old) \<noteq> W_tile_rows
       then Inl (Runtime_error ''dense_perm_spmm_tile: column permutation size mismatch'')
       else
         rbind (permute_dense_cols X_dense_row_permuted M_tile K_tile col_new2old)
           (\<lambda>X_dense_row_col_permuted.
         rbind (permute_weight_rows W_tile W_tile_rows W_cols col_new2old)
           (\<lambda>W_tile_row_permuted.
         rbind (vnew (M_tile * N) (0::'a)) (\<lambda>_.
         rbind (dense_spmm_cpu_tile X_dense_row_col_permuted W_tile_row_permuted M_tile K_tile N)
           (\<lambda>Y_tile_permuted.
              unpermute_rows Y_tile_permuted M_tile N row_new2old))))))))))"

definition sparse_spmm_tile :: "('a::semiring_0) CSR \<Rightarrow> 'a list \<Rightarrow> int \<Rightarrow> int \<Rightarrow> error + 'a list" where
  "sparse_spmm_tile X_tile W_tile W_tile_rows W_cols =
    spmm_baseline X_tile W_tile W_tile_rows W_cols"

text \<open>\<^verbatim>\<open>hw_config::DENSE_TILE_THRESHOLD = 0.05\<close>.\<close>

definition DENSE_TILE_THRESHOLD :: rat where
  "DENSE_TILE_THRESHOLD = 5 / 100"

text \<open>
  The tile loop of \<^verbatim>\<open>process_tiles_with_predictor\<close>, with logging off. Its state is the
  output buffer and two of the counters the function keeps for its log: the nonzeros
  processed and the number of tiles sent to the dense pipeline (\<^verbatim>\<open>cpu_dense_tiles\<close>). The
  FLOP and byte counters and the timer feed the log only and are left out.
\<close>

record 'a driver_state =
  Y_final :: "'a list"
  total_nnz :: nat
  cpu_dense_tiles :: nat

definition process_tiles_loop ::
  "((int \<Rightarrow> int \<Rightarrow> bool) \<Rightarrow> int list \<Rightarrow> int list) \<Rightarrow>
   ('a::semiring_0) CSR \<Rightarrow> 'a list \<Rightarrow> int \<Rightarrow> int \<Rightarrow> Tile list \<Rightarrow> error + 'a driver_state" where
  "process_tiles_loop std_sort X_original W_original W_rows W_cols tiles =
    (let Y_rows = nrows X_original; Y_cols = W_cols
     in rbind (vnew (Y_rows * Y_cols) 0) (\<lambda>Y0.
          for_each tiles (\<lambda>tile st.
            rbind (extract_tile_csr X_original tile) (\<lambda>X_tile.
            rbind (extract_tile_W W_original W_rows W_cols tile) (\<lambda>W_tile.
            let W_tile_rows = col_end tile - col_start tile
            in
            rbind
              (if density tile \<ge> DENSE_TILE_THRESHOLD
               then rbind (dense_perm_spmm_tile std_sort X_tile W_tile W_tile_rows W_cols)
                      (\<lambda>Y_tile. Inr (Y_tile, Suc (cpu_dense_tiles st)))
               else rbind (sparse_spmm_tile X_tile W_tile W_tile_rows W_cols)
                      (\<lambda>Y_tile. Inr (Y_tile, cpu_dense_tiles st)))
              (\<lambda>(Y_tile, dense_tiles).
            let tile_rows = row_end tile - row_start tile
            in
            rbind
              (for_each [0..tile_rows - 1] (\<lambda>i Y.
                 let global_row = row_start tile + i
                 in for_each [0..Y_cols - 1] (\<lambda>j Y.
                      rbind (vget Y (global_row * Y_cols + j)) (\<lambda>y.
                      rbind (vget Y_tile (i * Y_cols + j)) (\<lambda>y_tile.
                        vset Y (global_row * Y_cols + j) (y + y_tile)))) Y) (Y_final st))
              (\<lambda>Y. Inr \<lparr>Y_final = Y, total_nnz = total_nnz st + CSR.nnz X_tile,
                         cpu_dense_tiles = dense_tiles\<rparr>)))))
            \<lparr>Y_final = Y0, total_nnz = 0, cpu_dense_tiles = 0\<rparr>))"


section \<open>Two sorting procedures\<close>

text \<open>
  Two insertion sorts that can stand for \<^verbatim>\<open>std::sort\<close> when the model is run on a
  concrete input. Both meet \<open>std_sort_spec\<close>. The first keeps equivalent elements in
  their original order, the second reverses them.
\<close>

fun insert_before :: "('e \<Rightarrow> 'e \<Rightarrow> bool) \<Rightarrow> 'e \<Rightarrow> 'e list \<Rightarrow> 'e list" where
  "insert_before cmp x [] = [x]"
| "insert_before cmp x (y # ys) =
     (if cmp y x then y # insert_before cmp x ys else x # y # ys)"

definition insertion_sort :: "('e \<Rightarrow> 'e \<Rightarrow> bool) \<Rightarrow> 'e list \<Rightarrow> 'e list" where
  "insertion_sort cmp xs = foldr (insert_before cmp) xs []"



section \<open>Well-formed matrices and what a matrix denotes\<close>

text \<open>
  The stored entries of row \<open>i\<close>, as (column, value) pairs in storage order: the slice
  \<open>[indptr[i], indptr[i + 1])\<close> of \<open>indices\<close> and \<open>data\<close>.
\<close>

definition csr_row :: "'a CSR \<Rightarrow> int \<Rightarrow> (int \<times> 'a) list" where
  "csr_row X i =
    (let lo = indptr X ! nat i; hi = indptr X ! nat (i + 1)
     in take (nat (hi - lo)) (drop (nat lo) (zip (indices X) (data X))))"

text \<open>
  The shape of a CSR matrix: the dimensions are not negative; \<open>indptr\<close> has \<open>nrows + 1\<close>
  entries, starts at 0, never decreases and ends at \<open>nnz\<close>; \<open>indices\<close> and \<open>data\<close> have
  \<open>nnz\<close> entries; every column index lies in \<open>[0, ncols)\<close>.
\<close>

definition csr_shape :: "'a CSR \<Rightarrow> bool" where
  "csr_shape X \<longleftrightarrow>
     0 \<le> nrows X \<and> 0 \<le> ncols X \<and>
     length (indptr X) = nat (nrows X) + 1 \<and>
     indptr X ! 0 = 0 \<and> sorted (indptr X) \<and> indptr X ! nat (nrows X) = int (CSR.nnz X) \<and>
     length (indices X) = CSR.nnz X \<and> length (data X) = CSR.nnz X \<and>
     (\<forall>c \<in> set (indices X). 0 \<le> c \<and> c < ncols X)"

text \<open>
  A well-formed CSR matrix has that shape and, within each row, column indices that
  ascend strictly, so that a row stores a position at most once. \<open>csr_sorted\<close> is the
  weaker condition that lets a row store a position more than once: the column indices
  of a row never decrease.
\<close>

definition csr_wf :: "'a CSR \<Rightarrow> bool" where
  "csr_wf X \<longleftrightarrow>
     csr_shape X \<and> (\<forall>i \<in> set [0..nrows X - 1]. sorted_wrt (<) (map fst (csr_row X i)))"

definition csr_sorted :: "'a CSR \<Rightarrow> bool" where
  "csr_sorted X \<longleftrightarrow>
     csr_shape X \<and> (\<forall>i \<in> set [0..nrows X - 1]. sorted (map fst (csr_row X i)))"

text \<open>The matrix with the given rows: \<open>indptr\<close> holds the running totals of their lengths.\<close>

definition row_offsets :: "'e list list \<Rightarrow> int list" where
  "row_offsets rs = map (\<lambda>k. int (length (concat (take k rs)))) [0..<Suc (length rs)]"

definition csr_of_rows :: "int \<Rightarrow> int \<Rightarrow> (int \<times> 'a) list list \<Rightarrow> 'a CSR" where
  "csr_of_rows nr nc rs =
     \<lparr>nrows = nr, ncols = nc, nnz = length (concat rs), indptr = row_offsets rs,
      indices = map fst (concat rs), data = map snd (concat rs)\<rparr>"

text \<open>Entry \<open>(i, j)\<close> of the product of \<open>X\<close> with the row-major \<open>W\<close> of \<open>N\<close> columns.\<close>

definition row_dot :: "('a::semiring_0) CSR \<Rightarrow> 'a list \<Rightarrow> int \<Rightarrow> int \<Rightarrow> int \<Rightarrow> 'a" where
  "row_dot X W N i j = (\<Sum>e \<leftarrow> csr_row X i. snd e * W ! nat (fst e * N + j))"

text \<open>A map \<open>p\<close> that is a bijection on \<open>[0, n)\<close>: a rearrangement of \<open>0, ..., n - 1\<close>.\<close>

definition is_perm :: "int \<Rightarrow> int list \<Rightarrow> bool" where
  "is_perm n p \<longleftrightarrow> mset p = mset [0..n - 1]"

text \<open>The position of \<open>t\<close> in the map \<open>p\<close>: the inverse of a rearrangement.\<close>

definition index_of :: "int list \<Rightarrow> int \<Rightarrow> int" where
  "index_of p t = int (length (takeWhile (\<lambda>x. x \<noteq> t) p))"

text \<open>\<open>Y\<close> is the row-major \<open>M \<times> N\<close> buffer with entry \<open>F i j\<close> at row \<open>i\<close>, column \<open>j\<close>.\<close>

definition is_mat :: "'a list \<Rightarrow> int \<Rightarrow> int \<Rightarrow> (int \<Rightarrow> int \<Rightarrow> 'a) \<Rightarrow> bool" where
  "is_mat Y M N F \<longleftrightarrow>
     length Y = nat (M * N) \<and>
     (\<forall>i j. 0 \<le> i \<and> i < M \<and> 0 \<le> j \<and> j < N \<longrightarrow> Y ! nat (i * N + j) = F i j)"

text \<open>The value a row leaves at column \<open>k\<close> of its dense image: the last stored entry of
  that column, or zero.\<close>

definition dense_entry :: "(int \<times> 'a) list \<Rightarrow> int \<Rightarrow> 'a::zero" where
  "dense_entry r k = (case map_of (rev r) k of None \<Rightarrow> 0 | Some v \<Rightarrow> v)"

text \<open>
  What the copy loops move from a row: the entries whose column passes \<open>keep\<close>, with
  the column sent through \<open>f\<close>. One step of such a loop on the write pointers and the two
  output vectors is \<open>copy_step\<close>.
\<close>

definition row_part :: "(int \<Rightarrow> bool) \<Rightarrow> (int \<Rightarrow> int) \<Rightarrow> (int \<times> 'a) list \<Rightarrow> (int \<times> 'a) list" where
  "row_part keep f r = map (\<lambda>e. (f (fst e), snd e)) (filter (\<lambda>e. keep (fst e)) r)"

definition copy_step ::
  "(int \<Rightarrow> bool) \<Rightarrow> (int \<Rightarrow> int) \<Rightarrow> 'a CSR \<Rightarrow> int \<Rightarrow> int \<Rightarrow>
   int list \<times> int list \<times> 'a list \<Rightarrow> int list \<times> int list \<times> 'a list" where
  "copy_step keep f X t idx st =
    (case st of (wp, ind, dat) \<Rightarrow>
       if keep (indices X ! nat idx)
       then (wp[nat t := wp ! nat t + 1],
             ind[nat (wp ! nat t) := f (indices X ! nat idx)],
             dat[nat (wp ! nat t) := data X ! nat idx])
       else (wp, ind, dat))"

text \<open>The two vectors \<open>ind\<close> and \<open>dat\<close> hold the rows \<open>rs\<close>, each at its offset.\<close>

definition holds_rows :: "int list \<Rightarrow> 'a list \<Rightarrow> (int \<times> 'a) list list \<Rightarrow> bool" where
  "holds_rows ind dat rs \<longleftrightarrow>
     length ind = length (concat rs) \<and> length dat = length (concat rs) \<and>
     (\<forall>t < length rs. \<forall>k < length (rs ! t).
        ind ! (nat (row_offsets rs ! t) + k) = fst (rs ! t ! k) \<and>
        dat ! (nat (row_offsets rs ! t) + k) = snd (rs ! t ! k))"

text \<open>A tile that lies within the matrix, and the rows of its sub-block: the entries of
  rows \<open>row_start, ..., row_end - 1\<close> whose column is in \<open>[col_start, col_end)\<close>, with the
  column counted from \<open>col_start\<close>.\<close>

definition tile_in_bounds :: "'a CSR \<Rightarrow> Tile \<Rightarrow> bool" where
  "tile_in_bounds X tile \<longleftrightarrow>
     0 \<le> row_start tile \<and> row_start tile \<le> row_end tile \<and> row_end tile \<le> nrows X \<and>
     0 \<le> col_start tile \<and> col_start tile \<le> col_end tile \<and> col_end tile \<le> ncols X"

definition tile_block :: "'a CSR \<Rightarrow> Tile \<Rightarrow> (int \<times> 'a) list list" where
  "tile_block X tile =
     map (\<lambda>i. row_part (\<lambda>c. c \<ge> col_start tile \<and> c < col_end tile) (\<lambda>c. c - col_start tile)
                (csr_row X i))
       [row_start tile..row_end tile - 1]"


definition in_tile :: "Tile \<Rightarrow> int \<times> int \<Rightarrow> bool" where
  "in_tile t rc \<longleftrightarrow>
     row_start t \<le> fst rc \<and> fst rc < row_end t \<and> col_start t \<le> snd rc \<and> snd rc < col_end t"





text \<open>
  What the stored entries of row \<open>i\<close> within the bounds of a tile add to entry \<open>(i, j)\<close> of
  the product with \<open>W\<close>.
\<close>

definition tile_dot :: "('a::semiring_0) CSR \<Rightarrow> 'a list \<Rightarrow> int \<Rightarrow> Tile \<Rightarrow> int \<Rightarrow> int \<Rightarrow> 'a" where
  "tile_dot X W N t i j =
     (\<Sum>e \<leftarrow> csr_row X i. if in_tile t (i, fst e) then snd e * W ! nat (fst e * N + j) else 0)"

section \<open>The scenario matrix\<close>

definition scenario_X :: "int CSR" where
  "scenario_X = \<lparr>nrows = 4, ncols = 4, nnz = 6, indptr = [0, 2, 3, 5, 6],
                 indices = [0, 2, 1, 0, 2, 3], data = [1, 2, 3, 4, 5, 6]\<rparr>"


section \<open>The sorting procedures meet the contract\<close>

lemma mset_insert_before: "mset (insert_before cmp x ys) = add_mset x (mset ys)"
  by (induction ys) auto


lemma set_insert_before: "set (insert_before cmp x ys) = insert x (set ys)"
  by (induction ys) auto



lemma swo_asym: "strict_weak_order cmp \<Longrightarrow> cmp a b \<Longrightarrow> \<not> cmp b a"
  unfolding strict_weak_order_def by blast

lemma swo_negtrans: "strict_weak_order cmp \<Longrightarrow> \<not> cmp a b \<Longrightarrow> \<not> cmp b c \<Longrightarrow> \<not> cmp a c"
  unfolding strict_weak_order_def by blast

lemma sorted_insert_before:
  assumes swo: "strict_weak_order cmp"
  shows "sorted_wrt (\<lambda>a b. \<not> cmp b a) ys \<Longrightarrow>
         sorted_wrt (\<lambda>a b. \<not> cmp b a) (insert_before cmp x ys)"
proof (induction ys)
  case Nil
  then show ?case by simp
next
  case (Cons y ys)
  show ?case
  proof (cases "cmp y x")
    case True
    with Cons swo_asym[OF swo True] show ?thesis
      by (auto simp: set_insert_before)
  next
    case False
    with Cons swo_negtrans[OF swo _ False] show ?thesis
      by auto
  qed
qed


lemma insertion_sort_spec: "std_sort_spec insertion_sort"
  unfolding std_sort_spec_def
proof (intro allI impI)
  fix cmp :: "'a \<Rightarrow> 'a \<Rightarrow> bool" and xs
  assume swo: "strict_weak_order cmp"
  show "mset (insertion_sort cmp xs) = mset xs \<and>
        sorted_wrt (\<lambda>a b. \<not> cmp b a) (insertion_sort cmp xs)"
    by (induction xs)
       (simp_all add: insertion_sort_def mset_insert_before sorted_insert_before[OF swo])
qed


lemma swo_key_greater: "strict_weak_order (\<lambda>a b. (key a :: nat) > key b)"
  unfolding strict_weak_order_def by auto

lemma swo_key_less: "strict_weak_order (\<lambda>a b. (key a :: 'k :: linorder) < key b)"
  unfolding strict_weak_order_def by auto

lemma std_sort_mset: "std_sort_spec srt \<Longrightarrow> strict_weak_order cmp \<Longrightarrow> mset (srt cmp xs) = mset xs"
  unfolding std_sort_spec_def by blast

lemma std_sort_sorted:
  "std_sort_spec srt \<Longrightarrow> strict_weak_order cmp \<Longrightarrow> sorted_wrt (\<lambda>a b. \<not> cmp b a) (srt cmp xs)"
  unfolding std_sort_spec_def by blast

section \<open>Loops, reads and writes\<close>

lemma rbind_Inr [simp]: "rbind (Inr x) f = f x"
  by (simp add: rbind_def)

lemma rbind_Inl [simp]: "rbind (Inl e) f = Inl e"
  by (simp add: rbind_def)

lemma rbind_eq_Inr: "rbind m f = Inr y \<longleftrightarrow> (\<exists>x. m = Inr x \<and> f x = Inr y)"
  by (cases m) auto

lemma vget_ok: "0 \<le> i \<Longrightarrow> i < int (length v) \<Longrightarrow> vget v i = Inr (v ! nat i)"
  by (simp add: vget_def)

lemma vset_ok: "0 \<le> i \<Longrightarrow> i < int (length v) \<Longrightarrow> vset v i x = Inr (v[nat i := x])"
  by (simp add: vset_def)

lemma vnew_ok: "0 \<le> n \<Longrightarrow> vnew n x = Inr (replicate (nat n) x)"
  by (simp add: vnew_def)

lemma for_each_append:
  "for_each (xs @ ys) body s = rbind (for_each xs body s) (for_each ys body)"
  by (induction xs arbitrary: s) (auto simp: rbind_def split: sum.splits)

lemma for_each_cong:
  "(\<And>x s. x \<in> set xs \<Longrightarrow> f x s = g x s) \<Longrightarrow> for_each xs f s = for_each xs g s"
  by (induction xs arbitrary: s) (auto simp: rbind_def split: sum.splits)

lemma for_each_inv:
  assumes "I 0 s0"
    and "\<And>k s. k < length xs \<Longrightarrow> I k s \<Longrightarrow> \<exists>s'. body (xs ! k) s = Inr s' \<and> I (Suc k) s'"
  shows "\<exists>s'. for_each xs body s0 = Inr s' \<and> I (length xs) s'"
  using assms
proof (induction xs arbitrary: I rule: rev_induct)
  case Nil
  then show ?case by simp
next
  case (snoc x xs)
  have "\<exists>s'. for_each xs body s0 = Inr s' \<and> I (length xs) s'"
  proof (rule snoc.IH[where I = I])
    show "I 0 s0" by (rule snoc.prems(1))
  next
    fix k s assume "k < length xs" "I k s"
    then show "\<exists>s'. body (xs ! k) s = Inr s' \<and> I (Suc k) s'"
      using snoc.prems(2)[of k s] by (simp add: nth_append)
  qed
  then obtain s1 where s1: "for_each xs body s0 = Inr s1" "I (length xs) s1" by blast
  from snoc.prems(2)[of "length xs" s1] s1(2)
  obtain s2 where "body x s1 = Inr s2" "I (Suc (length xs)) s2" by auto
  with s1 show ?case by (simp add: for_each_append)
qed

lemma for_range_inv:
  assumes "lo \<le> hi" "I lo s0"
    and "\<And>i s. lo \<le> i \<Longrightarrow> i < hi \<Longrightarrow> I i s \<Longrightarrow> \<exists>s'. body i s = Inr s' \<and> I (i + 1) s'"
  shows "\<exists>s'. for_each [lo..hi - 1] body s0 = Inr s' \<and> I hi s'"
proof -
  have "\<exists>s'. for_each [lo..hi - 1] body s0 = Inr s' \<and> I (lo + int (length [lo..hi - 1])) s'"
  proof (rule for_each_inv[where I = "\<lambda>k. I (lo + int k)"])
    show "I (lo + int 0) s0" using assms(2) by simp
  next
    fix k s assume k: "k < length [lo..hi - 1]" and "I (lo + int k) s"
    then have "\<exists>s'. body (lo + int k) s = Inr s' \<and> I (lo + int k + 1) s'"
      by (intro assms(3)) auto
    moreover have "[lo..hi - 1] ! k = lo + int k" using k by simp
    ultimately show "\<exists>s'. body ([lo..hi - 1] ! k) s = Inr s' \<and> I (lo + int (Suc k)) s'"
      by (simp add: ac_simps)
  qed
  moreover have "lo + int (length [lo..hi - 1]) = hi" using assms(1) by simp
  ultimately show ?thesis by simp
qed

lemma for_range_empty: "hi \<le> lo \<Longrightarrow> for_each [lo..hi - 1] body s = Inr s"
  by simp

text \<open>Row-major index arithmetic.\<close>

lemma rm_nonneg: "0 \<le> i \<Longrightarrow> 0 \<le> j \<Longrightarrow> 0 \<le> (N::int) \<Longrightarrow> 0 \<le> i * N + j"
  by simp

lemma rm_less: 
  assumes "0 \<le> i" "i < M" "0 \<le> j" "j < (N::int)"
  shows "i * N + j < M * N"
proof -
  have "i * N + j < i * N + N" using assms by simp
  also have "\<dots> = (i + 1) * N" by (simp add: algebra_simps)
  also have "\<dots> \<le> M * N" using assms by (intro mult_right_mono) auto
  finally show ?thesis .
qed


section \<open>Rows of a matrix of CSR shape\<close>

lemma acc_row:
  fixes Y0 :: "('a::semiring_0) list"
  assumes "0 \<le> b" "0 \<le> N" "b + N \<le> int (length Y0)"
  shows "\<exists>Y. for_each [0..N - 1] (\<lambda>j Y. rbind (vget Y (b + j)) (\<lambda>y. vset Y (b + j) (y + c j))) Y0 = Inr Y
           \<and> length Y = length Y0
           \<and> (\<forall>j. 0 \<le> j \<and> j < N \<longrightarrow> Y ! nat (b + j) = Y0 ! nat (b + j) + c j)
           \<and> (\<forall>q. q < nat b \<or> nat (b + N) \<le> q \<longrightarrow> Y ! q = Y0 ! q)"
proof -
  define I where "I = (\<lambda>j (Y :: 'a list). length Y = length Y0
           \<and> (\<forall>j'. 0 \<le> j' \<and> j' < j \<longrightarrow> Y ! nat (b + j') = Y0 ! nat (b + j') + c j')
           \<and> (\<forall>q. q < nat b \<or> nat (b + j) \<le> q \<longrightarrow> Y ! q = Y0 ! q))"
  have "\<exists>Y. for_each [0..N - 1] (\<lambda>j Y. rbind (vget Y (b + j)) (\<lambda>y. vset Y (b + j) (y + c j))) Y0 = Inr Y \<and> I N Y"
  proof (rule for_range_inv)
    show "0 \<le> N" by fact
    show "I 0 Y0" by (auto simp: I_def)
  next
    fix j Y assume j: "0 \<le> j" "j < N" and inv: "I j Y"
    have len: "length Y = length Y0" using inv by (simp add: I_def)
    have inb: "0 \<le> b + j" "b + j < int (length Y)" using j assms len by auto
    have body: "rbind (vget Y (b + j)) (\<lambda>y. vset Y (b + j) (y + c j)) = Inr (Y[nat (b + j) := Y ! nat (b + j) + c j])"
      using inb by (simp add: vget_ok vset_ok)
    have "I (j + 1) (Y[nat (b + j) := Y ! nat (b + j) + c j])"
      unfolding I_def
    proof (intro conjI allI impI)
      show "length (Y[nat (b + j) := Y ! nat (b + j) + c j]) = length Y0" using len by simp
    next
      fix j' assume j': "0 \<le> j' \<and> j' < j + 1"
      show "Y[nat (b + j) := Y ! nat (b + j) + c j] ! nat (b + j') = Y0 ! nat (b + j') + c j'"
      proof (cases "j' = j")
        case True
        have "Y ! nat (b + j) = Y0 ! nat (b + j)" using inv by (simp add: I_def)
        then show ?thesis using True inb by simp
      next
        case False
        then have "nat (b + j') \<noteq> nat (b + j)" using j' j assms by auto
        moreover have "Y ! nat (b + j') = Y0 ! nat (b + j') + c j'"
          using inv j' False by (simp add: I_def)
        ultimately show ?thesis by simp
      qed
    next
      fix q assume q: "q < nat b \<or> nat (b + (j + 1)) \<le> q"
      then have "q \<noteq> nat (b + j)" using j assms by auto
      moreover have "Y ! q = Y0 ! q" using inv q j assms unfolding I_def by auto
      ultimately show "Y[nat (b + j) := Y ! nat (b + j) + c j] ! q = Y0 ! q" by simp
    qed
    with body show "\<exists>s'. rbind (vget Y (b + j)) (\<lambda>y. vset Y (b + j) (y + c j)) = Inr s' \<and> I (j + 1) s'"
      by simp
  qed
  then show ?thesis unfolding I_def by auto
qed


lemma rm_succ_le:
  assumes "0 \<le> i" "i < M" "0 \<le> (N::int)"
  shows "i * N + N \<le> M * N"
proof -
  have "(i + 1) * N \<le> M * N" using assms by (intro mult_right_mono) auto
  then show ?thesis by (simp add: algebra_simps)
qed

lemma csr_wf_shape: "csr_wf X \<Longrightarrow> csr_shape X"
  by (simp add: csr_wf_def)

lemma csr_sorted_shape: "csr_sorted X \<Longrightarrow> csr_shape X"
  by (simp add: csr_sorted_def)

lemma csr_wf_sorted: "csr_wf X \<Longrightarrow> csr_sorted X"
  unfolding csr_wf_def csr_sorted_def using strict_sorted_imp_sorted by blast

lemma csr_shape_ptr:
  assumes "csr_shape X" "0 \<le> i" "i < nrows X"
  shows "0 \<le> indptr X ! nat i" "indptr X ! nat i \<le> indptr X ! nat (i + 1)"
        "indptr X ! nat (i + 1) \<le> int (CSR.nnz X)"
proof -
  have s: "sorted (indptr X)" and l: "length (indptr X) = nat (nrows X) + 1"
    and z: "indptr X ! 0 = 0" and e: "indptr X ! nat (nrows X) = int (CSR.nnz X)"
    using assms(1) by (auto simp: csr_shape_def)
  have "indptr X ! 0 \<le> indptr X ! nat i"
    using s l assms by (intro sorted_nth_mono) auto
  then show "0 \<le> indptr X ! nat i" using z by simp
  show "indptr X ! nat i \<le> indptr X ! nat (i + 1)"
    using s l assms by (intro sorted_nth_mono) auto
  have "indptr X ! nat (i + 1) \<le> indptr X ! nat (nrows X)"
    using s l assms by (intro sorted_nth_mono) auto
  then show "indptr X ! nat (i + 1) \<le> int (CSR.nnz X)" using e by simp
qed

lemma csr_shape_lengths:
  assumes "csr_shape X"
  shows "length (indptr X) = nat (nrows X) + 1" "length (indices X) = CSR.nnz X"
        "length (data X) = CSR.nnz X" "0 \<le> nrows X" "0 \<le> ncols X"
  using assms by (auto simp: csr_shape_def)

lemma csr_shape_col:
  assumes "csr_shape X" "0 \<le> idx" "idx < int (CSR.nnz X)"
  shows "0 \<le> indices X ! nat idx" "indices X ! nat idx < ncols X"
proof -
  have "indices X ! nat idx \<in> set (indices X)"
    using assms by (intro nth_mem) (auto simp: csr_shape_def)
  then show "0 \<le> indices X ! nat idx" "indices X ! nat idx < ncols X"
    using assms(1) by (auto simp: csr_shape_def)
qed

lemma csr_row_length:
  assumes "csr_shape X" "0 \<le> i" "i < nrows X"
  shows "length (csr_row X i) = nat (indptr X ! nat (i + 1) - indptr X ! nat i)"
proof -
  have "nat (indptr X ! nat (i + 1) - indptr X ! nat i) \<le> CSR.nnz X - nat (indptr X ! nat i)"
    using csr_shape_ptr[OF assms] by arith
  then show ?thesis
    using csr_shape_lengths[OF assms(1)] by (simp add: csr_row_def Let_def)
qed

lemma csr_row_nth:
  assumes "csr_shape X" "0 \<le> i" "i < nrows X" "indptr X ! nat i \<le> idx" "idx < indptr X ! nat (i + 1)"
  shows "csr_row X i ! nat (idx - indptr X ! nat i) = (indices X ! nat idx, data X ! nat idx)"
proof -
  note p = csr_shape_ptr[OF assms(1-3)] and l = csr_shape_lengths[OF assms(1)]
  have k: "nat (idx - indptr X ! nat i) < nat (indptr X ! nat (i + 1) - indptr X ! nat i)"
    using assms p by auto
  have "nat (indptr X ! nat i) + nat (idx - indptr X ! nat i) = nat idx"
    using assms p by auto
  moreover have "nat idx < CSR.nnz X" using assms p by auto
  ultimately show ?thesis
    using k l by (simp add: csr_row_def Let_def)
qed

lemma csr_row_take_Suc:
  assumes "csr_shape X" "0 \<le> i" "i < nrows X" "indptr X ! nat i \<le> idx" "idx < indptr X ! nat (i + 1)"
  shows "take (nat (idx + 1 - indptr X ! nat i)) (csr_row X i) =
         take (nat (idx - indptr X ! nat i)) (csr_row X i) @ [(indices X ! nat idx, data X ! nat idx)]"
proof -
  have "nat (idx - indptr X ! nat i) < length (csr_row X i)"
    using assms by (simp add: csr_row_length)
  then have "take (Suc (nat (idx - indptr X ! nat i))) (csr_row X i) =
      take (nat (idx - indptr X ! nat i)) (csr_row X i) @ [csr_row X i ! nat (idx - indptr X ! nat i)]"
    by (rule take_Suc_conv_app_nth)
  moreover have "nat (idx + 1 - indptr X ! nat i) = Suc (nat (idx - indptr X ! nat i))"
    using assms by auto
  ultimately show ?thesis using csr_row_nth[OF assms] by simp
qed

section \<open>The baseline multiply computes the product\<close>

lemma spmm_row:
  fixes X :: "('a::semiring_0) CSR"
  assumes wf: "csr_shape X" and i: "0 \<le> i" "i < nrows X" and N: "0 \<le> N"
    and W: "int (length W) = ncols X * N" and Y0: "length Y0 = nat (nrows X * N)"
  shows "\<exists>Y. for_each [indptr X ! nat i..indptr X ! nat (i + 1) - 1] (\<lambda>idx Y.
            rbind (vget (indices X) idx) (\<lambda>k.
            rbind (vget (data X) idx) (\<lambda>x_val.
              for_each [0..N - 1] (\<lambda>j Y.
                rbind (vget Y (i * N + j)) (\<lambda>y.
                rbind (vget W (k * N + j)) (\<lambda>w.
                  vset Y (i * N + j) (y + x_val * w)))) Y))) Y0 = Inr Y
         \<and> length Y = length Y0
         \<and> (\<forall>j. 0 \<le> j \<and> j < N \<longrightarrow> Y ! nat (i * N + j) = Y0 ! nat (i * N + j) + row_dot X W N i j)
         \<and> (\<forall>q. q < nat (i * N) \<or> nat (i * N + N) \<le> q \<longrightarrow> Y ! q = Y0 ! q)"
proof -
  let ?lo = "indptr X ! nat i" and ?hi = "indptr X ! nat (i + 1)"
  let ?body = "\<lambda>idx Y.
            rbind (vget (indices X) idx) (\<lambda>k.
            rbind (vget (data X) idx) (\<lambda>x_val.
              for_each [0..N - 1] (\<lambda>j Y.
                rbind (vget Y (i * N + j)) (\<lambda>y.
                rbind (vget W (k * N + j)) (\<lambda>w.
                  vset Y (i * N + j) (y + x_val * w)))) Y))"
  note p = csr_shape_ptr[OF wf i] and l = csr_shape_lengths[OF wf]
  define part where "part = (\<lambda>idx j. \<Sum>e \<leftarrow> take (nat (idx - ?lo)) (csr_row X i). snd e * W ! nat (fst e * N + j))"
  define I where "I = (\<lambda>idx (Y :: 'a list). length Y = length Y0
         \<and> (\<forall>j. 0 \<le> j \<and> j < N \<longrightarrow> Y ! nat (i * N + j) = Y0 ! nat (i * N + j) + part idx j)
         \<and> (\<forall>q. q < nat (i * N) \<or> nat (i * N + N) \<le> q \<longrightarrow> Y ! q = Y0 ! q))"
  have rowb: "0 \<le> i * N" "i * N + N \<le> int (length Y0)"
    using i N Y0 rm_succ_le[of i "nrows X" N] l by auto
  have "\<exists>Y. for_each [?lo..?hi - 1] ?body Y0 = Inr Y \<and> I ?hi Y"
  proof (rule for_range_inv)
    show "?lo \<le> ?hi" by (rule p)
    show "I ?lo Y0" by (auto simp: I_def part_def)
  next
    fix idx Y assume idx: "?lo \<le> idx" "idx < ?hi" and inv: "I idx Y"
    have ib: "0 \<le> idx" "idx < int (CSR.nnz X)" using idx p by auto
    note c = csr_shape_col[OF wf ib]
    let ?k = "indices X ! nat idx" and ?x = "data X ! nat idx"
    have len: "length Y = length Y0" using inv by (simp add: I_def)
    have inner: "for_each [0..N - 1] (\<lambda>j Y.
                rbind (vget Y (i * N + j)) (\<lambda>y.
                rbind (vget W (?k * N + j)) (\<lambda>w.
                  vset Y (i * N + j) (y + ?x * w)))) Y
        = for_each [0..N - 1] (\<lambda>j Y. rbind (vget Y (i * N + j)) (\<lambda>y. vset Y (i * N + j) (y + ?x * W ! nat (?k * N + j)))) Y"
    proof (rule for_each_cong)
      fix j s assume "j \<in> set [0..N - 1]"
      then have j: "0 \<le> j" "j < N" by auto
      have "?k * N + j < ncols X * N" by (rule rm_less[OF c j])
      moreover have "0 \<le> ?k * N + j" using c j by simp
      ultimately have "vget W (?k * N + j) = Inr (W ! nat (?k * N + j))"
        using W by (simp add: vget_ok)
      then show "rbind (vget s (i * N + j)) (\<lambda>y. rbind (vget W (?k * N + j)) (\<lambda>w. vset s (i * N + j) (y + ?x * w)))
        = rbind (vget s (i * N + j)) (\<lambda>y. vset s (i * N + j) (y + ?x * W ! nat (?k * N + j)))"
        by simp
    qed
    have body: "?body idx Y = for_each [0..N - 1] (\<lambda>j Y. rbind (vget Y (i * N + j)) (\<lambda>y. vset Y (i * N + j) (y + ?x * W ! nat (?k * N + j)))) Y"
      using ib l inner by (simp add: vget_ok)
    from acc_row[of "i * N" N Y "\<lambda>j. ?x * W ! nat (?k * N + j)"] rowb N len
    obtain Y' where Y': "for_each [0..N - 1] (\<lambda>j Y. rbind (vget Y (i * N + j)) (\<lambda>y. vset Y (i * N + j) (y + ?x * W ! nat (?k * N + j)))) Y = Inr Y'"
      "length Y' = length Y"
      "\<And>j. 0 \<le> j \<Longrightarrow> j < N \<Longrightarrow> Y' ! nat (i * N + j) = Y ! nat (i * N + j) + ?x * W ! nat (?k * N + j)"
      "\<And>q. q < nat (i * N) \<or> nat (i * N + N) \<le> q \<Longrightarrow> Y' ! q = Y ! q"
      by auto
    have part: "part (idx + 1) j = part idx j + ?x * W ! nat (?k * N + j)" for j
      unfolding part_def csr_row_take_Suc[OF wf i idx] by simp
    have "I (idx + 1) Y'"
      unfolding I_def
    proof (intro conjI allI impI)
      show "length Y' = length Y0" using Y'(2) len by simp
    next
      fix j assume j: "0 \<le> j \<and> j < N"
      then have "Y ! nat (i * N + j) = Y0 ! nat (i * N + j) + part idx j"
        using inv by (simp add: I_def)
      with Y'(3)[of j] j show "Y' ! nat (i * N + j) = Y0 ! nat (i * N + j) + part (idx + 1) j"
        by (simp add: part add.assoc)
    next
      fix q assume q: "q < nat (i * N) \<or> nat (i * N + N) \<le> q"
      then have "Y ! q = Y0 ! q" using inv unfolding I_def by blast
      with Y'(4)[OF q] show "Y' ! q = Y0 ! q" by simp
    qed
    with body Y'(1) show "\<exists>s'. ?body idx Y = Inr s' \<and> I (idx + 1) s'" by simp
  qed
  moreover have "part ?hi j = row_dot X W N i j" for j
    by (simp add: part_def row_dot_def csr_row_length[OF wf i])
  ultimately show ?thesis unfolding I_def by auto
qed

lemma rm_index_lt:
  assumes "0 \<le> i'" "i' < i" "0 \<le> j" "j < (N::int)"
  shows "i' * N + j < i * N"
  using rm_less[OF assms] .

lemma spmm_baseline_ok:
  fixes X :: "('a::semiring_0) CSR"
  assumes wf: "csr_shape X" and N: "0 \<le> N" and Wr: "ncols X = W_rows"
    and W: "int (length W) = W_rows * N"
  shows "\<exists>Y. spmm_baseline X W W_rows N = Inr Y \<and> length Y = nat (nrows X * N)
         \<and> (\<forall>i j. 0 \<le> i \<and> i < nrows X \<and> 0 \<le> j \<and> j < N \<longrightarrow> Y ! nat (i * N + j) = row_dot X W N i j)"
proof -
  note l = csr_shape_lengths[OF wf]
  let ?M = "nrows X"
  let ?body = "\<lambda>i Y.
              rbind (vget (indptr X) i) (\<lambda>row_start.
              rbind (vget (indptr X) (i + 1)) (\<lambda>row_end.
                for_each [row_start..row_end - 1] (\<lambda>idx Y.
                  rbind (vget (indices X) idx) (\<lambda>k.
                  rbind (vget (data X) idx) (\<lambda>x_val.
                    for_each [0..N - 1] (\<lambda>j Y.
                      rbind (vget Y (i * N + j)) (\<lambda>y.
                      rbind (vget W (k * N + j)) (\<lambda>w.
                        vset Y (i * N + j) (y + x_val * w)))) Y))) Y))"
  define I where "I = (\<lambda>i (Y :: 'a list). length Y = nat (?M * N)
       \<and> (\<forall>i' j. 0 \<le> i' \<and> i' < i \<and> 0 \<le> j \<and> j < N \<longrightarrow> Y ! nat (i' * N + j) = row_dot X W N i' j)
       \<and> (\<forall>q. nat (i * N) \<le> q \<and> q < nat (?M * N) \<longrightarrow> Y ! q = 0))"
  have W': "int (length W) = ncols X * N" using W Wr by simp
  have "\<exists>Y. for_each [0..?M - 1] ?body (replicate (nat (?M * N)) 0) = Inr Y \<and> I ?M Y"
  proof (rule for_range_inv)
    show "0 \<le> ?M" by (rule l)
    show "I 0 (replicate (nat (?M * N)) 0)" by (auto simp: I_def)
  next
    fix i Y assume i: "0 \<le> i" "i < ?M" and inv: "I i Y"
    have len: "length Y = nat (?M * N)" using inv by (simp add: I_def)
    from spmm_row[OF wf i N W' len]
    obtain Y' where Y': "for_each [indptr X ! nat i..indptr X ! nat (i + 1) - 1] (\<lambda>idx Y.
            rbind (vget (indices X) idx) (\<lambda>k.
            rbind (vget (data X) idx) (\<lambda>x_val.
              for_each [0..N - 1] (\<lambda>j Y.
                rbind (vget Y (i * N + j)) (\<lambda>y.
                rbind (vget W (k * N + j)) (\<lambda>w.
                  vset Y (i * N + j) (y + x_val * w)))) Y))) Y = Inr Y'"
      "length Y' = length Y"
      "\<And>j. 0 \<le> j \<Longrightarrow> j < N \<Longrightarrow> Y' ! nat (i * N + j) = Y ! nat (i * N + j) + row_dot X W N i j"
      "\<And>q. q < nat (i * N) \<or> nat (i * N + N) \<le> q \<Longrightarrow> Y' ! q = Y ! q"
      by auto
    have body: "?body i Y = Inr Y'"
      using i l Y'(1) by (simp add: vget_ok)
    have "I (i + 1) Y'"
      unfolding I_def
    proof (intro conjI allI impI)
      show "length Y' = nat (?M * N)" using Y'(2) len by simp
    next
      fix i' j assume a: "0 \<le> i' \<and> i' < i + 1 \<and> 0 \<le> j \<and> j < N"
      show "Y' ! nat (i' * N + j) = row_dot X W N i' j"
      proof (cases "i' = i")
        case True
        have "i * N + j < ?M * N" using rm_less[of i ?M j N] i a by simp
        moreover have "0 \<le> i * N + j" using i a by simp
        ultimately have "Y ! nat (i * N + j) = 0" using inv a i unfolding I_def by auto
        with Y'(3)[of j] a True show ?thesis by simp
      next
        case False
        then have "i' * N + j < i * N" using rm_index_lt[of i' i j N] a by simp
        moreover have "0 \<le> i' * N + j" using a by simp
        ultimately have "nat (i' * N + j) < nat (i * N)" by simp
        then have "Y' ! nat (i' * N + j) = Y ! nat (i' * N + j)" using Y'(4) by simp
        then show ?thesis using inv a False unfolding I_def by auto
      qed
    next
      fix q assume q: "nat ((i + 1) * N) \<le> q \<and> q < nat (?M * N)"
      have "(i + 1) * N = i * N + N" by (simp add: algebra_simps)
      with q have 1: "nat (i * N + N) \<le> q" by simp
      then have "nat (i * N) \<le> q" using N i by (simp add: nat_le_iff)
      with q inv have "Y ! q = 0" unfolding I_def by auto
      with Y'(4)[of q] 1 show "Y' ! q = 0" by simp
    qed
    with body show "\<exists>s'. ?body i Y = Inr s' \<and> I (i + 1) s'" by simp
  qed
  moreover have "0 \<le> ?M * N" using l N by simp
  ultimately show ?thesis
    using Wr unfolding I_def spmm_baseline_def by (auto simp: vnew_ok Let_def)
qed

section \<open>Loops that update a buffer row by row\<close>

lemma upd_row_gen:
  assumes b: "0 \<le> b" and N: "0 \<le> N" and bN: "b + N \<le> int (length Y0)"
    and body: "\<And>j Y. 0 \<le> j \<Longrightarrow> j < N \<Longrightarrow> length Y = length Y0 \<Longrightarrow>
                 body j Y = Inr (Y[nat (b + j) := h j (Y ! nat (b + j))])"
  shows "\<exists>Y. for_each [0..N - 1] body Y0 = Inr Y
           \<and> length Y = length Y0
           \<and> (\<forall>j. 0 \<le> j \<and> j < N \<longrightarrow> Y ! nat (b + j) = h j (Y0 ! nat (b + j)))
           \<and> (\<forall>q. q < nat b \<or> nat (b + N) \<le> q \<longrightarrow> Y ! q = Y0 ! q)"
proof -
  define I where "I = (\<lambda>j (Y :: 'a list). length Y = length Y0
           \<and> (\<forall>j'. 0 \<le> j' \<and> j' < j \<longrightarrow> Y ! nat (b + j') = h j' (Y0 ! nat (b + j')))
           \<and> (\<forall>q. q < nat b \<or> nat (b + j) \<le> q \<longrightarrow> Y ! q = Y0 ! q))"
  have "\<exists>Y. for_each [0..N - 1] body Y0 = Inr Y \<and> I N Y"
  proof (rule for_range_inv)
    show "0 \<le> N" by fact
    show "I 0 Y0" by (auto simp: I_def)
  next
    fix j Y assume j: "0 \<le> j" "j < N" and inv: "I j Y"
    have len: "length Y = length Y0" using inv by (simp add: I_def)
    have inb: "0 \<le> b + j" "b + j < int (length Y)" using j b bN len by auto
    have "I (j + 1) (Y[nat (b + j) := h j (Y ! nat (b + j))])"
      unfolding I_def
    proof (intro conjI allI impI)
      show "length (Y[nat (b + j) := h j (Y ! nat (b + j))]) = length Y0" using len by simp
    next
      fix j' assume j': "0 \<le> j' \<and> j' < j + 1"
      show "Y[nat (b + j) := h j (Y ! nat (b + j))] ! nat (b + j') = h j' (Y0 ! nat (b + j'))"
      proof (cases "j' = j")
        case True
        have "Y ! nat (b + j) = Y0 ! nat (b + j)" using inv unfolding I_def by auto
        then show ?thesis using True inb by simp
      next
        case False
        then have "nat (b + j') \<noteq> nat (b + j)" using j' j b by auto
        moreover have "Y ! nat (b + j') = h j' (Y0 ! nat (b + j'))"
          using inv j' False unfolding I_def by auto
        ultimately show ?thesis by simp
      qed
    next
      fix q assume q: "q < nat b \<or> nat (b + (j + 1)) \<le> q"
      then have "q \<noteq> nat (b + j)" using j b by auto
      moreover have "Y ! q = Y0 ! q" using inv q j b unfolding I_def by auto
      ultimately show "Y[nat (b + j) := h j (Y ! nat (b + j))] ! q = Y0 ! q" by simp
    qed
    with body[OF j len] show "\<exists>s'. body j Y = Inr s' \<and> I (j + 1) s'"
      by simp
  qed
  then show ?thesis unfolding I_def by auto
qed

lemma rm_row_disjoint:
  assumes "g \<noteq> g'" "0 \<le> g" "0 \<le> g'" "0 \<le> j" "j < (N::int)"
  shows "nat (g * N + j) < nat (g' * N) \<or> nat (g' * N + N) \<le> nat (g * N + j)"
proof (cases "g < g'")
  case True
  then have "g * N + j < g' * N" using rm_index_lt[of g g' j N] assms by simp
  moreover have "0 \<le> g * N + j" using assms by simp
  ultimately have "nat (g * N + j) < nat (g' * N)" by linarith
  then show ?thesis by simp
next
  case False
  then have "g' + 1 \<le> g" using assms by simp
  then have "(g' + 1) * N \<le> g * N" using assms by (intro mult_right_mono) auto
  then have "g' * N + N \<le> g * N + j" using assms by (simp add: algebra_simps)
  then have "nat (g' * N + N) \<le> nat (g * N + j)" by (rule nat_mono)
  then show ?thesis by blast
qed

lemma upd_rows_gen:
  assumes N: "0 \<le> N" and R: "0 \<le> R" and len0: "length Y0 = nat (M * N)"
    and g: "\<And>i. 0 \<le> i \<Longrightarrow> i < R \<Longrightarrow> 0 \<le> g i \<and> g i < M"
    and inj: "\<And>i i'. 0 \<le> i \<Longrightarrow> i < R \<Longrightarrow> 0 \<le> i' \<Longrightarrow> i' < R \<Longrightarrow> g i = g i' \<Longrightarrow> i = i'"
    and body: "\<And>i Y. 0 \<le> i \<Longrightarrow> i < R \<Longrightarrow> length Y = length Y0 \<Longrightarrow>
        \<exists>Y'. body i Y = Inr Y' \<and> length Y' = length Y
           \<and> (\<forall>j. 0 \<le> j \<and> j < N \<longrightarrow> Y' ! nat (g i * N + j) = H i j (Y ! nat (g i * N + j)))
           \<and> (\<forall>q. q < nat (g i * N) \<or> nat (g i * N + N) \<le> q \<longrightarrow> Y' ! q = Y ! q)"
  shows "\<exists>Y. for_each [0..R - 1] body Y0 = Inr Y \<and> length Y = length Y0
           \<and> (\<forall>i j. 0 \<le> i \<and> i < R \<and> 0 \<le> j \<and> j < N \<longrightarrow>
                  Y ! nat (g i * N + j) = H i j (Y0 ! nat (g i * N + j)))
           \<and> (\<forall>q. (\<forall>i. 0 \<le> i \<and> i < R \<longrightarrow> q < nat (g i * N) \<or> nat (g i * N + N) \<le> q)
                  \<longrightarrow> Y ! q = Y0 ! q)"
proof -
  define I where "I = (\<lambda>r (Y :: 'a list). length Y = length Y0
           \<and> (\<forall>i j. 0 \<le> i \<and> i < r \<and> 0 \<le> j \<and> j < N \<longrightarrow>
                  Y ! nat (g i * N + j) = H i j (Y0 ! nat (g i * N + j)))
           \<and> (\<forall>q. (\<forall>i. 0 \<le> i \<and> i < r \<longrightarrow> q < nat (g i * N) \<or> nat (g i * N + N) \<le> q)
                  \<longrightarrow> Y ! q = Y0 ! q))"
  have "\<exists>Y. for_each [0..R - 1] body Y0 = Inr Y \<and> I R Y"
  proof (rule for_range_inv)
    show "0 \<le> R" by fact
    show "I 0 Y0" by (auto simp: I_def)
  next
    fix r Y assume r: "0 \<le> r" "r < R" and inv: "I r Y"
    have len: "length Y = length Y0" using inv by (simp add: I_def)
    from body[OF r len] obtain Y' where Y': "body r Y = Inr Y'" "length Y' = length Y"
      "\<And>j. 0 \<le> j \<Longrightarrow> j < N \<Longrightarrow> Y' ! nat (g r * N + j) = H r j (Y ! nat (g r * N + j))"
      "\<And>q. q < nat (g r * N) \<or> nat (g r * N + N) \<le> q \<Longrightarrow> Y' ! q = Y ! q"
      by auto
    have fresh: "Y ! nat (g r * N + j) = Y0 ! nat (g r * N + j)" if j: "0 \<le> j" "j < N" for j
    proof -
      have "nat (g r * N + j) < nat (g i * N) \<or> nat (g i * N + N) \<le> nat (g r * N + j)"
        if i: "0 \<le> i \<and> i < r" for i
      proof (rule rm_row_disjoint)
        show "g r \<noteq> g i" using inj[of r i] r i by auto
        show "0 \<le> g r" "0 \<le> g i" using g[of r] g[of i] r i by auto
      qed (use j in auto)
      then show ?thesis using inv unfolding I_def by blast
    qed
    have "I (r + 1) Y'"
      unfolding I_def
    proof (intro conjI allI impI)
      show "length Y' = length Y0" using Y'(2) len by simp
    next
      fix i j assume a: "0 \<le> i \<and> i < r + 1 \<and> 0 \<le> j \<and> j < N"
      show "Y' ! nat (g i * N + j) = H i j (Y0 ! nat (g i * N + j))"
      proof (cases "i = r")
        case True
        then show ?thesis using Y'(3)[of j] fresh[of j] a by simp
      next
        case False
        have "nat (g i * N + j) < nat (g r * N) \<or> nat (g r * N + N) \<le> nat (g i * N + j)"
        proof (rule rm_row_disjoint)
          show "g i \<noteq> g r" using inj[of i r] r a False by auto
          show "0 \<le> g r" "0 \<le> g i" using g[of r] g[of i] r a by auto
        qed (use a in auto)
        then have "Y' ! nat (g i * N + j) = Y ! nat (g i * N + j)" by (rule Y'(4))
        moreover have "Y ! nat (g i * N + j) = H i j (Y0 ! nat (g i * N + j))"
          using inv a False unfolding I_def by auto
        ultimately show ?thesis by simp
      qed
    next
      fix q assume q: "\<forall>i. 0 \<le> i \<and> i < r + 1 \<longrightarrow> q < nat (g i * N) \<or> nat (g i * N + N) \<le> q"
      then have "Y' ! q = Y ! q" using Y'(4)[of q] r by auto
      moreover have "Y ! q = Y0 ! q" using inv q unfolding I_def by auto
      ultimately show "Y' ! q = Y0 ! q" by simp
    qed
    with Y'(1) show "\<exists>s'. body r Y = Inr s' \<and> I (r + 1) s'" by simp
  qed
  then show ?thesis unfolding I_def by auto
qed

section \<open>Rearrangements and row-major buffers\<close>

lemma fill_rows_gen:
  assumes N: "0 \<le> N" and R: "0 \<le> R" and len0: "length Y0 = nat (M * N)"
    and g: "\<And>i. 0 \<le> i \<Longrightarrow> i < R \<Longrightarrow> 0 \<le> g i \<and> g i < M"
    and inj: "\<And>i i'. 0 \<le> i \<Longrightarrow> i < R \<Longrightarrow> 0 \<le> i' \<Longrightarrow> i' < R \<Longrightarrow> g i = g i' \<Longrightarrow> i = i'"
    and inner: "\<And>i j Y. 0 \<le> i \<Longrightarrow> i < R \<Longrightarrow> 0 \<le> j \<Longrightarrow> j < N \<Longrightarrow> length Y = length Y0 \<Longrightarrow>
        inner i j Y = Inr (Y[nat (g i * N + j) := H i j (Y ! nat (g i * N + j))])"
  shows "\<exists>Y. for_each [0..R - 1] (\<lambda>i Y. for_each [0..N - 1] (inner i) Y) Y0 = Inr Y
           \<and> length Y = length Y0
           \<and> (\<forall>i j. 0 \<le> i \<and> i < R \<and> 0 \<le> j \<and> j < N \<longrightarrow>
                  Y ! nat (g i * N + j) = H i j (Y0 ! nat (g i * N + j)))
           \<and> (\<forall>q. (\<forall>i. 0 \<le> i \<and> i < R \<longrightarrow> q < nat (g i * N) \<or> nat (g i * N + N) \<le> q)
                  \<longrightarrow> Y ! q = Y0 ! q)"
proof (rule upd_rows_gen[OF N R len0 g inj])
  fix i and Y :: "'a list" assume i: "0 \<le> i" "i < R" and len: "length Y = length Y0"
  have gi: "0 \<le> g i" "g i < M" using g[OF i] by auto
  have "0 \<le> g i * N" using gi N by simp
  moreover have "g i * N + N \<le> int (length Y)"
    using rm_succ_le[OF gi N] len len0 gi N by simp
  moreover have "inner i j Y' = Inr (Y'[nat (g i * N + j) := H i j (Y' ! nat (g i * N + j))])"
    if "0 \<le> j" "j < N" "length Y' = length Y" for j Y'
    using inner[OF i that(1,2)] that(3) len by simp
  ultimately show "\<exists>Y'. for_each [0..N - 1] (inner i) Y = Inr Y' \<and> length Y' = length Y
           \<and> (\<forall>j. 0 \<le> j \<and> j < N \<longrightarrow> Y' ! nat (g i * N + j) = H i j (Y ! nat (g i * N + j)))
           \<and> (\<forall>q. q < nat (g i * N) \<or> nat (g i * N + N) \<le> q \<longrightarrow> Y' ! q = Y ! q)"
    using upd_row_gen[of "g i * N" N Y "inner i" "H i"] N by blast
qed

lemma is_perm_length: "is_perm n p \<Longrightarrow> 0 \<le> n \<Longrightarrow> int (length p) = n"
proof -
  assume a: "is_perm n p" "0 \<le> n"
  then have "size (mset p) = size (mset [0..n - 1])" by (simp add: is_perm_def)
  then show ?thesis using a by simp
qed

lemma is_perm_set: "is_perm n p \<Longrightarrow> set p = {0..n - 1}"
  unfolding is_perm_def by (metis set_mset_mset set_upto)

lemma is_perm_distinct: "is_perm n p \<Longrightarrow> distinct p"
  unfolding is_perm_def by (metis distinct_upto mset_eq_imp_distinct_iff)

lemma is_perm_range:
  assumes "is_perm n p" "0 \<le> i" "i < n"
  shows "0 \<le> p ! nat i" "p ! nat i < n"
proof -
  have "nat i < length p" using is_perm_length[OF assms(1)] assms by auto
  then have "p ! nat i \<in> set p" by simp
  then show "0 \<le> p ! nat i" "p ! nat i < n" using is_perm_set[OF assms(1)] by auto
qed

lemma is_perm_inj:
  assumes "is_perm n p" "0 \<le> i" "i < n" "0 \<le> i'" "i' < n" "p ! nat i = p ! nat i'"
  shows "i = i'"
proof -
  have "nat i < length p" "nat i' < length p" using is_perm_length[OF assms(1)] assms by auto
  then have "nat i = nat i'" using is_perm_distinct[OF assms(1)] assms(6)
    by (simp add: nth_eq_iff_index_eq)
  then show ?thesis using assms by simp
qed

lemma is_perm_surj:
  assumes "is_perm n p" "0 \<le> r" "r < n"
  shows "\<exists>i. 0 \<le> i \<and> i < n \<and> p ! nat i = r"
proof -
  have "r \<in> set p" using is_perm_set[OF assms(1)] assms by auto
  then obtain k where k: "k < length p" "p ! k = r" by (auto simp: in_set_conv_nth)
  have "int k < n" using k is_perm_length[OF assms(1)] assms by auto
  then show ?thesis using k by (intro exI[of _ "int k"]) auto
qed

lemma map_nth_upto: "0 \<le> n \<Longrightarrow> int (length p) = n \<Longrightarrow> map (\<lambda>i. p ! nat i) [0..n - 1] = p"
  by (intro nth_equalityI) auto

lemma is_perm_sum:
  fixes f :: "int \<Rightarrow> 'a::comm_monoid_add"
  assumes "is_perm n p" "0 \<le> n"
  shows "(\<Sum>i \<leftarrow> [0..n - 1]. f (p ! nat i)) = (\<Sum>r \<leftarrow> [0..n - 1]. f r)"
proof -
  have "(\<Sum>i \<leftarrow> [0..n - 1]. f (p ! nat i)) = sum_list (map f (map (\<lambda>i. p ! nat i) [0..n - 1]))"
    by (simp add: comp_def)
  also have "\<dots> = sum_list (map f p)"
    using map_nth_upto[OF assms(2) is_perm_length[OF assms]] by simp
  also have "\<dots> = sum_mset (image_mset f (mset p))"
    by (metis mset_map sum_mset_sum_list)
  also have "\<dots> = sum_mset (image_mset f (mset [0..n - 1]))"
    using assms(1) by (simp add: is_perm_def)
  also have "\<dots> = (\<Sum>r \<leftarrow> [0..n - 1]. f r)"
    by (metis mset_map sum_mset_sum_list)
  finally show ?thesis .
qed

lemma mat_eqI:
  assumes "is_mat Y M N F" "is_mat Y' M N F" "0 \<le> M" "0 \<le> N"
  shows "Y = Y'"
proof (rule nth_equalityI)
  show "length Y = length Y'" using assms by (simp add: is_mat_def)
next
  fix q assume q: "q < length Y"
  then have qb: "int q < M * N" using assms by (simp add: is_mat_def)
  have Npos: "0 < N"
  proof (rule ccontr)
    assume "\<not> 0 < N" then have "N = 0" using assms by simp
    then show False using qb by simp
  qed
  define i where "i = int q div N"
  define j where "j = int q mod N"
  have ij: "int q = i * N + j" by (simp add: i_def j_def)
  have j: "0 \<le> j" "j < N" using Npos by (simp_all add: j_def)
  have i0: "0 \<le> i" using Npos by (simp add: i_def pos_imp_zdiv_nonneg_iff)
  have iM: "i < M"
  proof (rule ccontr)
    assume "\<not> i < M"
    then have "M * N \<le> i * N" using Npos by (intro mult_right_mono) auto
    then show False using qb ij j by linarith
  qed
  have "Y ! nat (i * N + j) = F i j" "Y' ! nat (i * N + j) = F i j"
    using assms i0 iM j by (auto simp: is_mat_def)
  then show "Y ! q = Y' ! q" using ij by (metis nat_int)
qed

lemma is_mat_cong:
  assumes "is_mat Y M N F" "\<And>i j. 0 \<le> i \<Longrightarrow> i < M \<Longrightarrow> 0 \<le> j \<Longrightarrow> j < N \<Longrightarrow> F i j = G i j"
  shows "is_mat Y M N G"
  using assms by (auto simp: is_mat_def)

lemma sum_loop:
  fixes f :: "'i \<Rightarrow> 'a::monoid_add"
  shows "for_each xs (\<lambda>k sum. Inr (sum + f k)) s = Inr (s + sum_list (map f xs))"
  by (induction xs arbitrary: s) (simp_all add: add.assoc)

section \<open>The dense buffer operations\<close>

lemma vget_mat:
  assumes "length v = nat (M * N)" "0 \<le> i" "i < M" "0 \<le> j" "j < N"
  shows "vget v (i * N + j) = Inr (v ! nat (i * N + j))"
proof -
  have "i * N + j < M * N" by (rule rm_less[OF assms(2-5)])
  moreover have "0 \<le> i * N + j" using assms by simp
  ultimately show ?thesis using assms(1) by (simp add: vget_ok)
qed

lemma vset_mat:
  assumes "length v = nat (M * N)" "0 \<le> i" "i < M" "0 \<le> j" "j < N"
  shows "vset v (i * N + j) x = Inr (v[nat (i * N + j) := x])"
proof -
  have "i * N + j < M * N" by (rule rm_less[OF assms(2-5)])
  moreover have "0 \<le> i * N + j" using assms by simp
  ultimately show ?thesis using assms(1) by (simp add: vset_ok)
qed

lemma vget_perm: "is_perm n p \<Longrightarrow> 0 \<le> i \<Longrightarrow> i < n \<Longrightarrow> vget p i = Inr (p ! nat i)"
  using is_perm_length[of n p] by (simp add: vget_ok)

lemma is_mat_fill:
  assumes "length Y = nat (M * N)"
    "\<forall>i j. 0 \<le> i \<and> i < M \<and> 0 \<le> j \<and> j < N \<longrightarrow> Y ! nat (i * N + j) = F i j"
  shows "is_mat Y M N F"
  using assms by (simp add: is_mat_def)

lemma permute_dense_rows_ok:
  fixes X :: "('a::zero) list"
  assumes M: "0 \<le> M" and K: "0 \<le> K" and X: "length X = nat (M * K)" and p: "is_perm M p"
  shows "\<exists>Y. permute_dense_rows X M K p = Inr Y \<and> is_mat Y M K (\<lambda>i k. X ! nat (p ! nat i * K + k))"
proof -
  let ?Y0 = "replicate (nat (M * K)) (0::'a)"
  let ?inner = "\<lambda>i k Xp. rbind (vget X (p ! nat i * K + k)) (\<lambda>x. vset Xp (i * K + k) x)"
  have eq: "for_each [0..M - 1] (\<lambda>new_row X_permuted.
        rbind (vget p new_row) (\<lambda>old_row.
          for_each [0..K - 1] (\<lambda>k X_permuted.
            rbind (vget X (old_row * K + k)) (\<lambda>x.
              vset X_permuted (new_row * K + k) x)) X_permuted)) ?Y0
     = for_each [0..M - 1] (\<lambda>i Y. for_each [0..K - 1] (?inner i) Y) ?Y0"
    by (rule for_each_cong) (simp add: vget_perm[OF p])
  have "\<exists>Y. for_each [0..M - 1] (\<lambda>i Y. for_each [0..K - 1] (?inner i) Y) ?Y0 = Inr Y
           \<and> length Y = length ?Y0
           \<and> (\<forall>i j. 0 \<le> i \<and> i < M \<and> 0 \<le> j \<and> j < K \<longrightarrow>
                  Y ! nat (i * K + j) = X ! nat (p ! nat i * K + j))
           \<and> (\<forall>q. (\<forall>i. 0 \<le> i \<and> i < M \<longrightarrow> q < nat (i * K) \<or> nat (i * K + K) \<le> q)
                  \<longrightarrow> Y ! q = ?Y0 ! q)"
  proof (rule fill_rows_gen[where g = "\<lambda>i. i" and M = M and H = "\<lambda>i j _. X ! nat (p ! nat i * K + j)"])
    fix i j and Y :: "'a list"
    assume a: "0 \<le> i" "i < M" "0 \<le> j" "j < K" "length Y = length ?Y0"
    note r = is_perm_range[OF p a(1,2)]
    show "?inner i j Y = Inr (Y[nat (i * K + j) := X ! nat (p ! nat i * K + j)])"
      using a by (simp add: vget_mat[OF X r a(3,4)] vset_mat[of Y M K])
  qed (use M K in auto)
  then obtain Y where Y: "for_each [0..M - 1] (\<lambda>i Y. for_each [0..K - 1] (?inner i) Y) ?Y0 = Inr Y"
     "length Y = nat (M * K)"
     "\<forall>i j. 0 \<le> i \<and> i < M \<and> 0 \<le> j \<and> j < K \<longrightarrow> Y ! nat (i * K + j) = X ! nat (p ! nat i * K + j)"
    by auto
  have "0 \<le> M * K" using M K by simp
  then have "permute_dense_rows X M K p = Inr Y"
    unfolding permute_dense_rows_def by (simp add: vnew_ok eq Y(1))
  then show ?thesis using Y(2,3) by (simp add: is_mat_def)
qed

lemma permute_dense_cols_ok:
  fixes X :: "('a::zero) list"
  assumes M: "0 \<le> M" and K: "0 \<le> K" and X: "length X = nat (M * K)" and p: "is_perm K p"
  shows "\<exists>Y. permute_dense_cols X M K p = Inr Y \<and> is_mat Y M K (\<lambda>i k. X ! nat (i * K + p ! nat k))"
proof -
  let ?Y0 = "replicate (nat (M * K)) (0::'a)"
  let ?inner = "\<lambda>i new_col X_permuted.
          rbind (vget p new_col) (\<lambda>old_col.
          rbind (vget X (i * K + old_col)) (\<lambda>x.
            vset X_permuted (i * K + new_col) x))"
  have "\<exists>Y. for_each [0..M - 1] (\<lambda>i Y. for_each [0..K - 1] (?inner i) Y) ?Y0 = Inr Y
           \<and> length Y = length ?Y0
           \<and> (\<forall>i j. 0 \<le> i \<and> i < M \<and> 0 \<le> j \<and> j < K \<longrightarrow>
                  Y ! nat (i * K + j) = X ! nat (i * K + p ! nat j))
           \<and> (\<forall>q. (\<forall>i. 0 \<le> i \<and> i < M \<longrightarrow> q < nat (i * K) \<or> nat (i * K + K) \<le> q)
                  \<longrightarrow> Y ! q = ?Y0 ! q)"
  proof (rule fill_rows_gen[where g = "\<lambda>i. i" and M = M and H = "\<lambda>i j _. X ! nat (i * K + p ! nat j)"])
    fix i j and Y :: "'a list"
    assume a: "0 \<le> i" "i < M" "0 \<le> j" "j < K" "length Y = length ?Y0"
    note r = is_perm_range[OF p a(3,4)]
    show "?inner i j Y = Inr (Y[nat (i * K + j) := X ! nat (i * K + p ! nat j)])"
      using a by (simp add: vget_perm[OF p] vget_mat[OF X a(1,2) r] vset_mat[of Y M K])
  qed (use M K in auto)
  then obtain Y where Y: "for_each [0..M - 1] (\<lambda>i Y. for_each [0..K - 1] (?inner i) Y) ?Y0 = Inr Y"
     "length Y = nat (M * K)"
     "\<forall>i j. 0 \<le> i \<and> i < M \<and> 0 \<le> j \<and> j < K \<longrightarrow> Y ! nat (i * K + j) = X ! nat (i * K + p ! nat j)"
    by auto
  have "0 \<le> M * K" using M K by simp
  then have "permute_dense_cols X M K p = Inr Y"
    unfolding permute_dense_cols_def by (simp add: vnew_ok Y(1))
  then show ?thesis using Y(2,3) by (simp add: is_mat_def)
qed

lemma permute_weight_rows_ok:
  fixes W :: "('a::zero) list"
  assumes M: "0 \<le> M" and N: "0 \<le> N" and W: "length W = nat (M * N)" and p: "is_perm M p"
  shows "\<exists>Y. permute_weight_rows W M N p = Inr Y \<and> is_mat Y M N (\<lambda>i j. W ! nat (p ! nat i * N + j))"
proof -
  let ?Y0 = "replicate (nat (M * N)) (0::'a)"
  let ?inner = "\<lambda>i j Wp. rbind (vget W (p ! nat i * N + j)) (\<lambda>w. vset Wp (i * N + j) w)"
  have eq: "for_each [0..M - 1] (\<lambda>i_new Wp.
           rbind (vget p i_new) (\<lambda>i_old.
             if i_old < 0 \<or> i_old \<ge> M
             then Inl (Runtime_error ''permute_weight_rows: invalid row_new2old entry'')
             else
               for_each [0..N - 1] (\<lambda>j Wp.
                 rbind (vget W (i_old * N + j)) (\<lambda>w.
                   vset Wp (i_new * N + j) w)) Wp)) ?Y0
     = for_each [0..M - 1] (\<lambda>i Y. for_each [0..N - 1] (?inner i) Y) ?Y0"
  proof (rule for_each_cong)
    fix i and s :: "'a list" assume "i \<in> set [0..M - 1]"
    then have i: "0 \<le> i" "i < M" by auto
    note r = is_perm_range[OF p i]
    show "rbind (vget p i) (\<lambda>i_old.
             if i_old < 0 \<or> i_old \<ge> M
             then Inl (Runtime_error ''permute_weight_rows: invalid row_new2old entry'')
             else
               for_each [0..N - 1] (\<lambda>j Wp.
                 rbind (vget W (i_old * N + j)) (\<lambda>w.
                   vset Wp (i * N + j) w)) s) = for_each [0..N - 1] (?inner i) s"
      using r by (simp add: vget_perm[OF p i])
  qed
  have "\<exists>Y. for_each [0..M - 1] (\<lambda>i Y. for_each [0..N - 1] (?inner i) Y) ?Y0 = Inr Y
           \<and> length Y = length ?Y0
           \<and> (\<forall>i j. 0 \<le> i \<and> i < M \<and> 0 \<le> j \<and> j < N \<longrightarrow>
                  Y ! nat (i * N + j) = W ! nat (p ! nat i * N + j))
           \<and> (\<forall>q. (\<forall>i. 0 \<le> i \<and> i < M \<longrightarrow> q < nat (i * N) \<or> nat (i * N + N) \<le> q)
                  \<longrightarrow> Y ! q = ?Y0 ! q)"
  proof (rule fill_rows_gen[where g = "\<lambda>i. i" and M = M and H = "\<lambda>i j _. W ! nat (p ! nat i * N + j)"])
    fix i j and Y :: "'a list"
    assume a: "0 \<le> i" "i < M" "0 \<le> j" "j < N" "length Y = length ?Y0"
    note r = is_perm_range[OF p a(1,2)]
    show "?inner i j Y = Inr (Y[nat (i * N + j) := W ! nat (p ! nat i * N + j)])"
      using a by (simp add: vget_mat[OF W r a(3,4)] vset_mat[of Y M N])
  qed (use M N in auto)
  then obtain Y where Y: "for_each [0..M - 1] (\<lambda>i Y. for_each [0..N - 1] (?inner i) Y) ?Y0 = Inr Y"
     "length Y = nat (M * N)"
     "\<forall>i j. 0 \<le> i \<and> i < M \<and> 0 \<le> j \<and> j < N \<longrightarrow> Y ! nat (i * N + j) = W ! nat (p ! nat i * N + j)"
    by auto
  have "int (length p) = M" by (rule is_perm_length[OF p M])
  moreover have "int (length W) = M * N" using W M N by simp
  moreover have "0 \<le> M * N" using M N by simp
  ultimately have "permute_weight_rows W M N p = Inr Y"
    unfolding permute_weight_rows_def by (simp add: vnew_ok eq Y(1))
  then show ?thesis using Y(2,3) by (simp add: is_mat_def)
qed

lemma unpermute_rows_ok:
  fixes Y' :: "('a::zero) list"
  assumes M: "0 \<le> M" and N: "0 \<le> N" and Y': "length Y' = nat (M * N)" and p: "is_perm M p"
  shows "\<exists>Y. unpermute_rows Y' M N p = Inr Y \<and> length Y = nat (M * N) \<and>
     (\<forall>i j. 0 \<le> i \<and> i < M \<and> 0 \<le> j \<and> j < N \<longrightarrow> Y ! nat (p ! nat i * N + j) = Y' ! nat (i * N + j))"
proof -
  let ?Y0 = "replicate (nat (M * N)) (0::'a)"
  let ?inner = "\<lambda>i j Y. rbind (vget Y' (i * N + j)) (\<lambda>y. vset Y (p ! nat i * N + j) y)"
  have eq: "for_each [0..M - 1] (\<lambda>i_new Y.
           rbind (vget p i_new) (\<lambda>i_old.
             if i_old < 0 \<or> i_old \<ge> M
             then Inl (Runtime_error ''unpermute_rows: invalid row_new2old entry'')
             else
               for_each [0..N - 1] (\<lambda>j Y.
                 rbind (vget Y' (i_new * N + j)) (\<lambda>y.
                   vset Y (i_old * N + j) y)) Y)) ?Y0
     = for_each [0..M - 1] (\<lambda>i Y. for_each [0..N - 1] (?inner i) Y) ?Y0"
  proof (rule for_each_cong)
    fix i and s :: "'a list" assume "i \<in> set [0..M - 1]"
    then have i: "0 \<le> i" "i < M" by auto
    note r = is_perm_range[OF p i]
    show "rbind (vget p i) (\<lambda>i_old.
             if i_old < 0 \<or> i_old \<ge> M
             then Inl (Runtime_error ''unpermute_rows: invalid row_new2old entry'')
             else
               for_each [0..N - 1] (\<lambda>j Y.
                 rbind (vget Y' (i * N + j)) (\<lambda>y.
                   vset Y (i_old * N + j) y)) s) = for_each [0..N - 1] (?inner i) s"
      using r by (simp add: vget_perm[OF p i])
  qed
  have "\<exists>Y. for_each [0..M - 1] (\<lambda>i Y. for_each [0..N - 1] (?inner i) Y) ?Y0 = Inr Y
           \<and> length Y = length ?Y0
           \<and> (\<forall>i j. 0 \<le> i \<and> i < M \<and> 0 \<le> j \<and> j < N \<longrightarrow>
                  Y ! nat (p ! nat i * N + j) = Y' ! nat (i * N + j))
           \<and> (\<forall>q. (\<forall>i. 0 \<le> i \<and> i < M \<longrightarrow> q < nat (p ! nat i * N) \<or> nat (p ! nat i * N + N) \<le> q)
                  \<longrightarrow> Y ! q = ?Y0 ! q)"
  proof (rule fill_rows_gen[where g = "\<lambda>i. p ! nat i" and M = M and H = "\<lambda>i j _. Y' ! nat (i * N + j)"])
    fix i j and Y :: "'a list"
    assume a: "0 \<le> i" "i < M" "0 \<le> j" "j < N" "length Y = length ?Y0"
    note r = is_perm_range[OF p a(1,2)]
    show "?inner i j Y = Inr (Y[nat (p ! nat i * N + j) := Y' ! nat (i * N + j)])"
      using a by (simp add: vget_mat[OF Y' a(1-4)] vset_mat[of Y M N, OF _ r a(3,4)])
  next
    fix i assume "0 \<le> i" "i < M"
    then show "0 \<le> p ! nat i \<and> p ! nat i < M" using is_perm_range[OF p] by simp
  next
    fix i i' assume "0 \<le> i" "i < M" "0 \<le> i'" "i' < M" "p ! nat i = p ! nat i'"
    then show "i = i'" by (rule is_perm_inj[OF p])
  qed (use M N in auto)
  then obtain Y where Y: "for_each [0..M - 1] (\<lambda>i Y. for_each [0..N - 1] (?inner i) Y) ?Y0 = Inr Y"
     "length Y = nat (M * N)"
     "\<forall>i j. 0 \<le> i \<and> i < M \<and> 0 \<le> j \<and> j < N \<longrightarrow> Y ! nat (p ! nat i * N + j) = Y' ! nat (i * N + j)"
    by auto
  have "int (length p) = M" by (rule is_perm_length[OF p M])
  moreover have "int (length Y') = M * N" using Y' M N by simp
  moreover have "0 \<le> M * N" using M N by simp
  ultimately have "unpermute_rows Y' M N p = Inr Y"
    unfolding unpermute_rows_def by (simp add: vnew_ok eq Y(1))
  then show ?thesis using Y(2,3) by simp
qed

lemma dense_spmm_cpu_tile_ok:
  fixes X :: "('a::semiring_0) list"
  assumes M: "0 \<le> M" and K: "0 \<le> K" and N: "0 \<le> N"
    and X: "length X = nat (M * K)" and W: "length W = nat (K * N)"
  shows "\<exists>Y. dense_spmm_cpu_tile X W M K N = Inr Y \<and>
     is_mat Y M N (\<lambda>i j. \<Sum>k \<leftarrow> [0..K - 1]. X ! nat (i * K + k) * W ! nat (k * N + j))"
proof -
  let ?Y0 = "replicate (nat (M * N)) (0::'a)"
  let ?F = "\<lambda>i j. \<Sum>k \<leftarrow> [0..K - 1]. X ! nat (i * K + k) * W ! nat (k * N + j)"
  let ?inner = "\<lambda>i j Y_dense.
          rbind
            (for_each [0..K - 1] (\<lambda>k sum.
               rbind (vget X (i * K + k)) (\<lambda>x.
               rbind (vget W (k * N + j)) (\<lambda>w. Inr (sum + x * w)))) 0)
            (\<lambda>sum. vset Y_dense (i * N + j) sum)"
  have "\<exists>Y. for_each [0..M - 1] (\<lambda>i Y. for_each [0..N - 1] (?inner i) Y) ?Y0 = Inr Y
           \<and> length Y = length ?Y0
           \<and> (\<forall>i j. 0 \<le> i \<and> i < M \<and> 0 \<le> j \<and> j < N \<longrightarrow> Y ! nat (i * N + j) = ?F i j)
           \<and> (\<forall>q. (\<forall>i. 0 \<le> i \<and> i < M \<longrightarrow> q < nat (i * N) \<or> nat (i * N + N) \<le> q)
                  \<longrightarrow> Y ! q = ?Y0 ! q)"
  proof (rule fill_rows_gen[where g = "\<lambda>i. i" and M = M and H = "\<lambda>i j _. ?F i j"])
    fix i j and Y :: "'a list"
    assume a: "0 \<le> i" "i < M" "0 \<le> j" "j < N" "length Y = length ?Y0"
    have "for_each [0..K - 1] (\<lambda>k sum.
               rbind (vget X (i * K + k)) (\<lambda>x.
               rbind (vget W (k * N + j)) (\<lambda>w. Inr (sum + x * w)))) (0::'a)
        = for_each [0..K - 1] (\<lambda>k sum. Inr (sum + X ! nat (i * K + k) * W ! nat (k * N + j))) 0"
    proof (rule for_each_cong)
      fix k and s :: 'a assume "k \<in> set [0..K - 1]"
      then have k: "0 \<le> k" "k < K" by auto
      show "rbind (vget X (i * K + k)) (\<lambda>x. rbind (vget W (k * N + j)) (\<lambda>w. Inr (s + x * w)))
          = Inr (s + X ! nat (i * K + k) * W ! nat (k * N + j))"
        by (simp add: vget_mat[OF X a(1,2) k] vget_mat[OF W k a(3,4)])
    qed
    then show "?inner i j Y = Inr (Y[nat (i * N + j) := ?F i j])"
      using a by (simp add: sum_loop vset_mat[of Y M N])
  qed (use M N in auto)
  then obtain Y where Y: "for_each [0..M - 1] (\<lambda>i Y. for_each [0..N - 1] (?inner i) Y) ?Y0 = Inr Y"
     "length Y = nat (M * N)"
     "\<forall>i j. 0 \<le> i \<and> i < M \<and> 0 \<le> j \<and> j < N \<longrightarrow> Y ! nat (i * N + j) = ?F i j"
    by auto
  have "0 \<le> M * N" using M N by simp
  then have "dense_spmm_cpu_tile X W M K N = Inr Y"
    unfolding dense_spmm_cpu_tile_def by (simp add: vnew_ok Y(1))
  then show ?thesis using Y(2,3) by (simp add: is_mat_def)
qed

section \<open>The dense image of a tile\<close>

lemma extract_tile_W_ok:
  fixes W :: "('a::zero) list"
  assumes N: "0 \<le> N" and W: "length W = nat (W_rows * N)"
    and t: "0 \<le> col_start tile" "col_start tile \<le> col_end tile" "col_end tile \<le> W_rows"
  shows "\<exists>Wt. extract_tile_W W W_rows N tile = Inr Wt \<and>
     is_mat Wt (col_end tile - col_start tile) N (\<lambda>i j. W ! nat ((col_start tile + i) * N + j))"
proof -
  let ?K = "col_end tile - col_start tile"
  let ?Y0 = "replicate (nat (?K * N)) (0::'a)"
  let ?inner = "\<lambda>i j W_tile. rbind (vget W ((col_start tile + i) * N + j)) (\<lambda>w. vset W_tile (i * N + j) w)"
  have K: "0 \<le> ?K" using t by simp
  have eq: "for_each [0..?K - 1] (\<lambda>i W_tile.
            let orig_row = col_start tile + i
            in if orig_row \<ge> 0 \<and> orig_row < W_rows
               then
                 for_each [0..N - 1] (\<lambda>j W_tile.
                   rbind (vget W (orig_row * N + j)) (\<lambda>w.
                     vset W_tile (i * N + j) w)) W_tile
               else Inr W_tile) ?Y0
     = for_each [0..?K - 1] (\<lambda>i Y. for_each [0..N - 1] (?inner i) Y) ?Y0"
    by (rule for_each_cong) (use t in \<open>auto simp: Let_def\<close>)
  have "\<exists>Y. for_each [0..?K - 1] (\<lambda>i Y. for_each [0..N - 1] (?inner i) Y) ?Y0 = Inr Y
           \<and> length Y = length ?Y0
           \<and> (\<forall>i j. 0 \<le> i \<and> i < ?K \<and> 0 \<le> j \<and> j < N \<longrightarrow>
                  Y ! nat (i * N + j) = W ! nat ((col_start tile + i) * N + j))
           \<and> (\<forall>q. (\<forall>i. 0 \<le> i \<and> i < ?K \<longrightarrow> q < nat (i * N) \<or> nat (i * N + N) \<le> q)
                  \<longrightarrow> Y ! q = ?Y0 ! q)"
  proof (rule fill_rows_gen[where g = "\<lambda>i. i" and M = ?K and H = "\<lambda>i j _. W ! nat ((col_start tile + i) * N + j)"])
    fix i j and Y :: "'a list"
    assume a: "0 \<le> i" "i < ?K" "0 \<le> j" "j < N" "length Y = length ?Y0"
    have r: "0 \<le> col_start tile + i" "col_start tile + i < W_rows" using a t by auto
    show "?inner i j Y = Inr (Y[nat (i * N + j) := W ! nat ((col_start tile + i) * N + j)])"
      using a by (simp add: vget_mat[OF W r a(3,4)] vset_mat[of Y ?K N])
  qed (use K N in auto)
  then obtain Y where Y: "for_each [0..?K - 1] (\<lambda>i Y. for_each [0..N - 1] (?inner i) Y) ?Y0 = Inr Y"
     "length Y = nat (?K * N)"
     "\<forall>i j. 0 \<le> i \<and> i < ?K \<and> 0 \<le> j \<and> j < N \<longrightarrow> Y ! nat (i * N + j) = W ! nat ((col_start tile + i) * N + j)"
    by auto
  have "0 \<le> ?K * N" using K N by simp
  then have "extract_tile_W W W_rows N tile = Inr Y"
    unfolding extract_tile_W_def Let_def using eq Y(1) by (simp add: vnew_ok Let_def)
  then show ?thesis using Y(2,3) by (simp add: is_mat_def)
qed

lemma dense_entry_snoc:
  "dense_entry (r @ [(c, v)]) k = (if k = c then v else dense_entry r k)"
  by (simp add: dense_entry_def)

lemma dense_entry_Nil: "dense_entry [] k = 0"
  by (simp add: dense_entry_def)

lemma materialize_row:
  fixes X :: "('a::zero) CSR"
  assumes wf: "csr_shape X" and i: "0 \<le> i" "i < nrows X"
    and Y0: "length Y0 = nat (nrows X * ncols X)"
    and z: "\<And>k. 0 \<le> k \<Longrightarrow> k < ncols X \<Longrightarrow> Y0 ! nat (i * ncols X + k) = 0"
  shows "\<exists>Y. for_each [indptr X ! nat i..indptr X ! nat (i + 1) - 1] (\<lambda>idx X_dense.
                rbind (vget (indices X) idx) (\<lambda>k.
                rbind (vget (data X) idx) (\<lambda>val.
                  vset X_dense (i * ncols X + k) val))) Y0 = Inr Y
         \<and> length Y = length Y0
         \<and> (\<forall>k. 0 \<le> k \<and> k < ncols X \<longrightarrow> Y ! nat (i * ncols X + k) = dense_entry (csr_row X i) k)
         \<and> (\<forall>q. q < nat (i * ncols X) \<or> nat (i * ncols X + ncols X) \<le> q \<longrightarrow> Y ! q = Y0 ! q)"
proof -
  let ?K = "ncols X"
  let ?lo = "indptr X ! nat i" and ?hi = "indptr X ! nat (i + 1)"
  let ?body = "\<lambda>idx X_dense.
                rbind (vget (indices X) idx) (\<lambda>k.
                rbind (vget (data X) idx) (\<lambda>val.
                  vset X_dense (i * ?K + k) val))"
  note p = csr_shape_ptr[OF wf i] and l = csr_shape_lengths[OF wf]
  define I where "I = (\<lambda>idx (Y :: 'a list). length Y = length Y0
         \<and> (\<forall>k. 0 \<le> k \<and> k < ?K \<longrightarrow> Y ! nat (i * ?K + k) = dense_entry (take (nat (idx - ?lo)) (csr_row X i)) k)
         \<and> (\<forall>q. q < nat (i * ?K) \<or> nat (i * ?K + ?K) \<le> q \<longrightarrow> Y ! q = Y0 ! q))"
  have "\<exists>Y. for_each [?lo..?hi - 1] ?body Y0 = Inr Y \<and> I ?hi Y"
  proof (rule for_range_inv)
    show "?lo \<le> ?hi" by (rule p)
    show "I ?lo Y0" using z by (auto simp: I_def dense_entry_Nil)
  next
    fix idx Y assume idx: "?lo \<le> idx" "idx < ?hi" and inv: "I idx Y"
    have ib: "0 \<le> idx" "idx < int (CSR.nnz X)" using idx p by auto
    note c = csr_shape_col[OF wf ib]
    let ?k = "indices X ! nat idx" and ?x = "data X ! nat idx"
    have len: "length Y = nat (nrows X * ?K)" using inv Y0 by (simp add: I_def)
    have body: "?body idx Y = Inr (Y[nat (i * ?K + ?k) := ?x])"
      using ib l by (simp add: vget_ok vset_mat[OF len i c])
    have "I (idx + 1) (Y[nat (i * ?K + ?k) := ?x])"
      unfolding I_def
    proof (intro conjI allI impI)
      show "length (Y[nat (i * ?K + ?k) := ?x]) = length Y0" using len Y0 by simp
    next
      fix k assume k: "0 \<le> k \<and> k < ?K"
      have old: "Y ! nat (i * ?K + k) = dense_entry (take (nat (idx - ?lo)) (csr_row X i)) k"
        using inv k unfolding I_def by blast
      have pos: "i * ?K + ?k < nrows X * ?K" "0 \<le> i * ?K + ?k" "0 \<le> i * ?K + k"
        using rm_less[OF i c] i c k by auto
      have "(nat (i * ?K + k) = nat (i * ?K + ?k)) = (k = ?k)" using pos by auto
      then show "Y[nat (i * ?K + ?k) := ?x] ! nat (i * ?K + k)
          = dense_entry (take (nat (idx + 1 - ?lo)) (csr_row X i)) k"
        unfolding csr_row_take_Suc[OF wf i idx] dense_entry_snoc
        using old pos len by (auto simp: nth_list_update)
    next
      fix q assume q: "q < nat (i * ?K) \<or> nat (i * ?K + ?K) \<le> q"
      have "0 \<le> i * ?K" using i l by simp
      then have "q \<noteq> nat (i * ?K + ?k)" using q c by auto
      moreover have "Y ! q = Y0 ! q" using inv q unfolding I_def by blast
      ultimately show "Y[nat (i * ?K + ?k) := ?x] ! q = Y0 ! q" by simp
    qed
    with body show "\<exists>s'. ?body idx Y = Inr s' \<and> I (idx + 1) s'" by simp
  qed
  moreover have "take (nat (?hi - ?lo)) (csr_row X i) = csr_row X i"
    by (simp add: csr_row_length[OF wf i])
  ultimately show ?thesis unfolding I_def by auto
qed

lemma materialize_ok:
  fixes X :: "('a::zero) CSR"
  assumes wf: "csr_shape X"
  shows "\<exists>D. materialize_csr_to_dense X = Inr D \<and>
     is_mat D (nrows X) (ncols X) (\<lambda>i k. dense_entry (csr_row X i) k)"
proof -
  note l = csr_shape_lengths[OF wf]
  let ?M = "nrows X" and ?K = "ncols X"
  let ?Y0 = "replicate (nat (?M * ?K)) (0::'a)"
  let ?body = "\<lambda>i X_dense.
            rbind (vget (indptr X) i) (\<lambda>row_start.
            rbind (vget (indptr X) (i + 1)) (\<lambda>row_end.
              for_each [row_start..row_end - 1] (\<lambda>idx X_dense.
                rbind (vget (indices X) idx) (\<lambda>k.
                rbind (vget (data X) idx) (\<lambda>val.
                  vset X_dense (i * ?K + k) val))) X_dense))"
  define I where "I = (\<lambda>i (Y :: 'a list). length Y = nat (?M * ?K)
       \<and> (\<forall>i' k. 0 \<le> i' \<and> i' < i \<and> 0 \<le> k \<and> k < ?K \<longrightarrow> Y ! nat (i' * ?K + k) = dense_entry (csr_row X i') k)
       \<and> (\<forall>q. nat (i * ?K) \<le> q \<and> q < nat (?M * ?K) \<longrightarrow> Y ! q = 0))"
  have "\<exists>Y. for_each [0..?M - 1] ?body ?Y0 = Inr Y \<and> I ?M Y"
  proof (rule for_range_inv)
    show "0 \<le> ?M" by (rule l)
    show "I 0 ?Y0" by (auto simp: I_def)
  next
    fix i Y assume i: "0 \<le> i" "i < ?M" and inv: "I i Y"
    have len: "length Y = nat (?M * ?K)" using inv by (simp add: I_def)
    have z: "Y ! nat (i * ?K + k) = 0" if "0 \<le> k" "k < ?K" for k
    proof -
      have "i * ?K + k < ?M * ?K" using rm_less[OF i that] .
      moreover have "0 \<le> i * ?K + k" "0 \<le> i * ?K" using i that l by auto
      ultimately have "nat (i * ?K) \<le> nat (i * ?K + k) \<and> nat (i * ?K + k) < nat (?M * ?K)"
        using that by auto
      then show ?thesis using inv unfolding I_def by blast
    qed
    from materialize_row[OF wf i len z]
    obtain Y' where Y': "for_each [indptr X ! nat i..indptr X ! nat (i + 1) - 1] (\<lambda>idx X_dense.
                rbind (vget (indices X) idx) (\<lambda>k.
                rbind (vget (data X) idx) (\<lambda>val.
                  vset X_dense (i * ?K + k) val))) Y = Inr Y'"
      "length Y' = length Y"
      "\<And>k. 0 \<le> k \<Longrightarrow> k < ?K \<Longrightarrow> Y' ! nat (i * ?K + k) = dense_entry (csr_row X i) k"
      "\<And>q. q < nat (i * ?K) \<or> nat (i * ?K + ?K) \<le> q \<Longrightarrow> Y' ! q = Y ! q"
      by auto
    have body: "?body i Y = Inr Y'"
      using i l Y'(1) by (simp add: vget_ok)
    have "I (i + 1) Y'"
      unfolding I_def
    proof (intro conjI allI impI)
      show "length Y' = nat (?M * ?K)" using Y'(2) len by simp
    next
      fix i' k assume a: "0 \<le> i' \<and> i' < i + 1 \<and> 0 \<le> k \<and> k < ?K"
      show "Y' ! nat (i' * ?K + k) = dense_entry (csr_row X i') k"
      proof (cases "i' = i")
        case True
        with Y'(3)[of k] a show ?thesis by simp
      next
        case False
        then have "i' * ?K + k < i * ?K" using rm_index_lt[of i' i k ?K] a by simp
        moreover have "0 \<le> i' * ?K + k" using a by simp
        ultimately have "nat (i' * ?K + k) < nat (i * ?K)" by simp
        then have "Y' ! nat (i' * ?K + k) = Y ! nat (i' * ?K + k)" using Y'(4) by simp
        then show ?thesis using inv a False unfolding I_def by auto
      qed
    next
      fix q assume q: "nat ((i + 1) * ?K) \<le> q \<and> q < nat (?M * ?K)"
      have "(i + 1) * ?K = i * ?K + ?K" by (simp add: algebra_simps)
      with q have 1: "nat (i * ?K + ?K) \<le> q" by simp
      then have "nat (i * ?K) \<le> q" using l i by (simp add: nat_le_iff)
      with q inv have "Y ! q = 0" unfolding I_def by auto
      with Y'(4)[of q] 1 show "Y' ! q = 0" by simp
    qed
    with body show "\<exists>s'. ?body i Y = Inr s' \<and> I (i + 1) s'" by simp
  qed
  then obtain Y where Y: "for_each [0..?M - 1] ?body ?Y0 = Inr Y" "I ?M Y" by blast
  have "0 \<le> ?M * ?K" using l by simp
  then have "materialize_csr_to_dense X = Inr Y"
    unfolding materialize_csr_to_dense_def Let_def using Y(1) by (simp add: vnew_ok)
  then show ?thesis using Y(2) unfolding I_def is_mat_def by simp
qed

section \<open>The dense tile pipeline\<close>

lemma compute_nnz_per_row_ok:
  assumes wf: "csr_shape X"
  shows "\<exists>cnt. compute_nnz_per_row X = Inr cnt \<and> int (length cnt) = nrows X"
proof -
  note l = csr_shape_lengths[OF wf]
  let ?M = "nrows X"
  let ?body = "\<lambda>i nnz_per_row.
        rbind (vget (indptr X) (i + 1)) (\<lambda>hi.
        rbind (vget (indptr X) i) (\<lambda>lo.
          vset nnz_per_row i (size_t_of_int (hi - lo))))"
  have "\<exists>cnt. for_each [0..?M - 1] ?body (replicate (nat ?M) 0) = Inr cnt \<and> length cnt = nat ?M"
  proof (rule for_range_inv[where I = "\<lambda>i cnt. length cnt = nat ?M"])
    fix i and s :: "nat list" assume "0 \<le> i" "i < ?M" "length s = nat ?M"
    then show "\<exists>s'. ?body i s = Inr s' \<and> length s' = nat ?M"
      using l by (simp add: vget_ok vset_ok)
  qed (use l in auto)
  then show ?thesis
    using l unfolding compute_nnz_per_row_def by (auto simp: vnew_ok)
qed

lemma nnz_per_col_loop_ok:
  fixes D :: "('a::zero) list"
  assumes M: "0 \<le> M" and K: "0 \<le> K" and D: "length D = nat (M * K)"
  shows "\<exists>cc. for_each [0..M - 1] (\<lambda>i nnz_per_col.
            for_each [0..K - 1] (\<lambda>k nnz_per_col.
              rbind (vget D (i * K + k)) (\<lambda>x.
                if x \<noteq> 0
                then rbind (vget nnz_per_col k) (\<lambda>c. vset nnz_per_col k (Suc c))
                else Inr nnz_per_col)) nnz_per_col) (replicate (nat K) (0::nat)) = Inr cc
        \<and> int (length cc) = K"
proof -
  let ?inner = "\<lambda>i k nnz_per_col.
              rbind (vget D (i * K + k)) (\<lambda>x.
                if x \<noteq> 0
                then rbind (vget nnz_per_col k) (\<lambda>c. vset nnz_per_col k (Suc c))
                else Inr nnz_per_col)"
  have "\<exists>cc. for_each [0..M - 1] (\<lambda>i c. for_each [0..K - 1] (?inner i) c) (replicate (nat K) (0::nat)) = Inr cc
        \<and> length cc = nat K"
  proof (rule for_range_inv[where I = "\<lambda>i cc. length cc = nat K"])
    fix i and s :: "nat list" assume i: "0 \<le> i" "i < M" and s: "length s = nat K"
    show "\<exists>s'. for_each [0..K - 1] (?inner i) s = Inr s' \<and> length s' = nat K"
    proof (rule for_range_inv[where I = "\<lambda>i cc. length cc = nat K"])
      fix k and c :: "nat list" assume k: "0 \<le> k" "k < K" and c: "length c = nat K"
      show "\<exists>s'. ?inner i k c = Inr s' \<and> length s' = nat K"
        using k c by (simp add: vget_mat[OF D i k] vget_ok vset_ok)
    qed (use K s in auto)
  qed (use M K in auto)
  then show ?thesis using K by auto
qed

lemma create_row_new2old_perm:
  assumes "std_sort_spec srt"
  shows "is_perm (int (length counts)) (create_row_new2old srt counts d)"
  unfolding is_perm_def create_row_new2old_def Let_def
  using std_sort_mset[OF assms swo_key_greater[where key = "\<lambda>a. counts ! nat a"]]
    std_sort_mset[OF assms swo_key_less[where key = "\<lambda>a. counts ! nat a"]]
  by simp

lemma create_col_new2old_perm:
  assumes "std_sort_spec srt"
  shows "is_perm (int (length counts)) (create_col_new2old srt counts d)"
  unfolding is_perm_def create_col_new2old_def Let_def
  using std_sort_mset[OF assms swo_key_greater[where key = "\<lambda>a. counts ! nat a"]]
    std_sort_mset[OF assms swo_key_less[where key = "\<lambda>a. counts ! nat a"]]
  by simp

lemma dense_entry_Cons:
  assumes "c \<notin> fst ` set r"
  shows "dense_entry ((c, v) # r) k = (if k = c then v else dense_entry r k)"
proof -
  have "map_of (rev r) c = None" using assms by (simp add: map_of_eq_None_iff)
  then show ?thesis
    by (auto simp: dense_entry_def map_add_def split: option.splits)
qed

lemma dense_entry_absent:
  assumes "c \<notin> fst ` set r"
  shows "dense_entry r c = 0"
proof -
  have "map_of (rev r) c = None" using assms by (simp add: map_of_eq_None_iff)
  then show ?thesis by (simp add: dense_entry_def)
qed

lemma dense_row_dot:
  fixes w :: "int \<Rightarrow> 'a::semiring_0"
  assumes "distinct (map fst r)" "\<forall>e \<in> set r. 0 \<le> fst e \<and> fst e < K"
  shows "(\<Sum>k \<leftarrow> [0..K - 1]. dense_entry r k * w k) = (\<Sum>e \<leftarrow> r. snd e * w (fst e))"
  using assms
proof (induction r)
  case Nil
  then show ?case by (simp add: dense_entry_Nil)
next
  case (Cons e r)
  obtain c v where e: "e = (c, v)" by (cases e)
  have c: "c \<notin> fst ` set r" "0 \<le> c" "c < K" using Cons.prems e by auto
  have "(\<Sum>k \<leftarrow> [0..K - 1]. dense_entry (e # r) k * w k)
      = (\<Sum>k \<in> {0..K - 1}. dense_entry (e # r) k * w k)"
    by (simp add: sum_list_distinct_conv_sum_set)
  also have "\<dots> = (\<Sum>k \<in> {0..K - 1}. (if k = c then v * w c else 0) + dense_entry r k * w k)"
    by (rule sum.cong) (auto simp: e dense_entry_Cons[OF c(1)] dense_entry_absent[OF c(1)])
  also have "\<dots> = v * w c + (\<Sum>k \<in> {0..K - 1}. dense_entry r k * w k)"
    using c by (simp add: sum.distrib)
  also have "(\<Sum>k \<in> {0..K - 1}. dense_entry r k * w k) = (\<Sum>k \<leftarrow> [0..K - 1]. dense_entry r k * w k)"
    by (simp add: sum_list_distinct_conv_sum_set)
  also have "\<dots> = (\<Sum>e \<leftarrow> r. snd e * w (fst e))"
    using Cons by simp
  finally show ?case by (simp add: e)
qed

lemma csr_row_cols:
  assumes wf: "csr_shape X" and i: "0 \<le> i" "i < nrows X"
  shows "\<forall>e \<in> set (csr_row X i). 0 \<le> fst e \<and> fst e < ncols X"
proof
  fix e assume "e \<in> set (csr_row X i)"
  then have "e \<in> set (zip (indices X) (data X))"
    unfolding csr_row_def Let_def by (meson in_set_dropD in_set_takeD)
  then have "fst e \<in> set (indices X)" by (metis in_set_zipE prod.collapse)
  then show "0 \<le> fst e \<and> fst e < ncols X" using wf by (auto simp: csr_shape_def)
qed

lemma csr_row_distinct:
  assumes wf: "csr_wf X" and i: "0 \<le> i" "i < nrows X"
  shows "sorted_wrt (<) (map fst (csr_row X i))" "distinct (map fst (csr_row X i))"
proof -
  show "sorted_wrt (<) (map fst (csr_row X i))" using wf i by (auto simp: csr_wf_def)
  then show "distinct (map fst (csr_row X i))" using strict_sorted_iff by blast
qed

lemma sum_list_cong:
  "(\<And>x. x \<in> set xs \<Longrightarrow> f x = g x) \<Longrightarrow> sum_list (map f xs) = sum_list (map g xs)"
  by (metis map_eq_conv)

lemma dense_perm_spmm_tile_ok:
  fixes X :: "('a::semiring_0) CSR"
  assumes swf: "csr_wf X" and srt: "std_sort_spec srt" and N: "0 \<le> N"
    and W: "length W = nat (ncols X * N)"
  shows "\<exists>Y. dense_perm_spmm_tile srt X W (ncols X) N = Inr Y \<and>
              is_mat Y (nrows X) N (row_dot X W N)"
proof -
  note wf = csr_wf_shape[OF swf]
  note l = csr_shape_lengths[OF wf]
  let ?M = "nrows X" and ?K = "ncols X"
  have M: "0 \<le> ?M" and K: "0 \<le> ?K" using l by auto
  from materialize_ok[OF wf] obtain D where
    D: "materialize_csr_to_dense X = Inr D" "is_mat D ?M ?K (\<lambda>i k. dense_entry (csr_row X i) k)"
    by blast
  from compute_nnz_per_row_ok[OF wf] obtain cnt where
    cnt: "compute_nnz_per_row X = Inr cnt" "int (length cnt) = ?M" by blast
  define p where "p = create_row_new2old srt cnt True"
  have p: "is_perm ?M p" using create_row_new2old_perm[OF srt, of cnt True] cnt(2) by (simp add: p_def)
  have Dl: "length D = nat (?M * ?K)" using D(2) by (simp add: is_mat_def)
  from permute_dense_rows_ok[OF M K Dl p] obtain Dp where
    Dp: "permute_dense_rows D ?M ?K p = Inr Dp" "is_mat Dp ?M ?K (\<lambda>i k. D ! nat (p ! nat i * ?K + k))"
    by blast
  have Dpl: "length Dp = nat (?M * ?K)" using Dp(2) by (simp add: is_mat_def)
  from nnz_per_col_loop_ok[OF M K Dpl] obtain cc where
    cc: "for_each [0..?M - 1] (\<lambda>i nnz_per_col.
            for_each [0..?K - 1] (\<lambda>k nnz_per_col.
              rbind (vget Dp (i * ?K + k)) (\<lambda>x.
                if x \<noteq> 0
                then rbind (vget nnz_per_col k) (\<lambda>c. vset nnz_per_col k (Suc c))
                else Inr nnz_per_col)) nnz_per_col) (replicate (nat ?K) (0::nat)) = Inr cc"
        "int (length cc) = ?K" by blast
  define q where "q = create_col_new2old srt cc True"
  have q: "is_perm ?K q" using create_col_new2old_perm[OF srt, of cc True] cc(2) by (simp add: q_def)
  have ql: "int (length q) = ?K" by (rule is_perm_length[OF q K])
  from permute_dense_cols_ok[OF M K Dpl q] obtain Dpq where
    Dpq: "permute_dense_cols Dp ?M ?K q = Inr Dpq" "is_mat Dpq ?M ?K (\<lambda>i k. Dp ! nat (i * ?K + q ! nat k))"
    by blast
  from permute_weight_rows_ok[OF K N W q] obtain Wp where
    Wp: "permute_weight_rows W ?K N q = Inr Wp" "is_mat Wp ?K N (\<lambda>k j. W ! nat (q ! nat k * N + j))"
    by blast
  have Dpql: "length Dpq = nat (?M * ?K)" using Dpq(2) by (simp add: is_mat_def)
  have Wpl: "length Wp = nat (?K * N)" using Wp(2) by (simp add: is_mat_def)
  from dense_spmm_cpu_tile_ok[OF M K N Dpql Wpl] obtain Yp where
    Yp: "dense_spmm_cpu_tile Dpq Wp ?M ?K N = Inr Yp"
        "is_mat Yp ?M N (\<lambda>i j. \<Sum>k \<leftarrow> [0..?K - 1]. Dpq ! nat (i * ?K + k) * Wp ! nat (k * N + j))"
    by blast
  have Ypl: "length Yp = nat (?M * N)" using Yp(2) by (simp add: is_mat_def)
  from unpermute_rows_ok[OF M N Ypl p] obtain Y where
    Y: "unpermute_rows Yp ?M N p = Inr Y" "length Y = nat (?M * N)"
       "\<And>i j. 0 \<le> i \<Longrightarrow> i < ?M \<Longrightarrow> 0 \<le> j \<Longrightarrow> j < N \<Longrightarrow> Y ! nat (p ! nat i * N + j) = Yp ! nat (i * N + j)"
    by blast
  have MN: "0 \<le> ?M * N" using M N by simp
  have run: "dense_perm_spmm_tile srt X W ?K N = Inr Y"
    unfolding dense_perm_spmm_tile_def Let_def
    using D(1) cnt(1) Dp(1) cc(1) Dpq(1) Wp(1) Yp(1) Y(1) ql K MN
    by (simp add: vnew_ok p_def[symmetric] q_def[symmetric])
  have val: "Y ! nat (r * N + j) = row_dot X W N r j"
    if r: "0 \<le> r" "r < ?M" and j: "0 \<le> j" "j < N" for r j
  proof -
    from is_perm_surj[OF p r] obtain i where i: "0 \<le> i" "i < ?M" "p ! nat i = r" by blast
    have "Y ! nat (r * N + j) = Yp ! nat (i * N + j)" using Y(3)[OF i(1,2) j] i(3) by simp
    also have "\<dots> = (\<Sum>k \<leftarrow> [0..?K - 1]. Dpq ! nat (i * ?K + k) * Wp ! nat (k * N + j))"
      using Yp(2) i j by (simp add: is_mat_def)
    also have "\<dots> = (\<Sum>k \<leftarrow> [0..?K - 1]. D ! nat (r * ?K + q ! nat k) * W ! nat (q ! nat k * N + j))"
    proof (rule sum_list_cong)
      fix k assume "k \<in> set [0..?K - 1]"
      then have k: "0 \<le> k" "k < ?K" by auto
      note qk = is_perm_range[OF q k]
      have "Dpq ! nat (i * ?K + k) = Dp ! nat (i * ?K + q ! nat k)"
        using Dpq(2) i k by (simp add: is_mat_def)
      also have "\<dots> = D ! nat (r * ?K + q ! nat k)"
        using Dp(2) i qk by (simp add: is_mat_def)
      finally have "Dpq ! nat (i * ?K + k) = D ! nat (r * ?K + q ! nat k)" .
      moreover have "Wp ! nat (k * N + j) = W ! nat (q ! nat k * N + j)"
        using Wp(2) k j by (simp add: is_mat_def)
      ultimately show "Dpq ! nat (i * ?K + k) * Wp ! nat (k * N + j)
          = D ! nat (r * ?K + q ! nat k) * W ! nat (q ! nat k * N + j)" by simp
    qed
    also have "\<dots> = (\<Sum>k \<leftarrow> [0..?K - 1]. D ! nat (r * ?K + k) * W ! nat (k * N + j))"
      by (rule is_perm_sum[OF q K, of "\<lambda>k. D ! nat (r * ?K + k) * W ! nat (k * N + j)"])
    also have "\<dots> = (\<Sum>k \<leftarrow> [0..?K - 1]. dense_entry (csr_row X r) k * W ! nat (k * N + j))"
    proof (rule sum_list_cong)
      fix k assume "k \<in> set [0..?K - 1]"
      then have k: "0 \<le> k" "k < ?K" by auto
      show "D ! nat (r * ?K + k) * W ! nat (k * N + j) = dense_entry (csr_row X r) k * W ! nat (k * N + j)"
        using D(2) r k by (simp add: is_mat_def)
    qed
    also have "\<dots> = (\<Sum>e \<leftarrow> csr_row X r. snd e * W ! nat (fst e * N + j))"
      by (rule dense_row_dot[OF csr_row_distinct(2)[OF swf r] csr_row_cols[OF wf r]])
    finally show ?thesis by (simp add: row_dot_def)
  qed
  show ?thesis using run Y(2) val by (auto simp: is_mat_def)
qed

section \<open>A matrix is its rows\<close>

lemma length_row_offsets [simp]: "length (row_offsets rs) = Suc (length rs)"
  by (simp add: row_offsets_def)

lemma row_offsets_nth:
  "k \<le> length rs \<Longrightarrow> row_offsets rs ! k = int (length (concat (take k rs)))"
  unfolding row_offsets_def by (simp add: nth_map_upt del: upt_Suc)

lemma row_offsets_0: "row_offsets rs ! 0 = 0"
  by (simp add: row_offsets_nth)

lemma row_offsets_last: "row_offsets rs ! length rs = int (length (concat rs))"
  by (simp add: row_offsets_nth)

lemma row_offsets_Suc:
  assumes "k < length rs"
  shows "row_offsets rs ! Suc k = row_offsets rs ! k + int (length (rs ! k))"
  using assms by (simp add: row_offsets_nth take_Suc_conv_app_nth)

lemma row_offsets_mono:
  assumes "j \<le> k" "k \<le> length rs"
  shows "row_offsets rs ! j \<le> row_offsets rs ! k"
proof -
  have "take k rs = take j rs @ drop j (take k rs)"
    using assms by (metis append_take_drop_id min.absorb1 take_take)
  then have "length (concat (take j rs)) \<le> length (concat (take k rs))"
    by (metis concat_append length_append le_add1)
  then show ?thesis using assms by (simp add: row_offsets_nth)
qed

lemma sorted_row_offsets: "sorted (row_offsets rs)"
  by (rule sorted_iff_nth_mono[THEN iffD2]) (auto intro: row_offsets_mono)

lemma row_offsets_cong:
  assumes "map length rs = map length rs'"
  shows "row_offsets rs = row_offsets rs'"
proof -
  have l: "length rs = length rs'" using assms by (metis length_map)
  have "length (concat (take k rs)) = length (concat (take k rs'))" for k
  proof -
    have "map length (take k rs) = map length (take k rs')" using assms by (simp add: take_map[symmetric])
    then show ?thesis by (simp add: length_concat)
  qed
  then show ?thesis using l by (simp add: row_offsets_def)
qed

lemma concat_slice:
  assumes "k < length rs"
  shows "take (length (rs ! k)) (drop (length (concat (take k rs))) (concat rs)) = rs ! k"
proof -
  have "rs = take k rs @ rs ! k # drop (Suc k) rs" using assms by (simp add: id_take_nth_drop)
  then have "concat rs = concat (take k rs) @ rs ! k @ concat (drop (Suc k) rs)"
    by (metis concat.simps(2) concat_append)
  then show ?thesis by simp
qed

lemma csr_row_of_rows:
  assumes "0 \<le> i" "nat i < length rs"
  shows "csr_row (csr_of_rows nr nc rs) i = rs ! nat i"
proof -
  have 1: "row_offsets rs ! nat (i + 1) - row_offsets rs ! nat i = int (length (rs ! nat i))"
    using assms row_offsets_Suc[of "nat i" rs] by (simp add: nat_add_distrib)
  have 2: "nat (row_offsets rs ! nat i) = length (concat (take (nat i) rs))"
    using assms by (simp add: row_offsets_nth)
  show ?thesis
    unfolding csr_row_def csr_of_rows_def Let_def
    using 1 2 concat_slice[OF assms(2)] by (simp add: zip_map_fst_snd)
qed

lemma csr_rows_concat_take:
  assumes wf: "csr_shape X" and k: "0 \<le> k" "k \<le> nrows X"
  shows "concat (map (csr_row X) [0..k - 1]) = take (nat (indptr X ! nat k)) (zip (indices X) (data X))"
  using k
proof (induction "nat k" arbitrary: k)
  case 0
  then have "k = 0" by simp
  then show ?case using wf by (simp add: csr_shape_def)
next
  case (Suc n)
  then have k1: "0 \<le> k - 1" "k - 1 < nrows X" "n = nat (k - 1)" by auto
  have IH: "concat (map (csr_row X) [0..k - 1 - 1]) = take (nat (indptr X ! nat (k - 1))) (zip (indices X) (data X))"
    using Suc.hyps(1)[of "k - 1"] k1 by simp
  have "[0..k - 1] = [0..k - 1 - 1] @ [k - 1]" using k1 by (simp add: upto_rec2)
  then have "concat (map (csr_row X) [0..k - 1]) = concat (map (csr_row X) [0..k - 1 - 1]) @ csr_row X (k - 1)"
    by simp
  also have "\<dots> = take (nat (indptr X ! nat (k - 1))) (zip (indices X) (data X))
       @ take (nat (indptr X ! nat k - indptr X ! nat (k - 1))) (drop (nat (indptr X ! nat (k - 1))) (zip (indices X) (data X)))"
    using IH by (simp add: csr_row_def Let_def)
  also have "\<dots> = take (nat (indptr X ! nat (k - 1)) + nat (indptr X ! nat k - indptr X ! nat (k - 1))) (zip (indices X) (data X))"
    by (simp add: take_add)
  also have "nat (indptr X ! nat (k - 1)) + nat (indptr X ! nat k - indptr X ! nat (k - 1)) = nat (indptr X ! nat k)"
    using csr_shape_ptr[OF wf k1(1,2)] by (simp add: nat_add_distrib[symmetric])
  finally show ?case .
qed

lemma csr_rows_concat:
  assumes wf: "csr_shape X"
  shows "concat (map (csr_row X) [0..nrows X - 1]) = zip (indices X) (data X)"
  using csr_rows_concat_take[OF wf, of "nrows X"] wf by (simp add: csr_shape_def)

lemma csr_shape_ptr_le:
  assumes "csr_shape X" "0 \<le> k" "k \<le> nrows X"
  shows "0 \<le> indptr X ! nat k" "indptr X ! nat k \<le> int (CSR.nnz X)"
proof -
  have s: "sorted (indptr X)" and l: "length (indptr X) = nat (nrows X) + 1"
    and z: "indptr X ! 0 = 0" and e: "indptr X ! nat (nrows X) = int (CSR.nnz X)"
    using assms(1) by (auto simp: csr_shape_def)
  have "indptr X ! 0 \<le> indptr X ! nat k"
    using s l assms by (intro sorted_nth_mono) auto
  then show "0 \<le> indptr X ! nat k" using z by simp
  have "indptr X ! nat k \<le> indptr X ! nat (nrows X)"
    using s l assms by (intro sorted_nth_mono) auto
  then show "indptr X ! nat k \<le> int (CSR.nnz X)" using e by simp
qed

lemma take_upto: "int k \<le> n \<Longrightarrow> take k [0..n - 1] = [0..int k - 1]"
  by (rule nth_equalityI) auto

lemma csr_rows_offsets:
  assumes wf: "csr_shape X"
  shows "row_offsets (map (csr_row X) [0..nrows X - 1]) = indptr X"
proof (rule nth_equalityI)
  show "length (row_offsets (map (csr_row X) [0..nrows X - 1])) = length (indptr X)"
    using csr_shape_lengths[OF wf] by simp
next
  fix k assume "k < length (row_offsets (map (csr_row X) [0..nrows X - 1]))"
  then have k: "int k \<le> nrows X" "0 \<le> int k" using csr_shape_lengths[OF wf] by auto
  have "take k (map (csr_row X) [0..nrows X - 1]) = map (csr_row X) [0..int k - 1]"
    using take_upto[OF k(1)] by (simp add: take_map)
  then have "concat (take k (map (csr_row X) [0..nrows X - 1]))
      = take (nat (indptr X ! k)) (zip (indices X) (data X))"
    using csr_rows_concat_take[OF wf k(2,1)] by simp
  moreover have "nat (indptr X ! k) \<le> CSR.nnz X" "0 \<le> indptr X ! k"
    using csr_shape_ptr_le[OF wf k(2,1)] by auto
  moreover have "k \<le> length (map (csr_row X) [0..nrows X - 1])"
    using k csr_shape_lengths[OF wf] by simp
  ultimately show "row_offsets (map (csr_row X) [0..nrows X - 1]) ! k = indptr X ! k"
    using csr_shape_lengths[OF wf] by (simp add: row_offsets_nth)
qed

lemma csr_of_rows_rows:
  assumes wf: "csr_shape X"
  shows "csr_of_rows (nrows X) (ncols X) (map (csr_row X) [0..nrows X - 1]) = X"
proof -
  have "length (indices X) = length (data X)" using csr_shape_lengths[OF wf] by simp
  then have "map fst (zip (indices X) (data X)) = indices X" "map snd (zip (indices X) (data X)) = data X"
    by simp_all
  then show ?thesis
    unfolding csr_of_rows_def csr_rows_concat[OF wf] csr_rows_offsets[OF wf]
    using csr_shape_lengths[OF wf] by simp
qed

lemma csr_of_rows_shape:
  assumes "0 \<le> nr" "0 \<le> nc" "length rs = nat nr"
    and "\<forall>r \<in> set rs. \<forall>e \<in> set r. 0 \<le> fst e \<and> fst e < nc"
  shows "csr_shape (csr_of_rows nr nc rs)"
proof -
  have "\<forall>c \<in> set (map fst (concat rs)). 0 \<le> c \<and> c < nc"
    using assms(4) by auto
  then show ?thesis
    unfolding csr_shape_def using assms(1,2,3)
    by (simp add: csr_of_rows_def row_offsets_0 sorted_row_offsets row_offsets_last[of rs, simplified assms(3)] del: set_upto set_map set_concat)
qed

lemma csr_of_rows_sel [simp]:
  "nrows (csr_of_rows nr nc rs) = nr" "ncols (csr_of_rows nr nc rs) = nc"
  by (simp_all add: csr_of_rows_def)

lemma csr_of_rows_wf:
  assumes "0 \<le> nr" "0 \<le> nc" "length rs = nat nr"
    and "\<forall>r \<in> set rs. sorted_wrt (<) (map fst r) \<and> (\<forall>e \<in> set r. 0 \<le> fst e \<and> fst e < nc)"
  shows "csr_wf (csr_of_rows nr nc rs)"
proof -
  have "sorted_wrt (<) (map fst (csr_row (csr_of_rows nr nc rs) i))" if "i \<in> set [0..nr - 1]" for i
  proof -
    have i: "0 \<le> i" "nat i < length rs" using that assms by auto
    then have "rs ! nat i \<in> set rs" by simp
    then show ?thesis using assms(4) csr_row_of_rows[OF i] by simp
  qed
  moreover have "csr_shape (csr_of_rows nr nc rs)"
    using assms by (intro csr_of_rows_shape) auto
  ultimately show ?thesis unfolding csr_wf_def csr_of_rows_sel by blast
qed

lemma csr_of_rows_sorted:
  assumes "0 \<le> nr" "0 \<le> nc" "length rs = nat nr"
    and "\<forall>r \<in> set rs. sorted (map fst r) \<and> (\<forall>e \<in> set r. 0 \<le> fst e \<and> fst e < nc)"
  shows "csr_sorted (csr_of_rows nr nc rs)"
proof -
  have "sorted (map fst (csr_row (csr_of_rows nr nc rs) i))" if "i \<in> set [0..nr - 1]" for i
  proof -
    have i: "0 \<le> i" "nat i < length rs" using that assms by auto
    then have "rs ! nat i \<in> set rs" by simp
    then show ?thesis using assms(4) csr_row_of_rows[OF i] by simp
  qed
  moreover have "csr_shape (csr_of_rows nr nc rs)"
    using assms by (intro csr_of_rows_shape) auto
  ultimately show ?thesis unfolding csr_sorted_def csr_of_rows_sel by blast
qed

section \<open>Copying rows through write pointers\<close>

lemma row_part_append: "row_part keep f (xs @ ys) = row_part keep f xs @ row_part keep f ys"
  by (simp add: row_part_def)

lemma row_part_Nil: "row_part keep f [] = []"
  by (simp add: row_part_def)

lemma row_part_single: "row_part keep f [(c, v)] = (if keep c then [(f c, v)] else [])"
  by (simp add: row_part_def)

lemma row_part_take_le: "length (row_part keep f (take n r)) \<le> length (row_part keep f r)"
proof -
  have "row_part keep f r = row_part keep f (take n r) @ row_part keep f (drop n r)"
    by (metis append_take_drop_id row_part_append)
  then show ?thesis by simp
qed

lemma copy_row:
  fixes X :: "'a CSR"
  assumes wf: "csr_shape X" and s: "0 \<le> s" "s < nrows X"
    and t: "0 \<le> t" "nat t < length wp0"
    and lens: "length ind0 = T" "length dat0 = T"
    and a: "wp0 ! nat t = a" "0 \<le> a"
    and fits: "nat a + length (row_part keep f (csr_row X s)) \<le> T"
    and body_ok: "\<And>idx wp ind dat. indptr X ! nat s \<le> idx \<Longrightarrow> idx < indptr X ! nat (s + 1) \<Longrightarrow>
        length wp = length wp0 \<Longrightarrow> length ind = T \<Longrightarrow> length dat = T \<Longrightarrow>
        (keep (indices X ! nat idx) \<longrightarrow> 0 \<le> wp ! nat t \<and> wp ! nat t < int T) \<Longrightarrow>
        body idx (wp, ind, dat) = Inr (copy_step keep f X t idx (wp, ind, dat))"
  shows "\<exists>wp ind dat.
      for_each [indptr X ! nat s..indptr X ! nat (s + 1) - 1] body (wp0, ind0, dat0) = Inr (wp, ind, dat)
    \<and> wp = wp0[nat t := a + int (length (row_part keep f (csr_row X s)))]
    \<and> length ind = T \<and> length dat = T
    \<and> (\<forall>k < length (row_part keep f (csr_row X s)).
           ind ! (nat a + k) = fst (row_part keep f (csr_row X s) ! k)
         \<and> dat ! (nat a + k) = snd (row_part keep f (csr_row X s) ! k))
    \<and> (\<forall>q. q < nat a \<or> nat a + length (row_part keep f (csr_row X s)) \<le> q \<longrightarrow>
           ind ! q = ind0 ! q \<and> dat ! q = dat0 ! q)"
proof -
  let ?lo = "indptr X ! nat s" and ?hi = "indptr X ! nat (s + 1)"
  let ?src = "row_part keep f (csr_row X s)"
  define part where "part = (\<lambda>idx. row_part keep f (take (nat (idx - ?lo)) (csr_row X s)))"
  define I where "I = (\<lambda>idx (st :: int list \<times> int list \<times> 'a list).
     case st of (wp, ind, dat) \<Rightarrow>
       wp = wp0[nat t := a + int (length (part idx))]
     \<and> length ind = T \<and> length dat = T
     \<and> (\<forall>k < length (part idx). ind ! (nat a + k) = fst (part idx ! k) \<and> dat ! (nat a + k) = snd (part idx ! k))
     \<and> (\<forall>q. q < nat a \<or> nat a + length (part idx) \<le> q \<longrightarrow> ind ! q = ind0 ! q \<and> dat ! q = dat0 ! q))"
  note p = csr_shape_ptr[OF wf s] and l = csr_shape_lengths[OF wf]
  have part_le: "length (part idx) \<le> length ?src" for idx
    unfolding part_def by (rule row_part_take_le)
  have "\<exists>st. for_each [?lo..?hi - 1] body (wp0, ind0, dat0) = Inr st \<and> I ?hi st"
  proof (rule for_range_inv)
    show "?lo \<le> ?hi" by (rule p)
    have "wp0[nat t := a] = wp0" using a(1) by (metis list_update_id)
    then show "I ?lo (wp0, ind0, dat0)"
      using lens by (simp add: I_def part_def row_part_Nil)
  next
    fix idx and st :: "int list \<times> int list \<times> 'a list"
    assume idx: "?lo \<le> idx" "idx < ?hi" and inv: "I idx st"
    obtain wp ind dat where st: "st = (wp, ind, dat)" by (cases st)
    let ?c = "indices X ! nat idx" and ?v = "data X ! nat idx"
    let ?n = "length (part idx)"
    have wp: "wp = wp0[nat t := a + int ?n]" and li: "length ind = T" and ld: "length dat = T"
      and vals: "\<And>k. k < ?n \<Longrightarrow> ind ! (nat a + k) = fst (part idx ! k) \<and> dat ! (nat a + k) = snd (part idx ! k)"
      and rest: "\<And>q. q < nat a \<or> nat a + ?n \<le> q \<Longrightarrow> ind ! q = ind0 ! q \<and> dat ! q = dat0 ! q"
      using inv unfolding I_def st by auto
    have wpt: "wp ! nat t = a + int ?n" using wp t by simp
    have part': "part (idx + 1) = part idx @ (if keep ?c then [(f ?c, ?v)] else [])"
      unfolding part_def csr_row_take_Suc[OF wf s idx] row_part_append row_part_single by simp
    show "\<exists>s'. body idx st = Inr s' \<and> I (idx + 1) s'"
    proof (cases "keep ?c")
      case False
      have "body idx st = Inr st"
        unfolding st using body_ok[OF idx _ li ld] False wp by (simp add: copy_step_def)
      moreover have "I (idx + 1) st" using inv False part' unfolding I_def st by simp
      ultimately show ?thesis by blast
    next
      case True
      have "Suc ?n = length (part (idx + 1))" using part' True by simp
      then have n: "Suc ?n \<le> length ?src" using part_le[of "idx + 1"] by simp
      have dest: "0 \<le> a + int ?n" "a + int ?n < int T" using a n fits by auto
      have d: "nat (a + int ?n) = nat a + ?n" using a by (simp add: nat_add_distrib)
      let ?st' = "(wp[nat t := a + int ?n + 1], ind[nat a + ?n := f ?c], dat[nat a + ?n := ?v])"
      have "body idx st = Inr ?st'"
        unfolding st using body_ok[OF idx _ li ld] True wp wpt dest d by (simp add: copy_step_def)
      moreover have "I (idx + 1) ?st'"
        unfolding I_def
      proof (simp only: prod.case, intro conjI allI impI)
        show "wp[nat t := a + int ?n + 1] = wp0[nat t := a + int (length (part (idx + 1)))]"
          using wp part' True by (simp add: ac_simps)
        show "length (ind[nat a + ?n := f ?c]) = T" "length (dat[nat a + ?n := ?v]) = T"
          using li ld by simp_all
      next
        fix k assume k: "k < length (part (idx + 1))"
        show "ind[nat a + ?n := f ?c] ! (nat a + k) = fst (part (idx + 1) ! k)"
             "dat[nat a + ?n := ?v] ! (nat a + k) = snd (part (idx + 1) ! k)"
          using k vals[of k] part' True li ld dest d
          by (auto simp: nth_append nth_list_update less_Suc_eq)
      next
        fix q assume q: "q < nat a \<or> nat a + length (part (idx + 1)) \<le> q"
        then have "q \<noteq> nat a + ?n" "q < nat a \<or> nat a + ?n \<le> q" using part' True by auto
        then show "ind[nat a + ?n := f ?c] ! q = ind0 ! q" "dat[nat a + ?n := ?v] ! q = dat0 ! q"
          using rest[of q] by simp_all
      qed
      ultimately show ?thesis by blast
    qed
  qed
  moreover have "part ?hi = ?src"
    by (simp add: part_def csr_row_length[OF wf s])
  ultimately show ?thesis unfolding I_def by auto
qed

lemma row_offsets_slices_disjoint:
  assumes "t \<noteq> t'" "t < length rs" "t' < length rs" "k < length (rs ! t')"
  shows "nat (row_offsets rs ! t') + k < nat (row_offsets rs ! t)
       \<or> nat (row_offsets rs ! t) + length (rs ! t) \<le> nat (row_offsets rs ! t') + k"
proof (cases "t' < t")
  case True
  then have "row_offsets rs ! Suc t' \<le> row_offsets rs ! t"
    using assms by (intro row_offsets_mono) auto
  then have "row_offsets rs ! t' + int (length (rs ! t')) \<le> row_offsets rs ! t"
    using row_offsets_Suc[OF assms(3)] by simp
  moreover have "0 \<le> row_offsets rs ! t'" using assms by (simp add: row_offsets_nth)
  ultimately show ?thesis using assms(4) by linarith
next
  case False
  then have "Suc t \<le> t'" using assms by simp
  then have "row_offsets rs ! Suc t \<le> row_offsets rs ! t'"
    using assms by (intro row_offsets_mono) auto
  then have "row_offsets rs ! t + int (length (rs ! t)) \<le> row_offsets rs ! t'"
    using row_offsets_Suc[OF assms(2)] by simp
  moreover have "0 \<le> row_offsets rs ! t" using assms by (simp add: row_offsets_nth)
  ultimately show ?thesis by linarith
qed

lemma row_offsets_slice_fits:
  assumes "t < length rs"
  shows "nat (row_offsets rs ! t) + length (rs ! t) \<le> length (concat rs)" "0 \<le> row_offsets rs ! t"
proof -
  have "row_offsets rs ! Suc t \<le> row_offsets rs ! length rs"
    using assms by (intro row_offsets_mono) auto
  then have "row_offsets rs ! t + int (length (rs ! t)) \<le> int (length (concat rs))"
    using row_offsets_Suc[OF assms] by (simp add: row_offsets_last)
  moreover show "0 \<le> row_offsets rs ! t" using assms by (simp add: row_offsets_nth)
  ultimately show "nat (row_offsets rs ! t) + length (rs ! t) \<le> length (concat rs)" by linarith
qed

lemma copy_rows:
  fixes X :: "'a CSR" and rs :: "(int \<times> 'a) list list"
  assumes wf: "csr_shape X" and lh: "lo \<le> hi"
    and src: "\<And>i. lo \<le> i \<Longrightarrow> i < hi \<Longrightarrow> 0 \<le> s i \<and> s i < nrows X \<and> 0 \<le> t i \<and> nat (t i) < length rs
                \<and> row_part keep f (csr_row X (s i)) = rs ! nat (t i)"
    and inj: "\<And>i i'. lo \<le> i \<Longrightarrow> i < hi \<Longrightarrow> lo \<le> i' \<Longrightarrow> i' < hi \<Longrightarrow> t i = t i' \<Longrightarrow> i = i'"
    and lens: "length ind0 = length (concat rs)" "length dat0 = length (concat rs)"
    and outer_ok: "\<And>i st. lo \<le> i \<Longrightarrow> i < hi \<Longrightarrow>
        outer i st = for_each [indptr X ! nat (s i)..indptr X ! nat (s i + 1) - 1] (inner i) st"
    and inner_ok: "\<And>i idx wp ind dat. lo \<le> i \<Longrightarrow> i < hi \<Longrightarrow>
        indptr X ! nat (s i) \<le> idx \<Longrightarrow> idx < indptr X ! nat (s i + 1) \<Longrightarrow>
        length wp = Suc (length rs) \<Longrightarrow> length ind = length (concat rs) \<Longrightarrow> length dat = length (concat rs) \<Longrightarrow>
        (keep (indices X ! nat idx) \<longrightarrow> 0 \<le> wp ! nat (t i) \<and> wp ! nat (t i) < int (length (concat rs))) \<Longrightarrow>
        inner i idx (wp, ind, dat) = Inr (copy_step keep f X (t i) idx (wp, ind, dat))"
  shows "\<exists>wp ind dat.
      for_each [lo..hi - 1] outer (row_offsets rs, ind0, dat0) = Inr (wp, ind, dat)
    \<and> length ind = length (concat rs) \<and> length dat = length (concat rs)
    \<and> (\<forall>i. lo \<le> i \<and> i < hi \<longrightarrow>
          (\<forall>k < length (rs ! nat (t i)).
              ind ! (nat (row_offsets rs ! nat (t i)) + k) = fst (rs ! nat (t i) ! k)
            \<and> dat ! (nat (row_offsets rs ! nat (t i)) + k) = snd (rs ! nat (t i) ! k)))"
proof -
  let ?T = "length (concat rs)"
  let ?offs = "row_offsets rs"
  define J where "J = (\<lambda>i (st :: int list \<times> int list \<times> 'a list).
     case st of (wp, ind, dat) \<Rightarrow>
       length wp = Suc (length rs) \<and> length ind = ?T \<and> length dat = ?T
     \<and> (\<forall>i'. lo \<le> i' \<and> i' < i \<longrightarrow>
          (\<forall>k < length (rs ! nat (t i')).
              ind ! (nat (?offs ! nat (t i')) + k) = fst (rs ! nat (t i') ! k)
            \<and> dat ! (nat (?offs ! nat (t i')) + k) = snd (rs ! nat (t i') ! k)))
     \<and> (\<forall>k < length rs. (\<forall>i'. lo \<le> i' \<and> i' < i \<longrightarrow> t i' \<noteq> int k) \<longrightarrow> wp ! k = ?offs ! k))"
  have "\<exists>st. for_each [lo..hi - 1] outer (?offs, ind0, dat0) = Inr st \<and> J hi st"
  proof (rule for_range_inv)
    show "lo \<le> hi" by fact
    show "J lo (?offs, ind0, dat0)" using lens by (auto simp: J_def)
  next
    fix i and st :: "int list \<times> int list \<times> 'a list"
    assume i: "lo \<le> i" "i < hi" and inv: "J i st"
    obtain wp ind dat where st: "st = (wp, ind, dat)" by (cases st)
    have lw: "length wp = Suc (length rs)" and li: "length ind = ?T" and ld: "length dat = ?T"
      and prev: "\<And>i' k. lo \<le> i' \<Longrightarrow> i' < i \<Longrightarrow> k < length (rs ! nat (t i')) \<Longrightarrow>
              ind ! (nat (?offs ! nat (t i')) + k) = fst (rs ! nat (t i') ! k)
            \<and> dat ! (nat (?offs ! nat (t i')) + k) = snd (rs ! nat (t i') ! k)"
      and todo: "\<And>k. k < length rs \<Longrightarrow> (\<forall>i'. lo \<le> i' \<and> i' < i \<longrightarrow> t i' \<noteq> int k) \<Longrightarrow> wp ! k = ?offs ! k"
      using inv unfolding J_def st by auto
    from src[OF i] have si: "0 \<le> s i" "s i < nrows X" and ti: "0 \<le> t i" "nat (t i) < length rs"
      and row: "row_part keep f (csr_row X (s i)) = rs ! nat (t i)" by auto
    have fresh: "\<forall>i'. lo \<le> i' \<and> i' < i \<longrightarrow> t i' \<noteq> int (nat (t i))"
    proof (intro allI impI)
      fix i' assume i': "lo \<le> i' \<and> i' < i"
      then have "t i' \<noteq> t i" using inj[of i' i] i by force
      then show "t i' \<noteq> int (nat (t i))" using ti by simp
    qed
    have a: "wp ! nat (t i) = ?offs ! nat (t i)" by (rule todo[OF ti(2) fresh])
    note fit = row_offsets_slice_fits[OF ti(2)]
    have "\<exists>wp' ind' dat'.
      for_each [indptr X ! nat (s i)..indptr X ! nat (s i + 1) - 1] (inner i) (wp, ind, dat) = Inr (wp', ind', dat')
    \<and> wp' = wp[nat (t i) := ?offs ! nat (t i) + int (length (row_part keep f (csr_row X (s i))))]
    \<and> length ind' = ?T \<and> length dat' = ?T
    \<and> (\<forall>k < length (row_part keep f (csr_row X (s i))).
           ind' ! (nat (?offs ! nat (t i)) + k) = fst (row_part keep f (csr_row X (s i)) ! k)
         \<and> dat' ! (nat (?offs ! nat (t i)) + k) = snd (row_part keep f (csr_row X (s i)) ! k))
    \<and> (\<forall>q. q < nat (?offs ! nat (t i)) \<or> nat (?offs ! nat (t i)) + length (row_part keep f (csr_row X (s i))) \<le> q \<longrightarrow>
           ind' ! q = ind ! q \<and> dat' ! q = dat ! q)"
    proof (rule copy_row[OF wf si ti(1) _ li ld a fit(2)])
      show "nat (t i) < length wp" using lw ti by simp
      show "nat (?offs ! nat (t i)) + length (row_part keep f (csr_row X (s i))) \<le> ?T"
        using fit(1) row by simp
    next
      fix idx and wp' ind' :: "int list" and dat' :: "'a list"
      assume "indptr X ! nat (s i) \<le> idx" "idx < indptr X ! nat (s i + 1)"
        "length wp' = length wp" "length ind' = ?T" "length dat' = ?T"
        "keep (indices X ! nat idx) \<longrightarrow> 0 \<le> wp' ! nat (t i) \<and> wp' ! nat (t i) < int ?T"
      then show "inner i idx (wp', ind', dat') = Inr (copy_step keep f X (t i) idx (wp', ind', dat'))"
        using inner_ok[OF i, of idx wp' ind' dat'] lw by simp
    qed
    then obtain wp' ind' dat' where
      run: "for_each [indptr X ! nat (s i)..indptr X ! nat (s i + 1) - 1] (inner i) (wp, ind, dat) = Inr (wp', ind', dat')"
      and wp': "wp' = wp[nat (t i) := ?offs ! nat (t i) + int (length (rs ! nat (t i)))]"
      and l': "length ind' = ?T" "length dat' = ?T"
      and new: "\<And>k. k < length (rs ! nat (t i)) \<Longrightarrow>
           ind' ! (nat (?offs ! nat (t i)) + k) = fst (rs ! nat (t i) ! k)
         \<and> dat' ! (nat (?offs ! nat (t i)) + k) = snd (rs ! nat (t i) ! k)"
      and old: "\<And>q. q < nat (?offs ! nat (t i)) \<or> nat (?offs ! nat (t i)) + length (rs ! nat (t i)) \<le> q \<Longrightarrow>
           ind' ! q = ind ! q \<and> dat' ! q = dat ! q"
      unfolding row by blast
    have "J (i + 1) (wp', ind', dat')"
      unfolding J_def
    proof (simp only: prod.case, intro conjI allI impI)
      show "length wp' = Suc (length rs)" using wp' lw by simp
      show "length ind' = ?T" "length dat' = ?T" using l' by simp_all
    next
      fix i' k assume i': "lo \<le> i' \<and> i' < i + 1" and k: "k < length (rs ! nat (t i'))"
      show "ind' ! (nat (?offs ! nat (t i')) + k) = fst (rs ! nat (t i') ! k)"
           "dat' ! (nat (?offs ! nat (t i')) + k) = snd (rs ! nat (t i') ! k)"
      proof -
        have "ind' ! (nat (?offs ! nat (t i')) + k) = fst (rs ! nat (t i') ! k)
            \<and> dat' ! (nat (?offs ! nat (t i')) + k) = snd (rs ! nat (t i') ! k)"
        proof (cases "i' = i")
          case True
          then show ?thesis using new[of k] k by simp
        next
          case False
          then have i'': "lo \<le> i'" "i' < i" "i' < hi" using i' i by auto
          from src[OF i''(1,3)] have ti': "0 \<le> t i'" "nat (t i') < length rs" by auto
          have "t i \<noteq> t i'" using inj[OF i i''(1,3)] False by auto
          then have "nat (t i) \<noteq> nat (t i')" using ti ti' by simp
          from row_offsets_slices_disjoint[OF this ti(2) ti'(2) k]
          have "ind' ! (nat (?offs ! nat (t i')) + k) = ind ! (nat (?offs ! nat (t i')) + k)
              \<and> dat' ! (nat (?offs ! nat (t i')) + k) = dat ! (nat (?offs ! nat (t i')) + k)"
            by (rule old)
          then show ?thesis using prev[OF i''(1,2) k] by simp
        qed
        then show "ind' ! (nat (?offs ! nat (t i')) + k) = fst (rs ! nat (t i') ! k)"
             "dat' ! (nat (?offs ! nat (t i')) + k) = snd (rs ! nat (t i') ! k)" by simp_all
      qed
    next
      fix k assume k: "k < length rs" and un: "\<forall>i'. lo \<le> i' \<and> i' < i + 1 \<longrightarrow> t i' \<noteq> int k"
      then have "t i \<noteq> int k" using i by auto
      then have "nat (t i) \<noteq> k" using ti by auto
      then have "wp' ! k = wp ! k" using wp' by simp
      moreover have "wp ! k = ?offs ! k" using todo[OF k] un by auto
      ultimately show "wp' ! k = ?offs ! k" by simp
    qed
    then show "\<exists>s'. outer i st = Inr s' \<and> J (i + 1) s'"
      using outer_ok[OF i, of st] run st by simp
  qed
  then show ?thesis unfolding J_def by auto
qed

lemma concat_eqI:
  assumes "length z = length (concat rs)"
    and "\<And>t k. t < length rs \<Longrightarrow> k < length (rs ! t) \<Longrightarrow> z ! (length (concat (take t rs)) + k) = rs ! t ! k"
  shows "z = concat rs"
  using assms
proof (induction rs arbitrary: z rule: rev_induct)
  case Nil
  then show ?case by simp
next
  case (snoc r rs)
  let ?L = "length (concat rs)"
  have lz: "length z = ?L + length r" using snoc.prems(1) by simp
  have "take ?L z = concat rs"
  proof (rule snoc.IH)
    show "length (take ?L z) = ?L" using lz by simp
  next
    fix t k assume t: "t < length rs" and k: "k < length (rs ! t)"
    have "rs = take t rs @ rs ! t # drop (Suc t) rs" using t by (simp add: id_take_nth_drop)
    then have "concat rs = concat (take t rs) @ rs ! t @ concat (drop (Suc t) rs)"
      by (metis concat.simps(2) concat_append)
    then have "length (concat (take t rs)) + length (rs ! t) \<le> ?L"
      by (metis length_append le_add1 add.assoc)
    then have "length (concat (take t rs)) + k < ?L" using k by simp
    then have "take ?L z ! (length (concat (take t rs)) + k) = z ! (length (concat (take t rs)) + k)"
      by simp
    also have "\<dots> = (rs @ [r]) ! t ! k"
      using snoc.prems(2)[of t k] t k by (simp add: nth_append)
    finally show "take ?L z ! (length (concat (take t rs)) + k) = rs ! t ! k"
      using t by (simp add: nth_append)
  qed
  moreover have "drop ?L z = r"
  proof (rule nth_equalityI)
    show "length (drop ?L z) = length r" using lz by simp
  next
    fix k assume "k < length (drop ?L z)"
    then have k: "k < length r" using lz by simp
    have "z ! (length (concat (take (length rs) (rs @ [r]))) + k) = (rs @ [r]) ! length rs ! k"
      by (rule snoc.prems(2)) (use k in auto)
    then show "drop ?L z ! k = r ! k" using lz k by simp
  qed
  ultimately have "z = concat rs @ r" by (metis append_take_drop_id)
  then show ?case by simp
qed

lemma vectors_of_slices:
  fixes rs :: "(int \<times> 'a) list list"
  assumes li: "length ind = length (concat rs)" and ld: "length dat = length (concat rs)"
    and sl: "\<And>t k. t < length rs \<Longrightarrow> k < length (rs ! t) \<Longrightarrow>
        ind ! (nat (row_offsets rs ! t) + k) = fst (rs ! t ! k)
      \<and> dat ! (nat (row_offsets rs ! t) + k) = snd (rs ! t ! k)"
  shows "ind = map fst (concat rs)" "dat = map snd (concat rs)"
proof -
  have "zip ind dat = concat rs"
  proof (rule concat_eqI)
    show "length (zip ind dat) = length (concat rs)" using li ld by simp
  next
    fix t k assume t: "t < length rs" and k: "k < length (rs ! t)"
    have o: "nat (row_offsets rs ! t) = length (concat (take t rs))"
      using t by (simp add: row_offsets_nth)
    have "length (concat (take t rs)) + k < length (concat rs)"
      using row_offsets_slice_fits(1)[OF t] k o by simp
    then show "zip ind dat ! (length (concat (take t rs)) + k) = rs ! t ! k"
      using sl[OF t k] li ld o by (simp add: prod_eq_iff)
  qed
  then show "ind = map fst (concat rs)" "dat = map snd (concat rs)"
    using li ld by (metis map_fst_zip, metis map_snd_zip)
qed

section \<open>Sorting every row\<close>

lemma holds_rows_vectors:
  assumes "holds_rows ind dat rs"
  shows "ind = map fst (concat rs)" "dat = map snd (concat rs)"
  using vectors_of_slices[of ind rs dat] assms unfolding holds_rows_def by blast+

lemma concat_nth_slice:
  assumes "t < length rs" "k < length (rs ! t)"
  shows "concat rs ! (length (concat (take t rs)) + k) = rs ! t ! k"
proof -
  have "rs = take t rs @ rs ! t # drop (Suc t) rs" using assms by (simp add: id_take_nth_drop)
  then have "concat rs = concat (take t rs) @ rs ! t @ concat (drop (Suc t) rs)"
    by (metis concat.simps(2) concat_append)
  then show ?thesis using assms by (simp add: nth_append)
qed

lemma holds_rows_concat: "holds_rows (map fst (concat rs)) (map snd (concat rs)) rs"
  unfolding holds_rows_def
proof (intro conjI allI impI)
  fix t k assume t: "t < length rs" and k: "k < length (rs ! t)"
  have o: "nat (row_offsets rs ! t) = length (concat (take t rs))"
    using t by (simp add: row_offsets_nth)
  have b: "length (concat (take t rs)) + k < length (concat rs)"
    using row_offsets_slice_fits(1)[OF t] k o by simp
  show "map fst (concat rs) ! (nat (row_offsets rs ! t) + k) = fst (rs ! t ! k)"
       "map snd (concat rs) ! (nat (row_offsets rs ! t) + k) = snd (rs ! t ! k)"
    using b concat_nth_slice[OF t k] by (simp_all add: o)
qed simp_all

lemma read_row:
  fixes rs :: "(int \<times> 'a) list list"
  assumes h: "holds_rows ind dat rs" and t: "t < length rs"
  shows "for_each [row_offsets rs ! t..row_offsets rs ! Suc t - 1] (\<lambda>idx row_data.
               rbind (vget ind idx) (\<lambda>c.
               rbind (vget dat idx) (\<lambda>v. Inr (row_data @ [(c, v)])))) [] = Inr (rs ! t)"
proof -
  let ?a = "row_offsets rs ! t" and ?b = "row_offsets rs ! Suc t"
  let ?body = "\<lambda>idx row_data.
               rbind (vget ind idx) (\<lambda>c.
               rbind (vget dat idx) (\<lambda>v. Inr (row_data @ [(c, v)])))"
  note fit = row_offsets_slice_fits[OF t]
  have ab: "?b = ?a + int (length (rs ! t))" by (rule row_offsets_Suc[OF t])
  have li: "length ind = length (concat rs)" and ld: "length dat = length (concat rs)"
    using h by (auto simp: holds_rows_def)
  have "\<exists>rd. for_each [?a..?b - 1] ?body [] = Inr rd \<and> rd = take (nat (?b - ?a)) (rs ! t)"
  proof (rule for_range_inv[where I = "\<lambda>idx rd. rd = take (nat (idx - ?a)) (rs ! t)"])
    show "?a \<le> ?b" using ab by simp
    show "[] = take (nat (?a - ?a)) (rs ! t)" by simp
  next
    fix idx and rd :: "(int \<times> 'a) list"
    assume idx: "?a \<le> idx" "idx < ?b" and rd: "rd = take (nat (idx - ?a)) (rs ! t)"
    let ?k = "nat (idx - ?a)"
    have k: "?k < length (rs ! t)" using idx ab by auto
    have pos: "nat idx = nat ?a + ?k" using idx fit(2) by auto
    have inb: "0 \<le> idx" "idx < int (length (concat rs))" using idx fit ab by auto
    have v: "ind ! nat idx = fst (rs ! t ! ?k)" "dat ! nat idx = snd (rs ! t ! ?k)"
      using h t k unfolding holds_rows_def pos by auto
    have "take (nat (idx + 1 - ?a)) (rs ! t) = take ?k (rs ! t) @ [rs ! t ! ?k]"
    proof -
      have "nat (idx + 1 - ?a) = Suc ?k" using idx by auto
      then show ?thesis using k by (simp add: take_Suc_conv_app_nth)
    qed
    then show "\<exists>s'. ?body idx rd = Inr s' \<and> s' = take (nat (idx + 1 - ?a)) (rs ! t)"
      using inb li ld v rd by (simp add: vget_ok)
  qed
  then show ?thesis using ab by simp
qed

lemma write_row:
  fixes new :: "(int \<times> 'a) list"
  assumes a: "0 \<le> a" and fit: "nat a + length new \<le> T"
    and len: "length ind0 = T" "length dat0 = T"
  shows "\<exists>ind dat. for_each [0..int (length new) - 1] (\<lambda>k (ind, dat).
                    rbind (vget new k) (\<lambda>e.
                    rbind (vset ind (a + k) (fst e)) (\<lambda>ind.
                    rbind (vset dat (a + k) (snd e)) (\<lambda>dat. Inr (ind, dat)))))
                    (ind0, dat0) = Inr (ind, dat)
      \<and> length ind = T \<and> length dat = T
      \<and> (\<forall>k < length new. ind ! (nat a + k) = fst (new ! k) \<and> dat ! (nat a + k) = snd (new ! k))
      \<and> (\<forall>q. q < nat a \<or> nat a + length new \<le> q \<longrightarrow> ind ! q = ind0 ! q \<and> dat ! q = dat0 ! q)"
proof -
  let ?body = "\<lambda>k (ind, dat).
                    rbind (vget new k) (\<lambda>e.
                    rbind (vset ind (a + k) (fst e)) (\<lambda>ind.
                    rbind (vset dat (a + k) (snd e)) (\<lambda>dat. Inr (ind, dat))))"
  define I where "I = (\<lambda>n (st :: int list \<times> 'a list).
     case st of (ind, dat) \<Rightarrow> length ind = T \<and> length dat = T
      \<and> (\<forall>k < nat n. ind ! (nat a + k) = fst (new ! k) \<and> dat ! (nat a + k) = snd (new ! k))
      \<and> (\<forall>q. q < nat a \<or> nat a + nat n \<le> q \<longrightarrow> ind ! q = ind0 ! q \<and> dat ! q = dat0 ! q))"
  have "\<exists>st. for_each [0..int (length new) - 1] ?body (ind0, dat0) = Inr st \<and> I (int (length new)) st"
  proof (rule for_range_inv)
    show "0 \<le> int (length new)" by simp
    show "I 0 (ind0, dat0)" using len by (simp add: I_def)
  next
    fix n and st :: "int list \<times> 'a list"
    assume n: "0 \<le> n" "n < int (length new)" and inv: "I n st"
    obtain ind dat where st: "st = (ind, dat)" by (cases st)
    have li: "length ind = T" and ld: "length dat = T"
      and vals: "\<And>k. k < nat n \<Longrightarrow> ind ! (nat a + k) = fst (new ! k) \<and> dat ! (nat a + k) = snd (new ! k)"
      and rest: "\<And>q. q < nat a \<or> nat a + nat n \<le> q \<Longrightarrow> ind ! q = ind0 ! q \<and> dat ! q = dat0 ! q"
      using inv unfolding I_def st by auto
    have pos: "nat (a + n) = nat a + nat n" "0 \<le> a + n" "a + n < int T"
      using a n fit by auto
    let ?st' = "(ind[nat a + nat n := fst (new ! nat n)], dat[nat a + nat n := snd (new ! nat n)])"
    have "?body n st = Inr ?st'"
      unfolding st using n pos li ld by (simp add: vget_ok vset_ok)
    moreover have "I (n + 1) ?st'"
      unfolding I_def
    proof (simp only: prod.case, intro conjI allI impI)
      show "length (ind[nat a + nat n := fst (new ! nat n)]) = T"
           "length (dat[nat a + nat n := snd (new ! nat n)]) = T" using li ld by simp_all
    next
      fix k assume k: "k < nat (n + 1)"
      have b: "nat a + nat n < T" using pos by linarith
      show "ind[nat a + nat n := fst (new ! nat n)] ! (nat a + k) = fst (new ! k)"
           "dat[nat a + nat n := snd (new ! nat n)] ! (nat a + k) = snd (new ! k)"
        using k n vals[of k] li ld b by (auto simp: nth_list_update nat_add_distrib less_Suc_eq)
    next
      fix q assume q: "q < nat a \<or> nat a + nat (n + 1) \<le> q"
      then have "q \<noteq> nat a + nat n" "q < nat a \<or> nat a + nat n \<le> q" using n by auto
      then show "ind[nat a + nat n := fst (new ! nat n)] ! q = ind0 ! q"
                "dat[nat a + nat n := snd (new ! nat n)] ! q = dat0 ! q"
        using rest[of q] by simp_all
    qed
    ultimately show "\<exists>s'. ?body n st = Inr s' \<and> I (n + 1) s'" by blast
  qed
  then show ?thesis unfolding I_def by auto
qed

lemma std_sort_length:
  "std_sort_spec srt \<Longrightarrow> strict_weak_order cmp \<Longrightarrow> length (srt cmp xs) = length xs"
  by (metis std_sort_mset size_mset)

lemma sort_each_row_ok:
  fixes rs :: "(int \<times> 'a) list list"
  assumes srt: "std_sort_spec srt" and h: "holds_rows ind dat rs" and n: "n = int (length rs)"
  shows "\<exists>ind' dat'. sort_each_row srt n (row_offsets rs) (ind, dat) = Inr (ind', dat')
          \<and> holds_rows ind' dat' (map (srt (\<lambda>a b. fst a < fst b)) rs)"
proof -
  let ?cmp = "\<lambda>(a :: int \<times> 'a) b. fst a < fst b"
  let ?offs = "row_offsets rs"
  let ?T = "length (concat rs)"
  let ?body = "\<lambda>i (ind, dat).
      rbind (vget ?offs i) (\<lambda>start.
      rbind (vget ?offs (i + 1)) (\<lambda>end.
        if end - start < 0 then Inl Length_error
        else
          rbind
            (for_each [start..end - 1] (\<lambda>idx row_data.
               rbind (vget ind idx) (\<lambda>c.
               rbind (vget dat idx) (\<lambda>v. Inr (row_data @ [(c, v)])))) [])
            (\<lambda>row_data.
               let sorted_row = srt ?cmp row_data
               in for_each [0..int (length sorted_row) - 1] (\<lambda>k (ind, dat).
                    rbind (vget sorted_row k) (\<lambda>e.
                    rbind (vset ind (start + k) (fst e)) (\<lambda>ind.
                    rbind (vset dat (start + k) (snd e)) (\<lambda>dat. Inr (ind, dat)))))
                    (ind, dat))))"
  define cur where "cur = (\<lambda>i. map (srt ?cmp) (take (nat i) rs) @ drop (nat i) rs)"
  have swo: "strict_weak_order ?cmp" by (rule swo_key_less)
  have sl: "length (srt ?cmp r) = length r" for r by (rule std_sort_length[OF srt swo])
  have cur_len: "length (cur i) = length rs" for i by (simp add: cur_def)
  have cur_lens: "map length (cur i) = map length rs" for i
  proof -
    have "map length (cur i) = map length (take (nat i) rs) @ map length (drop (nat i) rs)"
      by (simp add: cur_def sl comp_def)
    then show ?thesis by (metis append_take_drop_id map_append)
  qed
  have cur_offs: "row_offsets (cur i) = ?offs" for i by (rule row_offsets_cong[OF cur_lens])
  have cur_T: "length (concat (cur i)) = ?T" for i
    using cur_lens[of i] by (simp add: length_concat)
  have cur_nth: "cur i ! t = (if t < nat i then srt ?cmp (rs ! t) else rs ! t)" if "t < length rs" for i t
    using that by (auto simp: cur_def nth_append)
  define I where "I = (\<lambda>i (st :: int list \<times> 'a list). case st of (ind, dat) \<Rightarrow> holds_rows ind dat (cur i))"
  have "\<exists>st. for_each [0..n - 1] ?body (ind, dat) = Inr st \<and> I n st"
  proof (rule for_range_inv)
    show "0 \<le> n" using n by simp
    show "I 0 (ind, dat)" using h by (simp add: I_def cur_def)
  next
    fix i and st :: "int list \<times> 'a list"
    assume i: "0 \<le> i" "i < n" and inv: "I i st"
    obtain ind1 dat1 where st: "st = (ind1, dat1)" by (cases st)
    have h1: "holds_rows ind1 dat1 (cur i)" using inv by (simp add: I_def st)
    have t: "nat i < length rs" using i n by auto
    have t': "nat i < length (cur i)" using t cur_len by simp
    have li: "length ind1 = ?T" and ld: "length dat1 = ?T"
      using h1 cur_T by (auto simp: holds_rows_def)
    have row_i: "cur i ! nat i = rs ! nat i" using cur_nth[OF t, of i] by simp
    note fit = row_offsets_slice_fits[OF t]
    have ab: "?offs ! Suc (nat i) = ?offs ! nat i + int (length (rs ! nat i))"
      by (rule row_offsets_Suc[OF t])
    have rd: "for_each [?offs ! nat i..?offs ! Suc (nat i) - 1] (\<lambda>idx row_data.
               rbind (vget ind1 idx) (\<lambda>c.
               rbind (vget dat1 idx) (\<lambda>v. Inr (row_data @ [(c, v)])))) [] = Inr (rs ! nat i)"
      using read_row[OF h1 t'] unfolding cur_offs row_i .
    let ?new = "srt ?cmp (rs ! nat i)"
    from write_row[of "?offs ! nat i" ?new ?T ind1 dat1] fit li ld sl
    obtain ind2 dat2 where
      wr: "for_each [0..int (length ?new) - 1] (\<lambda>k (ind, dat).
                    rbind (vget ?new k) (\<lambda>e.
                    rbind (vset ind (?offs ! nat i + k) (fst e)) (\<lambda>ind.
                    rbind (vset dat (?offs ! nat i + k) (snd e)) (\<lambda>dat. Inr (ind, dat)))))
                    (ind1, dat1) = Inr (ind2, dat2)"
      and l2: "length ind2 = ?T" "length dat2 = ?T"
      and new: "\<And>k. k < length (rs ! nat i) \<Longrightarrow>
           ind2 ! (nat (?offs ! nat i) + k) = fst (?new ! k) \<and> dat2 ! (nat (?offs ! nat i) + k) = snd (?new ! k)"
      and old: "\<And>q. q < nat (?offs ! nat i) \<or> nat (?offs ! nat i) + length (rs ! nat i) \<le> q \<Longrightarrow>
           ind2 ! q = ind1 ! q \<and> dat2 ! q = dat1 ! q"
      by (auto simp: sl)
    have s1: "nat (i + 1) = Suc (nat i)" using i by simp
    have body: "?body i st = Inr (ind2, dat2)"
      unfolding st using i n t rd wr ab s1 by (simp add: vget_ok Let_def)
    have "holds_rows ind2 dat2 (cur (i + 1))"
      unfolding holds_rows_def cur_T cur_offs cur_len
    proof (intro conjI allI impI)
      show "length ind2 = ?T" "length dat2 = ?T" using l2 by simp_all
    next
      fix t' k assume t2: "t' < length rs" and k: "k < length (cur (i + 1) ! t')"
      have kl: "k < length (rs ! t')" using k cur_nth[OF t2, of "i + 1"] sl by (simp split: if_splits)
      have "ind2 ! (nat (?offs ! t') + k) = fst (cur (i + 1) ! t' ! k)
          \<and> dat2 ! (nat (?offs ! t') + k) = snd (cur (i + 1) ! t' ! k)"
      proof (cases "t' = nat i")
        case True
        then show ?thesis using new[of k] kl cur_nth[OF t2, of "i + 1"] s1 by simp
      next
        case False
        then have "nat i \<noteq> t'" by simp
        from row_offsets_slices_disjoint[OF this t t2 kl]
        have "ind2 ! (nat (?offs ! t') + k) = ind1 ! (nat (?offs ! t') + k)
            \<and> dat2 ! (nat (?offs ! t') + k) = dat1 ! (nat (?offs ! t') + k)"
          by (rule old)
        moreover have "cur (i + 1) ! t' = cur i ! t'"
          using False cur_nth[OF t2, of "i + 1"] cur_nth[OF t2, of i] s1 by auto
        moreover have "k < length (cur i ! t')" using kl cur_nth[OF t2, of i] sl by simp
        ultimately show ?thesis
          using h1 t2 unfolding holds_rows_def cur_offs cur_len by simp
      qed
      then show "ind2 ! (nat (?offs ! t') + k) = fst (cur (i + 1) ! t' ! k)"
                "dat2 ! (nat (?offs ! t') + k) = snd (cur (i + 1) ! t' ! k)" by simp_all
    qed
    then show "\<exists>s'. ?body i st = Inr s' \<and> I (i + 1) s'" using body by (simp add: I_def)
  qed
  moreover have "cur n = map (srt ?cmp) rs" using n by (simp add: cur_def)
  ultimately show ?thesis unfolding sort_each_row_def I_def by auto
qed

section \<open>Permuting the rows of a matrix\<close>

lemma row_part_id: "row_part (\<lambda>_. True) (\<lambda>c. c) r = r"
  by (simp add: row_part_def)

lemma holds_rowsI:
  assumes "length ind = length (concat rs)" "length dat = length (concat rs)"
    "\<And>t k. t < length rs \<Longrightarrow> k < length (rs ! t) \<Longrightarrow>
        ind ! (nat (row_offsets rs ! t) + k) = fst (rs ! t ! k) \<and>
        dat ! (nat (row_offsets rs ! t) + k) = snd (rs ! t ! k)"
  shows "holds_rows ind dat rs"
  using assms unfolding holds_rows_def by blast

lemma csr_total_length:
  assumes wf: "csr_shape X"
  shows "length (concat (map (csr_row X) [0..nrows X - 1])) = CSR.nnz X"
  using csr_rows_concat[OF wf] csr_shape_lengths[OF wf] by simp

lemma permuted_total_length:
  assumes wf: "csr_shape X" and p: "is_perm (nrows X) p"
  shows "length (concat (map (\<lambda>i. csr_row X (p ! nat i)) [0..nrows X - 1])) = CSR.nnz X"
proof -
  have "length (concat (map (\<lambda>i. csr_row X (p ! nat i)) [0..nrows X - 1]))
      = (\<Sum>i \<leftarrow> [0..nrows X - 1]. length (csr_row X (p ! nat i)))"
    by (simp add: length_concat comp_def)
  also have "\<dots> = (\<Sum>r \<leftarrow> [0..nrows X - 1]. length (csr_row X r))"
    by (rule is_perm_sum[OF p csr_shape_lengths(4)[OF wf]])
  also have "\<dots> = length (concat (map (csr_row X) [0..nrows X - 1]))"
    by (simp add: length_concat comp_def)
  finally show ?thesis using csr_total_length[OF wf] by simp
qed

lemma prefix_sum_pass:
  fixes rs :: "'e list list"
  assumes n: "n = int (length rs)"
    and body: "\<And>i ptr. 0 \<le> i \<Longrightarrow> i < n \<Longrightarrow> length ptr = Suc (length rs) \<Longrightarrow>
        body i ptr = Inr (ptr[Suc (nat i) := ptr ! nat i + int (length (rs ! nat i))])"
  shows "for_each [0..n - 1] body (replicate (nat (n + 1)) 0) = Inr (row_offsets rs)"
proof -
  let ?offs = "row_offsets rs"
  define I where "I = (\<lambda>i (ptr :: int list). length ptr = Suc (length rs)
      \<and> (\<forall>k \<le> nat i. ptr ! k = ?offs ! k) \<and> (\<forall>k. nat i < k \<and> k \<le> length rs \<longrightarrow> ptr ! k = 0))"
  have "\<exists>ptr. for_each [0..n - 1] body (replicate (nat (n + 1)) 0) = Inr ptr \<and> I n ptr"
  proof (rule for_range_inv)
    show "0 \<le> n" using n by simp
    show "I 0 (replicate (nat (n + 1)) 0)" using n by (auto simp: I_def row_offsets_0 nat_add_distrib)
  next
    fix i and ptr :: "int list" assume i: "0 \<le> i" "i < n" and inv: "I i ptr"
    have lp: "length ptr = Suc (length rs)" using inv by (simp add: I_def)
    have t: "nat i < length rs" using i n by auto
    have pi: "ptr ! nat i = ?offs ! nat i" using inv by (simp add: I_def)
    let ?ptr' = "ptr[Suc (nat i) := ptr ! nat i + int (length (rs ! nat i))]"
    have "I (i + 1) ?ptr'"
      unfolding I_def
    proof (intro conjI allI impI)
      show "length ?ptr' = Suc (length rs)" using lp by simp
    next
      fix k assume k: "k \<le> nat (i + 1)"
      show "?ptr' ! k = ?offs ! k"
      proof (cases "k = Suc (nat i)")
        case True
        then show ?thesis using lp t pi row_offsets_Suc[OF t] by simp
      next
        case False
        then have "k \<le> nat i" using k i by auto
        then show ?thesis using inv False unfolding I_def by simp
      qed
    next
      fix k assume k: "nat (i + 1) < k \<and> k \<le> length rs"
      then have "k \<noteq> Suc (nat i)" "nat i < k" using i by auto
      then show "?ptr' ! k = 0" using inv k unfolding I_def by simp
    qed
    then show "\<exists>s'. body i ptr = Inr s' \<and> I (i + 1) s'" using body[OF i lp] by simp
  qed
  then obtain ptr where ptr: "for_each [0..n - 1] body (replicate (nat (n + 1)) 0) = Inr ptr" "I n ptr"
    by blast
  have "ptr = ?offs"
  proof (rule nth_equalityI)
    show "length ptr = length ?offs" using ptr(2) by (simp add: I_def)
  next
    fix k assume "k < length ptr"
    then have "k \<le> nat n" using ptr(2) n by (simp add: I_def)
    then show "ptr ! k = ?offs ! k" using ptr(2) unfolding I_def by blast
  qed
  then show ?thesis using ptr(1) by simp
qed

lemma permute_csr_rows_ok:
  fixes X :: "('a::zero) CSR"
  assumes wf: "csr_shape X" and srt: "std_sort_spec srt" and p: "is_perm (nrows X) p"
  shows "permute_csr_rows srt X p =
     Inr (csr_of_rows (nrows X) (ncols X)
            (map (\<lambda>i. srt (\<lambda>a b. fst a < fst b) (csr_row X (p ! nat i))) [0..nrows X - 1]))"
proof -
  let ?n = "nrows X"
  let ?cmp = "\<lambda>(a :: int \<times> 'a) b. fst a < fst b"
  define rs where "rs = map (\<lambda>i. csr_row X (p ! nat i)) [0..?n - 1]"
  note l = csr_shape_lengths[OF wf]
  have lp: "int (length p) = ?n" by (rule is_perm_length[OF p l(4)])
  have lrs: "int (length rs) = ?n" "length rs = nat ?n" using l by (simp_all add: rs_def)
  have rs_nth: "rs ! nat i = csr_row X (p ! nat i)" if "0 \<le> i" "i < ?n" for i
    using that by (simp add: rs_def)
  have T: "length (concat rs) = CSR.nnz X" unfolding rs_def by (rule permuted_total_length[OF wf p])
  \<comment> \<open>first pass\<close>
  let ?b1 = "\<lambda>i_new Xp_indptr.
            rbind (vget p i_new) (\<lambda>i_old.
            rbind (vget (indptr X) i_old) (\<lambda>row_start.
            rbind (vget (indptr X) (i_old + 1)) (\<lambda>row_end.
              let row_nnz = row_end - row_start
              in rbind (vget Xp_indptr i_new) (\<lambda>prev.
                   vset Xp_indptr (i_new + 1) (prev + row_nnz)))))"
  have pass1: "for_each [0..?n - 1] ?b1 (replicate (nat (?n + 1)) 0) = Inr (row_offsets rs)"
  proof (rule prefix_sum_pass)
    show "?n = int (length rs)" using lrs by simp
  next
    fix i and ptr :: "int list"
    assume i: "0 \<le> i" "i < ?n" and lptr: "length ptr = Suc (length rs)"
    note r = is_perm_range[OF p i]
    note pp = csr_shape_ptr[OF wf r]
    have "int (length (rs ! nat i)) = indptr X ! nat (p ! nat i + 1) - indptr X ! nat (p ! nat i)"
      using rs_nth[OF i] csr_row_length[OF wf r] pp by simp
    moreover have "nat (i + 1) = Suc (nat i)" using i by simp
    ultimately show "?b1 i ptr = Inr (ptr[Suc (nat i) := ptr ! nat i + int (length (rs ! nat i))])"
      using i r l lptr lrs by (simp add: vget_perm[OF p i] vget_ok vset_ok Let_def)
  qed
  \<comment> \<open>second pass\<close>
  let ?inner = "\<lambda>i_new idx (write_ptr, Xp_indices, Xp_data).
                rbind (vget write_ptr i_new) (\<lambda>dest.
                rbind (vset write_ptr i_new (dest + 1)) (\<lambda>write_ptr.
                rbind (vget (indices X) idx) (\<lambda>c.
                rbind (vset Xp_indices dest c) (\<lambda>Xp_indices.
                rbind (vget (data X) idx) (\<lambda>v.
                rbind (vset Xp_data dest v) (\<lambda>Xp_data.
                  Inr (write_ptr, Xp_indices, Xp_data)))))))"
  let ?b2 = "\<lambda>i_new (write_ptr, Xp_indices, Xp_data).
            rbind (vget p i_new) (\<lambda>i_old.
            rbind (vget (indptr X) i_old) (\<lambda>row_start.
            rbind (vget (indptr X) (i_old + 1)) (\<lambda>row_end.
              for_each [row_start..row_end - 1] (?inner i_new)
                (write_ptr, Xp_indices, Xp_data))))"
  have "\<exists>wp ind dat.
      for_each [0..?n - 1] ?b2 (row_offsets rs, replicate (CSR.nnz X) 0, replicate (CSR.nnz X) 0) = Inr (wp, ind, dat)
    \<and> length ind = length (concat rs) \<and> length dat = length (concat rs)
    \<and> (\<forall>i. 0 \<le> i \<and> i < ?n \<longrightarrow>
          (\<forall>k < length (rs ! nat i).
              ind ! (nat (row_offsets rs ! nat i) + k) = fst (rs ! nat i ! k)
            \<and> dat ! (nat (row_offsets rs ! nat i) + k) = snd (rs ! nat i ! k)))"
  proof (rule copy_rows[where s = "\<lambda>i. p ! nat i" and t = "\<lambda>i. i" and keep = "\<lambda>_. True" and f = "\<lambda>c. c"
        and inner = ?inner, OF wf])
    show "0 \<le> ?n" by (rule l)
  next
    fix i assume i: "0 \<le> i" "i < ?n"
    show "0 \<le> p ! nat i \<and> p ! nat i < ?n \<and> 0 \<le> i \<and> nat i < length rs
        \<and> row_part (\<lambda>_. True) (\<lambda>c. c) (csr_row X (p ! nat i)) = rs ! nat i"
      using is_perm_range[OF p i] i lrs rs_nth[OF i] by (simp add: row_part_id)
  next
    show "length (replicate (CSR.nnz X) (0::int)) = length (concat rs)"
         "length (replicate (CSR.nnz X) (0::'a)) = length (concat rs)" using T by simp_all
  next
    fix i and st :: "int list \<times> int list \<times> 'a list" assume i: "0 \<le> i" "i < ?n"
    note r = is_perm_range[OF p i]
    show "?b2 i st = for_each [indptr X ! nat (p ! nat i)..indptr X ! nat (p ! nat i + 1) - 1] (?inner i) st"
      using r l by (cases st) (simp add: vget_perm[OF p i] vget_ok)
  next
    fix i idx and wp ind :: "int list" and dat :: "'a list"
    assume i: "0 \<le> i" "i < ?n"
      and idx: "indptr X ! nat (p ! nat i) \<le> idx" "idx < indptr X ! nat (p ! nat i + 1)"
      and lens: "length wp = Suc (length rs)" "length ind = length (concat rs)" "length dat = length (concat rs)"
      and dest: "True \<longrightarrow> 0 \<le> wp ! nat i \<and> wp ! nat i < int (length (concat rs))"
    note r = is_perm_range[OF p i]
    note pp = csr_shape_ptr[OF wf r]
    have ib: "0 \<le> idx" "idx < int (CSR.nnz X)" using idx pp by auto
    show "?inner i idx (wp, ind, dat) = Inr (copy_step (\<lambda>_. True) (\<lambda>c. c) X i idx (wp, ind, dat))"
      using i lens dest ib l lrs by (simp add: copy_step_def vget_ok vset_ok)
  qed simp
  then obtain wp ind dat where
    pass2: "for_each [0..?n - 1] ?b2 (row_offsets rs, replicate (CSR.nnz X) 0, replicate (CSR.nnz X) 0) = Inr (wp, ind, dat)"
    and l2: "length ind = length (concat rs)" "length dat = length (concat rs)"
    and sl: "\<And>i k. 0 \<le> i \<Longrightarrow> i < ?n \<Longrightarrow> k < length (rs ! nat i) \<Longrightarrow>
              ind ! (nat (row_offsets rs ! nat i) + k) = fst (rs ! nat i ! k)
            \<and> dat ! (nat (row_offsets rs ! nat i) + k) = snd (rs ! nat i ! k)"
    by blast
  have h: "holds_rows ind dat rs"
  proof (rule holds_rowsI[OF l2])
    fix t k assume t: "t < length rs" and k: "k < length (rs ! t)"
    then show "ind ! (nat (row_offsets rs ! t) + k) = fst (rs ! t ! k) \<and>
        dat ! (nat (row_offsets rs ! t) + k) = snd (rs ! t ! k)"
      using sl[of "int t" k] lrs by simp
  qed
  from sort_each_row_ok[OF srt h lrs(1)[symmetric]] obtain ind' dat' where
    pass3: "sort_each_row srt ?n (row_offsets rs) (ind, dat) = Inr (ind', dat')"
    and h': "holds_rows ind' dat' (map (srt ?cmp) rs)" by blast
  note v = holds_rows_vectors[OF h']
  have sl: "map length (map (srt ?cmp) rs) = map length rs"
    by (simp add: std_sort_length[OF srt swo_key_less] comp_def)
  have offs: "row_offsets (map (srt ?cmp) rs) = row_offsets rs" by (rule row_offsets_cong[OF sl])
  have T': "length (concat (map (srt ?cmp) rs)) = CSR.nnz X"
    using sl T by (metis length_concat)
  have "permute_csr_rows srt X p = Inr \<lparr>nrows = ?n, ncols = ncols X, nnz = CSR.nnz X,
                 indptr = row_offsets rs, indices = ind', data = dat'\<rparr>"
    unfolding permute_csr_rows_def using lp l pass1 pass2 pass3 by (simp add: vnew_ok)
  also have "\<lparr>nrows = ?n, ncols = ncols X, nnz = CSR.nnz X,
                 indptr = row_offsets rs, indices = ind', data = dat'\<rparr>
      = csr_of_rows ?n (ncols X) (map (srt ?cmp) rs)"
    unfolding csr_of_rows_def using v offs T' by simp
  also have "map (srt ?cmp) rs = map (\<lambda>i. srt ?cmp (csr_row X (p ! nat i))) [0..?n - 1]"
    by (simp add: rs_def)
  finally show ?thesis .
qed

section \<open>Restoring the rows of a matrix\<close>

lemma takeWhile_neq_less: "t \<in> set p \<Longrightarrow> length (takeWhile (\<lambda>x. x \<noteq> t) p) < length p"
  by (induction p) auto

lemma index_of_range:
  assumes p: "is_perm n p" and t: "0 \<le> t" "t < n"
  shows "0 \<le> index_of p t" "index_of p t < n" "p ! nat (index_of p t) = t"
proof -
  have mem: "t \<in> set p" using is_perm_set[OF p] t by auto
  then have lt: "length (takeWhile (\<lambda>x. x \<noteq> t) p) < length p"
    by (rule takeWhile_neq_less)
  show "0 \<le> index_of p t" by (simp add: index_of_def)
  show "index_of p t < n" using lt is_perm_length[OF p] t by (simp add: index_of_def)
  show "p ! nat (index_of p t) = t"
    using nth_length_takeWhile[OF lt] by (simp add: index_of_def)
qed

lemma index_of_nth:
  assumes p: "is_perm n p" and i: "0 \<le> i" "i < n"
  shows "index_of p (p ! nat i) = i"
proof -
  note r = is_perm_range[OF p i]
  note x = index_of_range[OF p r]
  show ?thesis using is_perm_inj[OF p x(1,2) i x(3)] .
qed

lemma scatter_count_pass:
  fixes rs :: "'e list list"
  assumes n: "n = int (length rs)" and p: "is_perm n p"
    and body: "\<And>i ptr. 0 \<le> i \<Longrightarrow> i < n \<Longrightarrow> length ptr = Suc (length rs) \<Longrightarrow>
        body i ptr = Inr (ptr[Suc (nat (p ! nat i)) := ptr ! Suc (nat (p ! nat i)) + int (length (rs ! nat (p ! nat i)))])"
  shows "\<exists>ptr. for_each [0..n - 1] body (replicate (nat (n + 1)) 0) = Inr ptr
      \<and> length ptr = Suc (length rs) \<and> ptr ! 0 = 0 \<and> (\<forall>t < length rs. ptr ! Suc t = int (length (rs ! t)))"
proof -
  define I where "I = (\<lambda>i (ptr :: int list). length ptr = Suc (length rs) \<and> ptr ! 0 = 0
      \<and> (\<forall>t < length rs. ptr ! Suc t = (if index_of p (int t) < i then int (length (rs ! t)) else 0)))"
  have "\<exists>ptr. for_each [0..n - 1] body (replicate (nat (n + 1)) 0) = Inr ptr \<and> I n ptr"
  proof (rule for_range_inv)
    show "0 \<le> n" using n by simp
    show "I 0 (replicate (nat (n + 1)) 0)" using n by (auto simp: I_def nat_add_distrib index_of_def)
  next
    fix i and ptr :: "int list" assume i: "0 \<le> i" "i < n" and inv: "I i ptr"
    have lp: "length ptr = Suc (length rs)" and z: "ptr ! 0 = 0"
      and vals: "\<And>t. t < length rs \<Longrightarrow> ptr ! Suc t = (if index_of p (int t) < i then int (length (rs ! t)) else 0)"
      using inv by (simp_all add: I_def)
    note r = is_perm_range[OF p i]
    let ?o = "nat (p ! nat i)"
    have o: "?o < length rs" "int ?o = p ! nat i" using r n by auto
    have io: "index_of p (int ?o) = i" using index_of_nth[OF p i] o by simp
    let ?ptr' = "ptr[Suc ?o := ptr ! Suc ?o + int (length (rs ! ?o))]"
    have "I (i + 1) ?ptr'"
      unfolding I_def
    proof (intro conjI allI impI)
      show "length ?ptr' = Suc (length rs)" using lp by simp
      show "?ptr' ! 0 = 0" using z by simp
    next
      fix t assume t: "t < length rs"
      show "?ptr' ! Suc t = (if index_of p (int t) < i + 1 then int (length (rs ! t)) else 0)"
      proof (cases "t = ?o")
        case True
        then show ?thesis using vals[OF t] io lp t by simp
      next
        case False
        have "index_of p (int t) \<noteq> i"
        proof
          assume "index_of p (int t) = i"
          then have "p ! nat i = int t" using index_of_range(3)[OF p, of "int t"] t n by auto
          then show False using False by simp
        qed
        then show ?thesis using vals[OF t] False by auto
      qed
    qed
    then show "\<exists>s'. body i ptr = Inr s' \<and> I (i + 1) s'" using body[OF i lp] by simp
  qed
  then obtain ptr where ptr: "for_each [0..n - 1] body (replicate (nat (n + 1)) 0) = Inr ptr" "I n ptr"
    by blast
  have "ptr ! Suc t = int (length (rs ! t))" if "t < length rs" for t
  proof -
    have "index_of p (int t) < n" using index_of_range(2)[OF p, of "int t"] that n by simp
    then show ?thesis using ptr(2) that unfolding I_def by simp
  qed
  then show ?thesis using ptr unfolding I_def by blast
qed

lemma cumulative_pass:
  fixes rs :: "'e list list"
  assumes n: "n = int (length rs)"
    and ptr0: "length ptr0 = Suc (length rs)" "ptr0 ! 0 = 0" "\<forall>t < length rs. ptr0 ! Suc t = int (length (rs ! t))"
    and body: "\<And>i ptr. 0 \<le> i \<Longrightarrow> i < n \<Longrightarrow> length ptr = Suc (length rs) \<Longrightarrow>
        body i ptr = Inr (ptr[Suc (nat i) := ptr ! Suc (nat i) + ptr ! nat i])"
  shows "for_each [0..n - 1] body ptr0 = Inr (row_offsets rs)"
proof -
  let ?offs = "row_offsets rs"
  define I where "I = (\<lambda>i (ptr :: int list). length ptr = Suc (length rs)
      \<and> (\<forall>k \<le> nat i. ptr ! k = ?offs ! k)
      \<and> (\<forall>k. nat i \<le> k \<and> k < length rs \<longrightarrow> ptr ! Suc k = int (length (rs ! k))))"
  have "\<exists>ptr. for_each [0..n - 1] body ptr0 = Inr ptr \<and> I n ptr"
  proof (rule for_range_inv)
    show "0 \<le> n" using n by simp
    show "I 0 ptr0" using ptr0 by (auto simp: I_def row_offsets_0)
  next
    fix i and ptr :: "int list" assume i: "0 \<le> i" "i < n" and inv: "I i ptr"
    have lp: "length ptr = Suc (length rs)" using inv by (simp add: I_def)
    have t: "nat i < length rs" using i n by auto
    have pi: "ptr ! nat i = ?offs ! nat i" using inv by (simp add: I_def)
    have pn: "ptr ! Suc (nat i) = int (length (rs ! nat i))" using inv t by (simp add: I_def)
    let ?ptr' = "ptr[Suc (nat i) := ptr ! Suc (nat i) + ptr ! nat i]"
    have "I (i + 1) ?ptr'"
      unfolding I_def
    proof (intro conjI allI impI)
      show "length ?ptr' = Suc (length rs)" using lp by simp
    next
      fix k assume k: "k \<le> nat (i + 1)"
      show "?ptr' ! k = ?offs ! k"
      proof (cases "k = Suc (nat i)")
        case True
        then show ?thesis using lp t pi pn row_offsets_Suc[OF t] by simp
      next
        case False
        then have "k \<le> nat i" using k i by auto
        then show ?thesis using inv False unfolding I_def by simp
      qed
    next
      fix k assume k: "nat (i + 1) \<le> k \<and> k < length rs"
      then have "Suc k \<noteq> Suc (nat i)" "nat i \<le> k" using i by auto
      then show "?ptr' ! Suc k = int (length (rs ! k))" using inv k unfolding I_def by simp
    qed
    then show "\<exists>s'. body i ptr = Inr s' \<and> I (i + 1) s'" using body[OF i lp] by simp
  qed
  then obtain ptr where ptr: "for_each [0..n - 1] body ptr0 = Inr ptr" "I n ptr"
    by blast
  have "ptr = ?offs"
  proof (rule nth_equalityI)
    show "length ptr = length ?offs" using ptr(2) by (simp add: I_def)
  next
    fix k assume "k < length ptr"
    then have "k \<le> nat n" using ptr(2) n by (simp add: I_def)
    then show "ptr ! k = ?offs ! k" using ptr(2) unfolding I_def by blast
  qed
  then show ?thesis using ptr(1) by simp
qed

lemma unpermuted_total_length:
  assumes wf: "csr_shape X" and p: "is_perm (nrows X) p"
  shows "length (concat (map (\<lambda>t. csr_row X (index_of p t)) [0..nrows X - 1])) = CSR.nnz X"
proof -
  note n = csr_shape_lengths(4)[OF wf]
  have "length (concat (map (\<lambda>t. csr_row X (index_of p t)) [0..nrows X - 1]))
      = (\<Sum>t \<leftarrow> [0..nrows X - 1]. length (csr_row X (index_of p t)))"
    by (simp add: length_concat comp_def)
  also have "\<dots> = (\<Sum>i \<leftarrow> [0..nrows X - 1]. length (csr_row X (index_of p (p ! nat i))))"
    by (rule is_perm_sum[OF p n, symmetric])
  also have "\<dots> = (\<Sum>i \<leftarrow> [0..nrows X - 1]. length (csr_row X i))"
    by (rule sum_list_cong) (simp add: index_of_nth[OF p])
  also have "\<dots> = length (concat (map (csr_row X) [0..nrows X - 1]))"
    by (simp add: length_concat comp_def)
  finally show ?thesis using csr_total_length[OF wf] by simp
qed

lemma unpermute_csr_rows_ok:
  fixes X :: "('a::zero) CSR"
  assumes wf: "csr_shape X" and srt: "std_sort_spec srt" and p: "is_perm (nrows X) p"
  shows "unpermute_csr_rows srt X p =
     Inr (csr_of_rows (nrows X) (ncols X)
            (map (\<lambda>t. srt (\<lambda>a b. fst a < fst b) (csr_row X (index_of p t))) [0..nrows X - 1]))"
proof -
  let ?n = "nrows X"
  let ?cmp = "\<lambda>(a :: int \<times> 'a) b. fst a < fst b"
  define rs where "rs = map (\<lambda>t. csr_row X (index_of p t)) [0..?n - 1]"
  note l = csr_shape_lengths[OF wf]
  have lp: "int (length p) = ?n" by (rule is_perm_length[OF p l(4)])
  have lrs: "int (length rs) = ?n" "length rs = nat ?n" using l by (simp_all add: rs_def)
  have rs_nth: "rs ! nat t = csr_row X (index_of p t)" if "0 \<le> t" "t < ?n" for t
    using that by (simp add: rs_def)
  have rs_p: "rs ! nat (p ! nat i) = csr_row X i" if "0 \<le> i" "i < ?n" for i
    using rs_nth[OF is_perm_range[OF p that]] index_of_nth[OF p that] by simp
  have T: "length (concat rs) = CSR.nnz X" unfolding rs_def by (rule unpermuted_total_length[OF wf p])
  \<comment> \<open>counting pass\<close>
  let ?b1 = "\<lambda>i_new X_indptr.
            rbind (vget p i_new) (\<lambda>i_old.
              if i_old < 0 \<or> i_old \<ge> ?n
              then Inl (Runtime_error ''unpermute_csr_rows: invalid row_new2old entry'')
              else
                rbind (vget (indptr X) i_new) (\<lambda>row_start.
                rbind (vget (indptr X) (i_new + 1)) (\<lambda>row_end.
                  let row_nnz = row_end - row_start
                  in rbind (vget X_indptr (i_old + 1)) (\<lambda>cur.
                       vset X_indptr (i_old + 1) (cur + row_nnz)))))"
  have "\<exists>ptr. for_each [0..?n - 1] ?b1 (replicate (nat (?n + 1)) 0) = Inr ptr
      \<and> length ptr = Suc (length rs) \<and> ptr ! 0 = 0 \<and> (\<forall>t < length rs. ptr ! Suc t = int (length (rs ! t)))"
  proof (rule scatter_count_pass[OF lrs(1)[symmetric] p])
    fix i and ptr :: "int list"
    assume i: "0 \<le> i" "i < ?n" and lptr: "length ptr = Suc (length rs)"
    note r = is_perm_range[OF p i]
    note pp = csr_shape_ptr[OF wf i]
    have "int (length (rs ! nat (p ! nat i))) = indptr X ! nat (i + 1) - indptr X ! nat i"
      using rs_p[OF i] csr_row_length[OF wf i] pp by simp
    moreover have "nat (p ! nat i + 1) = Suc (nat (p ! nat i))" using r by simp
    ultimately show "?b1 i ptr = Inr (ptr[Suc (nat (p ! nat i)) := ptr ! Suc (nat (p ! nat i)) + int (length (rs ! nat (p ! nat i)))])"
      using i r l lptr lrs by (simp add: vget_perm[OF p i] vget_ok vset_ok Let_def)
  qed
  then obtain ptr0 where pass1: "for_each [0..?n - 1] ?b1 (replicate (nat (?n + 1)) 0) = Inr ptr0"
    and ptr0: "length ptr0 = Suc (length rs)" "ptr0 ! 0 = 0" "\<forall>t < length rs. ptr0 ! Suc t = int (length (rs ! t))"
    by blast
  \<comment> \<open>running totals\<close>
  let ?b1b = "\<lambda>i X_indptr.
            rbind (vget X_indptr (i + 1)) (\<lambda>cur.
            rbind (vget X_indptr i) (\<lambda>prev.
              vset X_indptr (i + 1) (cur + prev)))"
  have pass1b: "for_each [0..?n - 1] ?b1b ptr0 = Inr (row_offsets rs)"
  proof (rule cumulative_pass[OF lrs(1)[symmetric] ptr0])
    fix i and ptr :: "int list"
    assume i: "0 \<le> i" "i < ?n" and lptr: "length ptr = Suc (length rs)"
    have "nat (i + 1) = Suc (nat i)" using i by simp
    then show "?b1b i ptr = Inr (ptr[Suc (nat i) := ptr ! Suc (nat i) + ptr ! nat i])"
      using i lptr lrs by (simp add: vget_ok vset_ok)
  qed
  \<comment> \<open>copying pass\<close>
  let ?inner = "\<lambda>i_old idx (write_ptr, X_indices, X_data).
                rbind (vget write_ptr i_old) (\<lambda>dest.
                rbind (vset write_ptr i_old (dest + 1)) (\<lambda>write_ptr.
                rbind (vget (indices X) idx) (\<lambda>c.
                rbind (vset X_indices dest c) (\<lambda>X_indices.
                rbind (vget (data X) idx) (\<lambda>v.
                rbind (vset X_data dest v) (\<lambda>X_data.
                  Inr (write_ptr, X_indices, X_data)))))))"
  let ?b2 = "\<lambda>i_new (write_ptr, X_indices, X_data).
            rbind (vget p i_new) (\<lambda>i_old.
            rbind (vget (indptr X) i_new) (\<lambda>row_start.
            rbind (vget (indptr X) (i_new + 1)) (\<lambda>row_end.
              for_each [row_start..row_end - 1] (?inner i_old)
                (write_ptr, X_indices, X_data))))"
  have "\<exists>wp ind dat.
      for_each [0..?n - 1] ?b2 (row_offsets rs, replicate (CSR.nnz X) 0, replicate (CSR.nnz X) 0) = Inr (wp, ind, dat)
    \<and> length ind = length (concat rs) \<and> length dat = length (concat rs)
    \<and> (\<forall>i. 0 \<le> i \<and> i < ?n \<longrightarrow>
          (\<forall>k < length (rs ! nat (p ! nat i)).
              ind ! (nat (row_offsets rs ! nat (p ! nat i)) + k) = fst (rs ! nat (p ! nat i) ! k)
            \<and> dat ! (nat (row_offsets rs ! nat (p ! nat i)) + k) = snd (rs ! nat (p ! nat i) ! k)))"
  proof (rule copy_rows[where s = "\<lambda>i. i" and t = "\<lambda>i. p ! nat i" and keep = "\<lambda>_. True" and f = "\<lambda>c. c"
        and inner = "\<lambda>i. ?inner (p ! nat i)", OF wf])
    show "0 \<le> ?n" by (rule l)
  next
    fix i assume i: "0 \<le> i" "i < ?n"
    show "0 \<le> i \<and> i < ?n \<and> 0 \<le> p ! nat i \<and> nat (p ! nat i) < length rs
        \<and> row_part (\<lambda>_. True) (\<lambda>c. c) (csr_row X i) = rs ! nat (p ! nat i)"
      using is_perm_range[OF p i] i lrs rs_p[OF i] by (simp add: row_part_id)
  next
    fix i i' assume "0 \<le> i" "i < ?n" "0 \<le> i'" "i' < ?n" "p ! nat i = p ! nat i'"
    then show "i = i'" by (rule is_perm_inj[OF p])
  next
    show "length (replicate (CSR.nnz X) (0::int)) = length (concat rs)"
         "length (replicate (CSR.nnz X) (0::'a)) = length (concat rs)" using T by simp_all
  next
    fix i and st :: "int list \<times> int list \<times> 'a list" assume i: "0 \<le> i" "i < ?n"
    show "?b2 i st = for_each [indptr X ! nat i..indptr X ! nat (i + 1) - 1] (?inner (p ! nat i)) st"
      using i l by (cases st) (simp add: vget_perm[OF p i] vget_ok)
  next
    fix i idx and wp ind :: "int list" and dat :: "'a list"
    assume i: "0 \<le> i" "i < ?n"
      and idx: "indptr X ! nat i \<le> idx" "idx < indptr X ! nat (i + 1)"
      and lens: "length wp = Suc (length rs)" "length ind = length (concat rs)" "length dat = length (concat rs)"
      and dest: "True \<longrightarrow> 0 \<le> wp ! nat (p ! nat i) \<and> wp ! nat (p ! nat i) < int (length (concat rs))"
    note r = is_perm_range[OF p i]
    note pp = csr_shape_ptr[OF wf i]
    have ib: "0 \<le> idx" "idx < int (CSR.nnz X)" using idx pp by auto
    show "?inner (p ! nat i) idx (wp, ind, dat) = Inr (copy_step (\<lambda>_. True) (\<lambda>c. c) X (p ! nat i) idx (wp, ind, dat))"
      using r lens dest ib l lrs by (simp add: copy_step_def vget_ok vset_ok)
  qed
  then obtain wp ind dat where
    pass2: "for_each [0..?n - 1] ?b2 (row_offsets rs, replicate (CSR.nnz X) 0, replicate (CSR.nnz X) 0) = Inr (wp, ind, dat)"
    and l2: "length ind = length (concat rs)" "length dat = length (concat rs)"
    and sl: "\<And>i k. 0 \<le> i \<Longrightarrow> i < ?n \<Longrightarrow> k < length (rs ! nat (p ! nat i)) \<Longrightarrow>
              ind ! (nat (row_offsets rs ! nat (p ! nat i)) + k) = fst (rs ! nat (p ! nat i) ! k)
            \<and> dat ! (nat (row_offsets rs ! nat (p ! nat i)) + k) = snd (rs ! nat (p ! nat i) ! k)"
    by blast
  have h: "holds_rows ind dat rs"
  proof (rule holds_rowsI[OF l2])
    fix t k assume t: "t < length rs" and k: "k < length (rs ! t)"
    have tt: "0 \<le> int t" "int t < ?n" using t lrs by auto
    note x = index_of_range[OF p tt]
    show "ind ! (nat (row_offsets rs ! t) + k) = fst (rs ! t ! k) \<and>
        dat ! (nat (row_offsets rs ! t) + k) = snd (rs ! t ! k)"
      using sl[OF x(1,2), of k] k x(3) by simp
  qed
  from sort_each_row_ok[OF srt h lrs(1)[symmetric]] obtain ind' dat' where
    pass3: "sort_each_row srt ?n (row_offsets rs) (ind, dat) = Inr (ind', dat')"
    and h': "holds_rows ind' dat' (map (srt ?cmp) rs)" by blast
  note v = holds_rows_vectors[OF h']
  have sl: "map length (map (srt ?cmp) rs) = map length rs"
    by (simp add: std_sort_length[OF srt swo_key_less] comp_def)
  have offs: "row_offsets (map (srt ?cmp) rs) = row_offsets rs" by (rule row_offsets_cong[OF sl])
  have T': "length (concat (map (srt ?cmp) rs)) = CSR.nnz X"
    using sl T by (metis length_concat)
  have "unpermute_csr_rows srt X p = Inr \<lparr>nrows = ?n, ncols = ncols X, nnz = CSR.nnz X,
                 indptr = row_offsets rs, indices = ind', data = dat'\<rparr>"
    unfolding unpermute_csr_rows_def using lp l pass1 pass1b pass2 pass3 by (simp add: vnew_ok)
  also have "\<lparr>nrows = ?n, ncols = ncols X, nnz = CSR.nnz X,
                 indptr = row_offsets rs, indices = ind', data = dat'\<rparr>
      = csr_of_rows ?n (ncols X) (map (srt ?cmp) rs)"
    unfolding csr_of_rows_def using v offs T' by simp
  also have "map (srt ?cmp) rs = map (\<lambda>t. srt ?cmp (csr_row X (index_of p t))) [0..?n - 1]"
    by (simp add: rs_def)
  finally show ?thesis .
qed

section \<open>Sorted rows stay as they are\<close>

lemma std_sort_sorted_fst:
  fixes r :: "(int \<times> 'a) list"
  assumes srt: "std_sort_spec srt"
  shows "sorted (map fst (srt (\<lambda>a b. fst a < fst b) r))"
proof -
  have "sorted_wrt (\<lambda>a b. \<not> fst b < fst a) (srt (\<lambda>a b. fst a < fst b) r)"
    by (rule std_sort_sorted[OF srt swo_key_less])
  then have "sorted_wrt (\<lambda>a b. fst a \<le> fst b) (srt (\<lambda>a b. fst a < fst b) r)"
    by (simp add: not_less)
  then show ?thesis by (simp add: sorted_wrt_map)
qed

lemma std_sort_strict:
  fixes r :: "(int \<times> 'a) list"
  assumes srt: "std_sort_spec srt" and d: "distinct (map fst r)"
  shows "sorted_wrt (<) (map fst (srt (\<lambda>a b. fst a < fst b) r))"
proof -
  let ?s = "srt (\<lambda>a b. fst a < fst b) r"
  have m: "mset ?s = mset r" by (rule std_sort_mset[OF srt swo_key_less])
  then have "mset (map fst ?s) = mset (map fst r)" by simp
  then have "distinct (map fst ?s)" using d by (metis mset_eq_imp_distinct_iff)
  then show ?thesis using std_sort_sorted_fst[OF srt, of r] strict_sorted_iff by blast
qed

lemma std_sort_set:
  "std_sort_spec srt \<Longrightarrow> strict_weak_order cmp \<Longrightarrow> set (srt cmp xs) = set xs"
  by (metis std_sort_mset set_mset_mset)

lemma std_sort_id:
  fixes r :: "(int \<times> 'a) list"
  assumes srt: "std_sort_spec srt" and s: "sorted_wrt (<) (map fst r)"
  shows "srt (\<lambda>a b. fst a < fst b) r = r"
proof -
  let ?s = "srt (\<lambda>a b. fst a < fst b) r"
  have d: "distinct (map fst r)" "sorted (map fst r)" using s strict_sorted_iff by blast+
  have m: "mset ?s = mset r" by (rule std_sort_mset[OF srt swo_key_less])
  then have "mset (map fst ?s) = mset (map fst r)" by simp
  then have "map fst ?s = map fst r"
    using std_sort_sorted_fst[OF srt, of r] d(2) by (metis properties_for_sort)
  moreover have "set ?s = set r" using m by (metis set_mset_mset)
  then have "inj_on fst (set ?s \<union> set r)"
    using d(1) by (simp add: distinct_map)
  ultimately show ?thesis by (rule map_inj_on)
qed

lemma permute_csr_rows_shape:
  fixes X :: "('a::zero) CSR"
  assumes swf: "csr_wf X" and srt: "std_sort_spec srt" and p: "is_perm (nrows X) p"
  shows "permute_csr_rows srt X p =
     Inr (csr_of_rows (nrows X) (ncols X) (map (\<lambda>i. csr_row X (p ! nat i)) [0..nrows X - 1]))"
proof -
  note wf = csr_wf_shape[OF swf]
  have "srt (\<lambda>a b. fst a < fst b) (csr_row X (p ! nat i)) = csr_row X (p ! nat i)"
    if "i \<in> set [0..nrows X - 1]" for i
  proof -
    have i: "0 \<le> i" "i < nrows X" using that by auto
    show ?thesis by (rule std_sort_id[OF srt csr_row_distinct(1)[OF swf is_perm_range[OF p i]]])
  qed
  then have eq: "map (\<lambda>i. srt (\<lambda>a b. fst a < fst b) (csr_row X (p ! nat i))) [0..nrows X - 1]
      = map (\<lambda>i. csr_row X (p ! nat i)) [0..nrows X - 1]"
    by (intro map_cong) auto
  show ?thesis using permute_csr_rows_ok[OF wf srt p] unfolding eq .
qed

lemma permuted_rows_wf:
  assumes swf: "csr_wf X" and p: "is_perm (nrows X) p"
  shows "csr_wf (csr_of_rows (nrows X) (ncols X) (map (\<lambda>i. csr_row X (p ! nat i)) [0..nrows X - 1]))"
proof (rule csr_of_rows_wf)
  note wf = csr_wf_shape[OF swf]
  show "0 \<le> nrows X" "0 \<le> ncols X" using csr_shape_lengths[OF wf] by auto
  show "length (map (\<lambda>i. csr_row X (p ! nat i)) [0..nrows X - 1]) = nat (nrows X)"
    using csr_shape_lengths[OF wf] by simp
  show "\<forall>r \<in> set (map (\<lambda>i. csr_row X (p ! nat i)) [0..nrows X - 1]).
     sorted_wrt (<) (map fst r) \<and> (\<forall>e \<in> set r. 0 \<le> fst e \<and> fst e < ncols X)"
  proof
    fix r assume "r \<in> set (map (\<lambda>i. csr_row X (p ! nat i)) [0..nrows X - 1])"
    then obtain i where i: "0 \<le> i" "i < nrows X" and r: "r = csr_row X (p ! nat i)" by auto
    note q = is_perm_range[OF p i]
    show "sorted_wrt (<) (map fst r) \<and> (\<forall>e \<in> set r. 0 \<le> fst e \<and> fst e < ncols X)"
      unfolding r using csr_row_distinct(1)[OF swf q] csr_row_cols[OF wf q] by simp
  qed
qed

lemma unpermute_csr_rows_shape:
  fixes X :: "('a::zero) CSR"
  assumes swf: "csr_wf X" and srt: "std_sort_spec srt" and p: "is_perm (nrows X) p"
  shows "unpermute_csr_rows srt X p =
     Inr (csr_of_rows (nrows X) (ncols X) (map (\<lambda>t. csr_row X (index_of p t)) [0..nrows X - 1]))"
proof -
  note wf = csr_wf_shape[OF swf]
  have "srt (\<lambda>a b. fst a < fst b) (csr_row X (index_of p t)) = csr_row X (index_of p t)"
    if "t \<in> set [0..nrows X - 1]" for t
  proof -
    have t: "0 \<le> t" "t < nrows X" using that by auto
    show ?thesis by (rule std_sort_id[OF srt csr_row_distinct(1)[OF swf index_of_range(1,2)[OF p t]]])
  qed
  then have eq: "map (\<lambda>t. srt (\<lambda>a b. fst a < fst b) (csr_row X (index_of p t))) [0..nrows X - 1]
      = map (\<lambda>t. csr_row X (index_of p t)) [0..nrows X - 1]"
    by (intro map_cong) auto
  show ?thesis using unpermute_csr_rows_ok[OF wf srt p] unfolding eq .
qed

lemma unpermuted_rows_wf:
  assumes swf: "csr_wf X" and p: "is_perm (nrows X) p"
  shows "csr_wf (csr_of_rows (nrows X) (ncols X) (map (\<lambda>t. csr_row X (index_of p t)) [0..nrows X - 1]))"
proof (rule csr_of_rows_wf)
  note wf = csr_wf_shape[OF swf]
  show "0 \<le> nrows X" "0 \<le> ncols X" using csr_shape_lengths[OF wf] by auto
  show "length (map (\<lambda>t. csr_row X (index_of p t)) [0..nrows X - 1]) = nat (nrows X)"
    using csr_shape_lengths[OF wf] by simp
  show "\<forall>r \<in> set (map (\<lambda>t. csr_row X (index_of p t)) [0..nrows X - 1]).
     sorted_wrt (<) (map fst r) \<and> (\<forall>e \<in> set r. 0 \<le> fst e \<and> fst e < ncols X)"
  proof
    fix r assume "r \<in> set (map (\<lambda>t. csr_row X (index_of p t)) [0..nrows X - 1])"
    then obtain t where t: "0 \<le> t" "t < nrows X" and r: "r = csr_row X (index_of p t)" by auto
    note q = index_of_range(1,2)[OF p t]
    show "sorted_wrt (<) (map fst r) \<and> (\<forall>e \<in> set r. 0 \<le> fst e \<and> fst e < ncols X)"
      unfolding r using csr_row_distinct(1)[OF swf q] csr_row_cols[OF wf q] by simp
  qed
qed

lemma permute_unpermute_rows:
  fixes X :: "('a::zero) CSR"
  assumes swf: "csr_wf X" and srt: "std_sort_spec srt" and p: "is_perm (nrows X) p"
  shows "rbind (permute_csr_rows srt X p) (\<lambda>Xp. unpermute_csr_rows srt Xp p) = Inr X"
proof -
  note wf = csr_wf_shape[OF swf]
  let ?n = "nrows X"
  let ?Xp = "csr_of_rows ?n (ncols X) (map (\<lambda>i. csr_row X (p ! nat i)) [0..?n - 1])"
  note l = csr_shape_lengths[OF wf]
  have wfp: "csr_wf ?Xp" by (rule permuted_rows_wf[OF swf p])
  have pp: "is_perm (nrows ?Xp) p" using p by simp
  have rowp: "csr_row ?Xp i = csr_row X (p ! nat i)" if "0 \<le> i" "i < ?n" for i
    using csr_row_of_rows[of i "map (\<lambda>i. csr_row X (p ! nat i)) [0..?n - 1]" ?n "ncols X"] that l
    by simp
  have eq: "map (\<lambda>t. csr_row ?Xp (index_of p t)) [0..?n - 1] = map (csr_row X) [0..?n - 1]"
  proof (rule map_cong[OF refl])
    fix t assume "t \<in> set [0..?n - 1]"
    then have t: "0 \<le> t" "t < ?n" by auto
    note x = index_of_range[OF p t]
    show "csr_row ?Xp (index_of p t) = csr_row X t" using rowp[OF x(1,2)] x(3) by simp
  qed
  have "unpermute_csr_rows srt ?Xp p = Inr (csr_of_rows ?n (ncols X) (map (csr_row X) [0..?n - 1]))"
    using unpermute_csr_rows_shape[OF wfp srt pp] unfolding csr_of_rows_sel eq .
  then show ?thesis
    unfolding permute_csr_rows_shape[OF swf srt p] csr_of_rows_rows[OF wf] by simp
qed

section \<open>Permuting the columns of a matrix\<close>

lemma old2new_pass:
  assumes q: "is_perm nc q" and nc: "0 \<le> nc"
  shows "\<exists>v. for_each [0..nc - 1] (\<lambda>new_col col_old2new.
            rbind (vget q new_col) (\<lambda>old_col.
              if old_col < 0 \<or> old_col \<ge> nc
              then Inl (Runtime_error ''permute_csr_cols: invalid col_new2old entry'')
              else vset col_old2new old_col new_col)) (replicate (nat nc) 0) = Inr v
        \<and> length v = nat nc \<and> (\<forall>c. 0 \<le> c \<and> c < nc \<longrightarrow> v ! nat c = index_of q c)"
proof -
  let ?body = "\<lambda>new_col col_old2new.
            rbind (vget q new_col) (\<lambda>old_col.
              if old_col < 0 \<or> old_col \<ge> nc
              then Inl (Runtime_error ''permute_csr_cols: invalid col_new2old entry'')
              else vset col_old2new old_col new_col)"
  define I where "I = (\<lambda>i (v :: int list). length v = nat nc
      \<and> (\<forall>new. 0 \<le> new \<and> new < i \<longrightarrow> v ! nat (q ! nat new) = new))"
  have "\<exists>v. for_each [0..nc - 1] ?body (replicate (nat nc) 0) = Inr v \<and> I nc v"
  proof (rule for_range_inv)
    show "0 \<le> nc" by fact
    show "I 0 (replicate (nat nc) 0)" by (auto simp: I_def)
  next
    fix i and v :: "int list" assume i: "0 \<le> i" "i < nc" and inv: "I i v"
    have lv: "length v = nat nc" using inv by (simp add: I_def)
    note r = is_perm_range[OF q i]
    have body: "?body i v = Inr (v[nat (q ! nat i) := i])"
      using r lv by (simp add: vget_perm[OF q i] vset_ok)
    have "I (i + 1) (v[nat (q ! nat i) := i])"
      unfolding I_def
    proof (intro conjI allI impI)
      show "length (v[nat (q ! nat i) := i]) = nat nc" using lv by simp
    next
      fix new assume new: "0 \<le> new \<and> new < i + 1"
      show "v[nat (q ! nat i) := i] ! nat (q ! nat new) = new"
      proof (cases "new = i")
        case True
        then show ?thesis using r lv by simp
      next
        case False
        then have n2: "0 \<le> new" "new < nc" "new < i" using new i by auto
        have "q ! nat new \<noteq> q ! nat i" using is_perm_inj[OF q n2(1,2) i] False by auto
        then have "nat (q ! nat new) \<noteq> nat (q ! nat i)"
          using is_perm_range[OF q n2(1,2)] r by (simp add: eq_nat_nat_iff)
        then show ?thesis using inv n2 unfolding I_def by simp
      qed
    qed
    with body show "\<exists>s'. ?body i v = Inr s' \<and> I (i + 1) s'" by simp
  qed
  then obtain v where v: "for_each [0..nc - 1] ?body (replicate (nat nc) 0) = Inr v" "I nc v" by blast
  have "v ! nat c = index_of q c" if c: "0 \<le> c" "c < nc" for c
  proof -
    note x = index_of_range[OF q c]
    show ?thesis using v(2) x unfolding I_def by metis
  qed
  then show ?thesis using v unfolding I_def by blast
qed

lemma remap_pass:
  fixes X :: "'a CSR" and o2n :: "int list"
  assumes wf: "csr_shape X" and lo: "length o2n = nat (ncols X)"
  shows "for_each [0..int (CSR.nnz X) - 1] (\<lambda>i Xp_indices.
            rbind (vget (indices X) i) (\<lambda>old_col.
              if old_col < 0 \<or> old_col \<ge> ncols X
              then Inl (Runtime_error ''permute_csr_cols: invalid column index in X'')
              else
                rbind (vget o2n old_col) (\<lambda>new_col.
                  vset Xp_indices i new_col))) (replicate (CSR.nnz X) 0)
     = Inr (map (\<lambda>c. o2n ! nat c) (indices X))"
proof -
  let ?body = "\<lambda>i (Xp_indices :: int list).
            rbind (vget (indices X) i) (\<lambda>old_col.
              if old_col < 0 \<or> old_col \<ge> ncols X
              then Inl (Runtime_error ''permute_csr_cols: invalid column index in X'')
              else
                rbind (vget o2n old_col) (\<lambda>new_col.
                  vset Xp_indices i new_col))"
  note l = csr_shape_lengths[OF wf]
  have "\<exists>Y. for_each [0..int (CSR.nnz X) - 1] ?body (replicate (CSR.nnz X) (0::int)) = Inr Y
           \<and> length Y = length (replicate (CSR.nnz X) (0::int))
           \<and> (\<forall>j. 0 \<le> j \<and> j < int (CSR.nnz X) \<longrightarrow>
                Y ! nat (0 + j) = (\<lambda>j _. o2n ! nat (indices X ! nat j)) j (replicate (CSR.nnz X) (0::int) ! nat (0 + j)))
           \<and> (\<forall>q. q < nat 0 \<or> nat (0 + int (CSR.nnz X)) \<le> q \<longrightarrow> Y ! q = replicate (CSR.nnz X) (0::int) ! q)"
  proof (rule upd_row_gen)
    fix j and Y :: "int list"
    assume j: "0 \<le> j" "j < int (CSR.nnz X)" and lY: "length Y = length (replicate (CSR.nnz X) (0::int))"
    note c = csr_shape_col[OF wf j]
    show "?body j Y = Inr (Y[nat (0 + j) := o2n ! nat (indices X ! nat j)])"
      using j c l lo lY by (simp add: vget_ok vset_ok)
  qed simp_all
  then obtain Y where Y: "for_each [0..int (CSR.nnz X) - 1] ?body (replicate (CSR.nnz X) (0::int)) = Inr Y"
    "length Y = CSR.nnz X" "\<And>j. 0 \<le> j \<Longrightarrow> j < int (CSR.nnz X) \<Longrightarrow> Y ! nat j = o2n ! nat (indices X ! nat j)"
    by auto
  have "Y = map (\<lambda>c. o2n ! nat c) (indices X)"
  proof (rule nth_equalityI)
    show "length Y = length (map (\<lambda>c. o2n ! nat c) (indices X))" using Y(2) l by simp
  next
    fix k assume "k < length Y"
    then show "Y ! k = map (\<lambda>c. o2n ! nat c) (indices X) ! k"
      using Y(3)[of "int k"] Y(2) l by simp
  qed
  then show ?thesis using Y(1) by simp
qed

lemma permute_csr_cols_ok:
  fixes X :: "'a CSR"
  assumes wf: "csr_shape X" and srt: "std_sort_spec srt" and q: "is_perm (ncols X) q"
  shows "permute_csr_cols srt X q =
     Inr (csr_of_rows (nrows X) (ncols X)
            (map (\<lambda>i. srt (\<lambda>a b. fst a < fst b) (map (\<lambda>e. (index_of q (fst e), snd e)) (csr_row X i)))
               [0..nrows X - 1]))"
proof -
  let ?n = "nrows X" and ?nc = "ncols X"
  let ?cmp = "\<lambda>(a :: int \<times> 'a) b. fst a < fst b"
  let ?g = "\<lambda>e :: int \<times> 'a. (index_of q (fst e), snd e)"
  define rs where "rs = map (\<lambda>i. map ?g (csr_row X i)) [0..?n - 1]"
  note l = csr_shape_lengths[OF wf]
  have lq: "int (length q) = ?nc" by (rule is_perm_length[OF q l(5)])
  have lrs: "int (length rs) = ?n" using l by (simp add: rs_def)
  from old2new_pass[OF q l(5)] obtain o2n where
    pass1: "for_each [0..?nc - 1] (\<lambda>new_col col_old2new.
            rbind (vget q new_col) (\<lambda>old_col.
              if old_col < 0 \<or> old_col \<ge> ?nc
              then Inl (Runtime_error ''permute_csr_cols: invalid col_new2old entry'')
              else vset col_old2new old_col new_col)) (replicate (nat ?nc) 0) = Inr o2n"
    and lo: "length o2n = nat ?nc" and o2n: "\<And>c. 0 \<le> c \<Longrightarrow> c < ?nc \<Longrightarrow> o2n ! nat c = index_of q c"
    by blast
  note pass2 = remap_pass[OF wf lo]
  have ind: "map (\<lambda>c. o2n ! nat c) (indices X) = map (index_of q) (indices X)"
  proof (rule map_cong[OF refl])
    fix c assume "c \<in> set (indices X)"
    then have "0 \<le> c" "c < ?nc" using wf by (auto simp: csr_shape_def)
    then show "o2n ! nat c = index_of q c" by (rule o2n)
  qed
  have "concat rs = map ?g (concat (map (csr_row X) [0..?n - 1]))"
    unfolding rs_def by (simp add: map_concat comp_def)
  then have crs: "concat rs = map ?g (zip (indices X) (data X))"
    unfolding csr_rows_concat[OF wf] .
  have li: "length (indices X) = length (data X)" using l by simp
  have "map fst (map ?g (zip (indices X) (data X))) = map (index_of q) (map fst (zip (indices X) (data X)))"
    by (simp add: comp_def)
  moreover have "map snd (map ?g (zip (indices X) (data X))) = map snd (zip (indices X) (data X))"
    by (simp add: comp_def)
  ultimately have v: "map fst (concat rs) = map (index_of q) (indices X)" "map snd (concat rs) = data X"
    unfolding crs using li by simp_all
  have h: "holds_rows (map (index_of q) (indices X)) (data X) rs"
    using holds_rows_concat[of rs] unfolding v .
  have "map length rs = map length (map (csr_row X) [0..?n - 1])" by (simp add: rs_def comp_def)
  then have offs: "row_offsets rs = indptr X"
    using row_offsets_cong csr_rows_offsets[OF wf] by metis
  from sort_each_row_ok[OF srt h lrs[symmetric]] obtain ind' dat' where
    pass3: "sort_each_row srt ?n (indptr X) (map (index_of q) (indices X), data X) = Inr (ind', dat')"
    and h': "holds_rows ind' dat' (map (srt ?cmp) rs)" unfolding offs by blast
  note v' = holds_rows_vectors[OF h']
  have sl: "map length (map (srt ?cmp) rs) = map length rs"
    by (simp add: std_sort_length[OF srt swo_key_less] comp_def)
  have offs': "row_offsets (map (srt ?cmp) rs) = indptr X"
    using row_offsets_cong[OF sl] offs by simp
  have "length (concat rs) = CSR.nnz X" unfolding crs using l by simp
  then have T': "length (concat (map (srt ?cmp) rs)) = CSR.nnz X"
    using sl by (metis length_concat)
  have "permute_csr_cols srt X q = Inr \<lparr>nrows = ?n, ncols = ?nc, nnz = CSR.nnz X,
                 indptr = indptr X, indices = ind', data = dat'\<rparr>"
    unfolding permute_csr_cols_def using lq l pass1 pass2 pass3 ind by (simp add: vnew_ok)
  also have "\<lparr>nrows = ?n, ncols = ?nc, nnz = CSR.nnz X,
                 indptr = indptr X, indices = ind', data = dat'\<rparr>
      = csr_of_rows ?n ?nc (map (srt ?cmp) rs)"
    unfolding csr_of_rows_def using v' offs' T' by simp
  also have "map (srt ?cmp) rs = map (\<lambda>i. srt ?cmp (map ?g (csr_row X i))) [0..?n - 1]"
    by (simp add: rs_def)
  finally show ?thesis .
qed

lemma index_of_inj:
  assumes q: "is_perm n q" and c: "0 \<le> c" "c < n" "0 \<le> c'" "c' < n" "index_of q c = index_of q c'"
  shows "c = c'"
  using index_of_range(3)[OF q c(1,2)] index_of_range(3)[OF q c(3,4)] c(5) by metis

lemma col_permuted_rows_wf:
  fixes X :: "'a CSR"
  assumes swf: "csr_wf X" and srt: "std_sort_spec srt" and q: "is_perm (ncols X) q"
  shows "csr_wf (csr_of_rows (nrows X) (ncols X)
            (map (\<lambda>i. srt (\<lambda>a b. fst a < fst b) (map (\<lambda>e. (index_of q (fst e), snd e)) (csr_row X i)))
               [0..nrows X - 1]))"
proof (rule csr_of_rows_wf)
  note wf = csr_wf_shape[OF swf]
  let ?cmp = "\<lambda>(a :: int \<times> 'a) b. fst a < fst b"
  let ?g = "\<lambda>e :: int \<times> 'a. (index_of q (fst e), snd e)"
  show "0 \<le> nrows X" "0 \<le> ncols X" using csr_shape_lengths[OF wf] by auto
  show "length (map (\<lambda>i. srt ?cmp (map ?g (csr_row X i))) [0..nrows X - 1]) = nat (nrows X)"
    using csr_shape_lengths[OF wf] by simp
  show "\<forall>r \<in> set (map (\<lambda>i. srt ?cmp (map ?g (csr_row X i))) [0..nrows X - 1]).
     sorted_wrt (<) (map fst r) \<and> (\<forall>e \<in> set r. 0 \<le> fst e \<and> fst e < ncols X)"
  proof
    fix r assume "r \<in> set (map (\<lambda>i. srt ?cmp (map ?g (csr_row X i))) [0..nrows X - 1])"
    then obtain i where i: "0 \<le> i" "i < nrows X" and r: "r = srt ?cmp (map ?g (csr_row X i))" by auto
    note cols = csr_row_cols[OF wf i]
    have "inj_on (index_of q) (set (map fst (csr_row X i)))"
    proof (rule inj_onI)
      fix c c' assume "c \<in> set (map fst (csr_row X i))" "c' \<in> set (map fst (csr_row X i))"
        and e: "index_of q c = index_of q c'"
      then have "0 \<le> c" "c < ncols X" "0 \<le> c'" "c' < ncols X" using cols by auto
      then show "c = c'" using index_of_inj[OF q _ _ _ _ e] by simp
    qed
    then have "distinct (map (index_of q) (map fst (csr_row X i)))"
      using csr_row_distinct(2)[OF swf i] distinct_map[of "index_of q" "map fst (csr_row X i)"]
      by blast
    then have d: "distinct (map fst (map ?g (csr_row X i)))" by (simp add: comp_def)
    have "set r = set (map ?g (csr_row X i))"
      unfolding r by (rule std_sort_set[OF srt swo_key_less])
    then have "\<forall>e \<in> set r. 0 \<le> fst e \<and> fst e < ncols X"
      using cols index_of_range(1,2)[OF q] by auto
    then show "sorted_wrt (<) (map fst r) \<and> (\<forall>e \<in> set r. 0 \<le> fst e \<and> fst e < ncols X)"
      unfolding r using std_sort_strict[OF srt d] by simp
  qed
qed

lemma sorted_rows_of_sort:
  fixes f :: "int \<Rightarrow> (int \<times> 'a) list"
  assumes srt: "std_sort_spec srt" and nr: "0 \<le> nr" and nc: "0 \<le> nc"
    and cols: "\<And>i. 0 \<le> i \<Longrightarrow> i < nr \<Longrightarrow> \<forall>e \<in> set (f i). 0 \<le> fst e \<and> fst e < nc"
  shows "csr_sorted (csr_of_rows nr nc (map (\<lambda>i. srt (\<lambda>a b. fst a < fst b) (f i)) [0..nr - 1]))"
proof (rule csr_of_rows_sorted[OF nr nc])
  let ?cmp = "\<lambda>(a :: int \<times> 'a) b. fst a < fst b"
  show "length (map (\<lambda>i. srt ?cmp (f i)) [0..nr - 1]) = nat nr" using nr by simp
  show "\<forall>r \<in> set (map (\<lambda>i. srt ?cmp (f i)) [0..nr - 1]).
     sorted (map fst r) \<and> (\<forall>e \<in> set r. 0 \<le> fst e \<and> fst e < nc)"
  proof
    fix r assume "r \<in> set (map (\<lambda>i. srt ?cmp (f i)) [0..nr - 1])"
    then obtain i where i: "0 \<le> i" "i < nr" and r: "r = srt ?cmp (f i)" by auto
    have "set r = set (f i)" unfolding r by (rule std_sort_set[OF srt swo_key_less])
    then have "\<forall>e \<in> set r. 0 \<le> fst e \<and> fst e < nc" using cols[OF i] by simp
    then show "sorted (map fst r) \<and> (\<forall>e \<in> set r. 0 \<le> fst e \<and> fst e < nc)"
      unfolding r using std_sort_sorted_fst[OF srt, of "f i"] by simp
  qed
qed

lemma permuted_rows_sorted:
  fixes X :: "'a CSR"
  assumes wf: "csr_shape X" and srt: "std_sort_spec srt" and p: "is_perm (nrows X) p"
  shows "csr_sorted (csr_of_rows (nrows X) (ncols X)
            (map (\<lambda>i. srt (\<lambda>a b. fst a < fst b) (csr_row X (p ! nat i))) [0..nrows X - 1]))"
proof (rule sorted_rows_of_sort[OF srt])
  show "0 \<le> nrows X" "0 \<le> ncols X" using csr_shape_lengths[OF wf] by auto
  fix i assume i: "0 \<le> i" "i < nrows X"
  show "\<forall>e \<in> set (csr_row X (p ! nat i)). 0 \<le> fst e \<and> fst e < ncols X"
    by (rule csr_row_cols[OF wf is_perm_range[OF p i]])
qed

lemma unpermuted_rows_sorted:
  fixes X :: "'a CSR"
  assumes wf: "csr_shape X" and srt: "std_sort_spec srt" and p: "is_perm (nrows X) p"
  shows "csr_sorted (csr_of_rows (nrows X) (ncols X)
            (map (\<lambda>t. srt (\<lambda>a b. fst a < fst b) (csr_row X (index_of p t))) [0..nrows X - 1]))"
proof (rule sorted_rows_of_sort[OF srt])
  show "0 \<le> nrows X" "0 \<le> ncols X" using csr_shape_lengths[OF wf] by auto
  fix t assume t: "0 \<le> t" "t < nrows X"
  show "\<forall>e \<in> set (csr_row X (index_of p t)). 0 \<le> fst e \<and> fst e < ncols X"
    by (rule csr_row_cols[OF wf index_of_range(1,2)[OF p t]])
qed

lemma col_permuted_rows_sorted:
  fixes X :: "'a CSR"
  assumes wf: "csr_shape X" and srt: "std_sort_spec srt" and q: "is_perm (ncols X) q"
  shows "csr_sorted (csr_of_rows (nrows X) (ncols X)
            (map (\<lambda>i. srt (\<lambda>a b. fst a < fst b) (map (\<lambda>e. (index_of q (fst e), snd e)) (csr_row X i)))
               [0..nrows X - 1]))"
proof (rule sorted_rows_of_sort[OF srt])
  show "0 \<le> nrows X" "0 \<le> ncols X" using csr_shape_lengths[OF wf] by auto
  fix i assume i: "0 \<le> i" "i < nrows X"
  show "\<forall>e \<in> set (map (\<lambda>e. (index_of q (fst e), snd e)) (csr_row X i)). 0 \<le> fst e \<and> fst e < ncols X"
    using csr_row_cols[OF wf i] index_of_range(1,2)[OF q] by auto
qed

section \<open>Extracting the sub-block of a tile\<close>

lemma count_loop:
  fixes X :: "'a CSR"
  assumes wf: "csr_shape X" and i: "0 \<le> i" "i < nrows X"
  shows "for_each [indptr X ! nat i..indptr X ! nat (i + 1) - 1] (\<lambda>idx row_nnz.
                    rbind (vget (indices X) idx) (\<lambda>col.
                      if keep col then Inr (row_nnz + 1) else Inr row_nnz)) (0::int)
       = Inr (int (length (row_part keep f (csr_row X i))))"
proof -
  let ?lo = "indptr X ! nat i" and ?hi = "indptr X ! nat (i + 1)"
  let ?body = "\<lambda>idx (row_nnz::int).
                    rbind (vget (indices X) idx) (\<lambda>col.
                      if keep col then Inr (row_nnz + 1) else Inr row_nnz)"
  note p = csr_shape_ptr[OF wf i] and l = csr_shape_lengths[OF wf]
  have "\<exists>c. for_each [?lo..?hi - 1] ?body 0 = Inr c
      \<and> c = int (length (row_part keep f (take (nat (?hi - ?lo)) (csr_row X i))))"
  proof (rule for_range_inv[where I = "\<lambda>idx c. c = int (length (row_part keep f (take (nat (idx - ?lo)) (csr_row X i))))"])
    show "?lo \<le> ?hi" by (rule p)
    show "0 = int (length (row_part keep f (take (nat (?lo - ?lo)) (csr_row X i))))"
      by (simp add: row_part_Nil)
  next
    fix idx and c :: int
    assume idx: "?lo \<le> idx" "idx < ?hi"
      and c: "c = int (length (row_part keep f (take (nat (idx - ?lo)) (csr_row X i))))"
    have ib: "0 \<le> idx" "idx < int (CSR.nnz X)" using idx p by auto
    show "\<exists>s'. ?body idx c = Inr s'
        \<and> s' = int (length (row_part keep f (take (nat (idx + 1 - ?lo)) (csr_row X i))))"
      unfolding csr_row_take_Suc[OF wf i idx] row_part_append row_part_single
      using ib l c by (simp add: vget_ok)
  qed
  then show ?thesis by (simp add: csr_row_length[OF wf i])
qed

lemma tile_block_length:
  assumes "row_start tile \<le> row_end tile"
  shows "length (tile_block X tile) = nat (row_end tile - row_start tile)"
  using assms by (simp add: tile_block_def)

lemma tile_block_nth:
  assumes "row_start tile \<le> i" "i < row_end tile"
  shows "tile_block X tile ! nat (i - row_start tile)
       = row_part (\<lambda>c. c \<ge> col_start tile \<and> c < col_end tile) (\<lambda>c. c - col_start tile) (csr_row X i)"
  using assms by (simp add: tile_block_def)

lemma extract_count_pass:
  fixes rs :: "'e list list"
  assumes m: "hi - lo = int (length rs)"
    and body: "\<And>i ptr n. lo \<le> i \<Longrightarrow> i < hi \<Longrightarrow> length ptr = Suc (length rs) \<Longrightarrow>
        body i (ptr, n) = Inr (ptr[Suc (nat (i - lo)) := ptr ! nat (i - lo) + int (length (rs ! nat (i - lo)))],
                               n + length (rs ! nat (i - lo)))"
  shows "for_each [lo..hi - 1] body (replicate (nat (hi - lo + 1)) 0, 0)
       = Inr (row_offsets rs, length (concat rs))"
proof -
  let ?offs = "row_offsets rs"
  define I where "I = (\<lambda>i (st :: int list \<times> nat). case st of (ptr, n) \<Rightarrow>
      length ptr = Suc (length rs)
      \<and> (\<forall>k \<le> nat (i - lo). ptr ! k = ?offs ! k)
      \<and> (\<forall>k. nat (i - lo) < k \<and> k \<le> length rs \<longrightarrow> ptr ! k = 0)
      \<and> n = length (concat (take (nat (i - lo)) rs)))"
  have "\<exists>st. for_each [lo..hi - 1] body (replicate (nat (hi - lo + 1)) 0, 0) = Inr st \<and> I hi st"
  proof (rule for_range_inv)
    show "lo \<le> hi" using m by simp
    show "I lo (replicate (nat (hi - lo + 1)) 0, 0)"
      using m by (auto simp: I_def row_offsets_0 nat_add_distrib)
  next
    fix i and st :: "int list \<times> nat" assume i: "lo \<le> i" "i < hi" and inv: "I i st"
    obtain ptr n where st: "st = (ptr, n)" by (cases st)
    let ?t = "nat (i - lo)"
    have lp: "length ptr = Suc (length rs)" using inv by (simp add: I_def st)
    have t: "?t < length rs" using i m by auto
    have pi: "ptr ! ?t = ?offs ! ?t" using inv by (simp add: I_def st)
    have nn: "n = length (concat (take ?t rs))" using inv by (simp add: I_def st)
    have s1: "nat (i + 1 - lo) = Suc ?t" using i by auto
    let ?ptr' = "ptr[Suc ?t := ptr ! ?t + int (length (rs ! ?t))]"
    have "I (i + 1) (?ptr', n + length (rs ! ?t))"
      unfolding I_def s1
    proof (simp only: prod.case, intro conjI allI impI)
      show "length ?ptr' = Suc (length rs)" using lp by simp
    next
      fix k assume k: "k \<le> Suc ?t"
      show "?ptr' ! k = ?offs ! k"
      proof (cases "k = Suc ?t")
        case True
        then show ?thesis using lp t pi row_offsets_Suc[OF t] by simp
      next
        case False
        then have "k \<le> ?t" using k by auto
        then show ?thesis using inv False unfolding I_def st by simp
      qed
    next
      fix k assume k: "Suc ?t < k \<and> k \<le> length rs"
      then have "k \<noteq> Suc ?t" "?t < k" by auto
      then show "?ptr' ! k = 0" using inv k unfolding I_def st by simp
    next
      show "n + length (rs ! ?t) = length (concat (take (Suc ?t) rs))"
        using nn t by (simp add: take_Suc_conv_app_nth)
    qed
    then show "\<exists>s'. body i st = Inr s' \<and> I (i + 1) s'" using body[OF i lp, of n] st by simp
  qed
  then obtain ptr n where r: "for_each [lo..hi - 1] body (replicate (nat (hi - lo + 1)) 0, 0) = Inr (ptr, n)"
    "I hi (ptr, n)" by auto
  have "ptr = ?offs"
  proof (rule nth_equalityI)
    show "length ptr = length ?offs" using r(2) by (simp add: I_def)
  next
    fix k assume "k < length ptr"
    then have "k \<le> nat (hi - lo)" using r(2) m by (simp add: I_def)
    then show "ptr ! k = ?offs ! k" using r(2) unfolding I_def by simp
  qed
  moreover have "n = length (concat rs)" using r(2) m by (simp add: I_def)
  ultimately show ?thesis using r(1) by simp
qed

lemma extract_tile_csr_ok:
  fixes X :: "('a::zero) CSR"
  assumes wf: "csr_shape X"
    and tb: "0 \<le> row_start tile" "row_start tile \<le> row_end tile" "row_end tile \<le> nrows X"
  shows "extract_tile_csr X tile =
     Inr (csr_of_rows (row_end tile - row_start tile) (col_end tile - col_start tile) (tile_block X tile))"
proof -
  let ?r0 = "row_start tile" and ?r1 = "row_end tile" and ?c0 = "col_start tile" and ?c1 = "col_end tile"
  let ?m = "?r1 - ?r0"
  let ?keep = "\<lambda>c. c \<ge> ?c0 \<and> c < ?c1" and ?f = "\<lambda>c. c - ?c0"
  let ?rs = "tile_block X tile"
  note l = csr_shape_lengths[OF wf]
  have lrs: "?m = int (length ?rs)" using tb by (simp add: tile_block_length)
  let ?b1 = "\<lambda>i (X_tile_indptr, X_tile_nnz).
            let tile_row = i - ?r0
            in rbind (vget (indptr X) i) (\<lambda>row_start.
               rbind (vget (indptr X) (i + 1)) (\<lambda>row_end.
               rbind
                 (for_each [row_start..row_end - 1] (\<lambda>idx row_nnz.
                    rbind (vget (indices X) idx) (\<lambda>col.
                      if col \<ge> ?c0 \<and> col < ?c1
                      then Inr (row_nnz + 1) else Inr row_nnz)) 0)
                 (\<lambda>row_nnz.
                    rbind (vget X_tile_indptr tile_row) (\<lambda>prev.
                    rbind (vset X_tile_indptr (tile_row + 1) (prev + row_nnz)) (\<lambda>X_tile_indptr.
                      Inr (X_tile_indptr, X_tile_nnz + nat row_nnz))))))"
  have pass1: "for_each [?r0..?r1 - 1] ?b1 (replicate (nat (?m + 1)) 0, 0)
       = Inr (row_offsets ?rs, length (concat ?rs))"
  proof (rule extract_count_pass[OF lrs])
    fix i and ptr :: "int list" and n :: nat
    assume i: "?r0 \<le> i" "i < ?r1" and lptr: "length ptr = Suc (length ?rs)"
    have ii: "0 \<le> i" "i < nrows X" using i tb by auto
    have s1: "nat (i - ?r0 + 1) = Suc (nat (i - ?r0))" using i by auto
    show "?b1 i (ptr, n) = Inr (ptr[Suc (nat (i - ?r0)) := ptr ! nat (i - ?r0) + int (length (?rs ! nat (i - ?r0)))],
                               n + length (?rs ! nat (i - ?r0)))"
      using i ii l lptr lrs s1
      by (simp add: Let_def vget_ok vset_ok count_loop[OF wf ii, of ?keep ?f] tile_block_nth[OF i])
  qed
  let ?inner = "\<lambda>tile_row idx (write_ptr, X_tile_indices, X_tile_data).
                   rbind (vget (indices X) idx) (\<lambda>col.
                     if col \<ge> ?c0 \<and> col < ?c1
                     then
                       rbind (vget write_ptr tile_row) (\<lambda>dest.
                       rbind (vset write_ptr tile_row (dest + 1)) (\<lambda>write_ptr.
                       rbind (vset X_tile_indices dest (col - ?c0)) (\<lambda>X_tile_indices.
                       rbind (vget (data X) idx) (\<lambda>v.
                       rbind (vset X_tile_data dest v) (\<lambda>X_tile_data.
                         Inr (write_ptr, X_tile_indices, X_tile_data))))))
                     else Inr (write_ptr, X_tile_indices, X_tile_data))"
  let ?b2 = "\<lambda>i (write_ptr, X_tile_indices, X_tile_data).
            let tile_row = i - ?r0
            in rbind (vget (indptr X) i) (\<lambda>row_start.
               rbind (vget (indptr X) (i + 1)) (\<lambda>row_end.
                 for_each [row_start..row_end - 1] (?inner tile_row)
                   (write_ptr, X_tile_indices, X_tile_data)))"
  let ?T = "length (concat ?rs)"
  have "\<exists>wp ind dat.
      for_each [?r0..?r1 - 1] ?b2 (row_offsets ?rs, replicate ?T 0, replicate ?T 0) = Inr (wp, ind, dat)
    \<and> length ind = length (concat ?rs) \<and> length dat = length (concat ?rs)
    \<and> (\<forall>i. ?r0 \<le> i \<and> i < ?r1 \<longrightarrow>
          (\<forall>k < length (?rs ! nat (i - ?r0)).
              ind ! (nat (row_offsets ?rs ! nat (i - ?r0)) + k) = fst (?rs ! nat (i - ?r0) ! k)
            \<and> dat ! (nat (row_offsets ?rs ! nat (i - ?r0)) + k) = snd (?rs ! nat (i - ?r0) ! k)))"
  proof (rule copy_rows[where s = "\<lambda>i. i" and t = "\<lambda>i. i - ?r0" and keep = ?keep and f = ?f
        and inner = "\<lambda>i. ?inner (i - ?r0)", OF wf])
    show "?r0 \<le> ?r1" by (rule tb)
  next
    fix i assume i: "?r0 \<le> i" "i < ?r1"
    show "0 \<le> i \<and> i < nrows X \<and> 0 \<le> i - ?r0 \<and> nat (i - ?r0) < length ?rs
        \<and> row_part ?keep ?f (csr_row X i) = ?rs ! nat (i - ?r0)"
      using i tb lrs tile_block_nth[OF i, of X] by auto
  next
    show "length (replicate ?T (0::int)) = length (concat ?rs)"
         "length (replicate ?T (0::'a)) = length (concat ?rs)" by simp_all
  next
    fix i and st :: "int list \<times> int list \<times> 'a list" assume i: "?r0 \<le> i" "i < ?r1"
    have ii: "0 \<le> i" "i < nrows X" using i tb by auto
    show "?b2 i st = for_each [indptr X ! nat i..indptr X ! nat (i + 1) - 1] (?inner (i - ?r0)) st"
      using ii l by (cases st) (simp add: vget_ok Let_def)
  next
    fix i idx and wp ind :: "int list" and dat :: "'a list"
    assume i: "?r0 \<le> i" "i < ?r1"
      and idx: "indptr X ! nat i \<le> idx" "idx < indptr X ! nat (i + 1)"
      and lens: "length wp = Suc (length ?rs)" "length ind = length (concat ?rs)" "length dat = length (concat ?rs)"
      and dest: "?keep (indices X ! nat idx) \<longrightarrow> 0 \<le> wp ! nat (i - ?r0) \<and> wp ! nat (i - ?r0) < int (length (concat ?rs))"
    have ii: "0 \<le> i" "i < nrows X" using i tb by auto
    note pp = csr_shape_ptr[OF wf ii]
    have ib: "0 \<le> idx" "idx < int (CSR.nnz X)" using idx pp by auto
    have t: "0 \<le> i - ?r0" "i - ?r0 < int (length wp)" using i lens lrs by auto
    show "?inner (i - ?r0) idx (wp, ind, dat) = Inr (copy_step ?keep ?f X (i - ?r0) idx (wp, ind, dat))"
      using t lens dest ib l by (simp add: copy_step_def vget_ok vset_ok)
  qed simp
  then obtain wp ind dat where
    pass2: "for_each [?r0..?r1 - 1] ?b2 (row_offsets ?rs, replicate ?T 0, replicate ?T 0) = Inr (wp, ind, dat)"
    and l2: "length ind = length (concat ?rs)" "length dat = length (concat ?rs)"
    and sl: "\<And>i k. ?r0 \<le> i \<Longrightarrow> i < ?r1 \<Longrightarrow> k < length (?rs ! nat (i - ?r0)) \<Longrightarrow>
              ind ! (nat (row_offsets ?rs ! nat (i - ?r0)) + k) = fst (?rs ! nat (i - ?r0) ! k)
            \<and> dat ! (nat (row_offsets ?rs ! nat (i - ?r0)) + k) = snd (?rs ! nat (i - ?r0) ! k)"
    by blast
  have h: "holds_rows ind dat ?rs"
  proof (rule holds_rowsI[OF l2])
    fix t k assume t: "t < length ?rs" and k: "k < length (?rs ! t)"
    have "?r0 \<le> ?r0 + int t" "?r0 + int t < ?r1" "nat (?r0 + int t - ?r0) = t" using t lrs by auto
    then show "ind ! (nat (row_offsets ?rs ! t) + k) = fst (?rs ! t ! k) \<and>
        dat ! (nat (row_offsets ?rs ! t) + k) = snd (?rs ! t ! k)"
      using sl[of "?r0 + int t" k] k by simp
  qed
  note v = holds_rows_vectors[OF h]
  have m0: "0 \<le> ?m + 1" using tb by simp
  have "extract_tile_csr X tile = Inr \<lparr>nrows = ?m, ncols = ?c1 - ?c0, nnz = ?T,
                 indptr = row_offsets ?rs, indices = ind, data = dat\<rparr>"
    unfolding extract_tile_csr_def Let_def using m0 pass1 pass2 by (simp add: vnew_ok Let_def)
  also have "\<lparr>nrows = ?m, ncols = ?c1 - ?c0, nnz = ?T,
                 indptr = row_offsets ?rs, indices = ind, data = dat\<rparr>
      = csr_of_rows ?m (?c1 - ?c0) ?rs"
    unfolding csr_of_rows_def using v by simp
  finally show ?thesis .
qed

lemma row_part_sorted:
  assumes "sorted_wrt (<) (map fst r)"
  shows "sorted_wrt (<) (map fst (row_part keep (\<lambda>c. c - c0) r))"
proof -
  have "map fst (row_part keep (\<lambda>c. c - c0) r) = map (\<lambda>c. c - c0) (filter keep (map fst r))"
    by (simp add: row_part_def filter_map comp_def)
  moreover have "sorted_wrt (<) (filter keep (map fst r))"
    using assms by (rule sorted_wrt_filter)
  ultimately show ?thesis by (simp add: sorted_wrt_map)
qed

lemma row_part_sorted_le:
  assumes "sorted (map fst r)"
  shows "sorted (map fst (row_part keep (\<lambda>c. c - c0) r))"
proof -
  have "map fst (row_part keep (\<lambda>c. c - c0) r) = map (\<lambda>c. c - c0) (filter keep (map fst r))"
    by (simp add: row_part_def filter_map comp_def)
  moreover have "sorted (filter keep (map fst r))"
    using assms by (rule sorted_wrt_filter)
  ultimately show ?thesis by (simp add: sorted_wrt_map)
qed

lemma tile_block_wf:
  fixes X :: "'a CSR"
  assumes swf: "csr_wf X" and tb: "tile_in_bounds X tile"
  shows "csr_wf (csr_of_rows (row_end tile - row_start tile) (col_end tile - col_start tile)
                   (tile_block X tile))"
proof (rule csr_of_rows_wf)
  let ?keep = "\<lambda>c. c \<ge> col_start tile \<and> c < col_end tile" and ?f = "\<lambda>c. c - col_start tile"
  show "0 \<le> row_end tile - row_start tile" "0 \<le> col_end tile - col_start tile"
    using tb by (auto simp: tile_in_bounds_def)
  show "length (tile_block X tile) = nat (row_end tile - row_start tile)"
    using tb by (simp add: tile_block_length tile_in_bounds_def)
  show "\<forall>r \<in> set (tile_block X tile).
     sorted_wrt (<) (map fst r) \<and> (\<forall>e \<in> set r. 0 \<le> fst e \<and> fst e < col_end tile - col_start tile)"
  proof
    fix r assume "r \<in> set (tile_block X tile)"
    then obtain i where i: "row_start tile \<le> i" "i < row_end tile"
      and r: "r = row_part ?keep ?f (csr_row X i)"
      by (auto simp: tile_block_def)
    have ii: "0 \<le> i" "i < nrows X" using i tb by (auto simp: tile_in_bounds_def)
    have "sorted_wrt (<) (map fst r)"
      unfolding r using csr_row_distinct(1)[OF swf ii] by (rule row_part_sorted)
    moreover have "\<forall>e \<in> set r. 0 \<le> fst e \<and> fst e < col_end tile - col_start tile"
      unfolding r by (auto simp: row_part_def)
    ultimately show "sorted_wrt (<) (map fst r) \<and> (\<forall>e \<in> set r. 0 \<le> fst e \<and> fst e < col_end tile - col_start tile)"
      by simp
  qed
qed

lemma tile_block_sorted:
  fixes X :: "'a CSR"
  assumes s: "csr_sorted X" and tb: "tile_in_bounds X tile"
  shows "csr_sorted (csr_of_rows (row_end tile - row_start tile) (col_end tile - col_start tile)
                   (tile_block X tile))"
proof (rule csr_of_rows_sorted)
  let ?keep = "\<lambda>c. c \<ge> col_start tile \<and> c < col_end tile" and ?f = "\<lambda>c. c - col_start tile"
  show "0 \<le> row_end tile - row_start tile" "0 \<le> col_end tile - col_start tile"
    using tb by (auto simp: tile_in_bounds_def)
  show "length (tile_block X tile) = nat (row_end tile - row_start tile)"
    using tb by (simp add: tile_block_length tile_in_bounds_def)
  show "\<forall>r \<in> set (tile_block X tile).
     sorted (map fst r) \<and> (\<forall>e \<in> set r. 0 \<le> fst e \<and> fst e < col_end tile - col_start tile)"
  proof
    fix r assume "r \<in> set (tile_block X tile)"
    then obtain i where i: "row_start tile \<le> i" "i < row_end tile"
      and r: "r = row_part ?keep ?f (csr_row X i)"
      by (auto simp: tile_block_def)
    have ii: "0 \<le> i" "i < nrows X" using i tb by (auto simp: tile_in_bounds_def)
    have "sorted (map fst (csr_row X i))" using s ii by (auto simp: csr_sorted_def)
    then have "sorted (map fst r)" unfolding r by (rule row_part_sorted_le)
    moreover have "\<forall>e \<in> set r. 0 \<le> fst e \<and> fst e < col_end tile - col_start tile"
      unfolding r by (auto simp: row_part_def)
    ultimately show "sorted (map fst r) \<and> (\<forall>e \<in> set r. 0 \<le> fst e \<and> fst e < col_end tile - col_start tile)"
      by simp
  qed
qed

section \<open>The tile grid and its counts\<close>









































section \<open>The tile loop of the driver\<close>

lemma sum_list_zeros: "(\<And>x. x \<in> set xs \<Longrightarrow> f x = (0::'a::monoid_add)) \<Longrightarrow> sum_list (map f xs) = 0"
  by (induction xs) simp_all

lemma tile_dot_outside:
  assumes "\<not> (row_start t \<le> i \<and> i < row_end t)"
  shows "tile_dot X W N t i j = 0"
  unfolding tile_dot_def using assms by (intro sum_list_zeros) (auto simp: in_tile_def)

lemma tile_block_row_dot:
  fixes X :: "('a::semiring_0) CSR"
  assumes tb: "tile_in_bounds X t"
    and Wt: "is_mat Wt (col_end t - col_start t) N (\<lambda>i j. W ! nat ((col_start t + i) * N + j))"
    and i: "0 \<le> i" "i < row_end t - row_start t" and j: "0 \<le> j" "j < N"
  shows "row_dot (csr_of_rows (row_end t - row_start t) (col_end t - col_start t) (tile_block X t)) Wt N i j
       = tile_dot X W N t (row_start t + i) j"
proof -
  let ?cs = "col_start t" and ?ce = "col_end t" and ?g = "row_start t + i"
  let ?keep = "\<lambda>e :: int \<times> 'a. fst e \<ge> ?cs \<and> fst e < ?ce"
  have il: "nat i < length (tile_block X t)" using i by (simp add: tile_block_def)
  have g: "row_start t \<le> ?g" "?g < row_end t" using i by auto
  have row: "csr_row (csr_of_rows (row_end t - row_start t) (col_end t - col_start t) (tile_block X t)) i
           = map (\<lambda>e. (fst e - ?cs, snd e)) (filter ?keep (csr_row X ?g))"
    unfolding csr_row_of_rows[OF i(1) il] using tile_block_nth[OF g, of X] by (simp add: row_part_def)
  have "row_dot (csr_of_rows (row_end t - row_start t) (col_end t - col_start t) (tile_block X t)) Wt N i j
      = (\<Sum>e \<leftarrow> filter ?keep (csr_row X ?g). snd e * Wt ! nat ((fst e - ?cs) * N + j))"
    unfolding row_dot_def row by (simp add: comp_def)
  also have "\<dots> = (\<Sum>e \<leftarrow> filter ?keep (csr_row X ?g). snd e * W ! nat (fst e * N + j))"
  proof (rule arg_cong[where f = sum_list], rule map_cong[OF refl])
    fix e assume "e \<in> set (filter ?keep (csr_row X ?g))"
    then have "0 \<le> fst e - ?cs" "fst e - ?cs < ?ce - ?cs" by auto
    then have "Wt ! nat ((fst e - ?cs) * N + j) = W ! nat ((?cs + (fst e - ?cs)) * N + j)"
      using Wt j unfolding is_mat_def by blast
    then show "snd e * Wt ! nat ((fst e - ?cs) * N + j) = snd e * W ! nat (fst e * N + j)" by simp
  qed
  also have "\<dots> = (\<Sum>e \<leftarrow> csr_row X ?g. if ?keep e then snd e * W ! nat (fst e * N + j) else 0)"
    by (rule sum_list_map_filter')
  also have "\<dots> = tile_dot X W N t ?g j"
    unfolding tile_dot_def using g by (intro arg_cong[where f = sum_list] map_cong) (auto simp: in_tile_def)
  finally show ?thesis .
qed

lemma tile_block_result:
  fixes X :: "('a::semiring_0) CSR"
  assumes swf: "csr_wf X" and srt: "std_sort_spec srt" and N: "0 \<le> N"
    and W: "length W = nat (ncols X * N)" and tb: "tile_in_bounds X t"
  shows "\<exists>Xt Wt Yt. extract_tile_csr X t = Inr Xt \<and> extract_tile_W W (ncols X) N t = Inr Wt \<and>
     dense_perm_spmm_tile srt Xt Wt (col_end t - col_start t) N = Inr Yt \<and>
     sparse_spmm_tile Xt Wt (col_end t - col_start t) N = Inr Yt \<and>
     is_mat Yt (row_end t - row_start t) N (\<lambda>i j. tile_dot X W N t (row_start t + i) j)"
proof -
  note wf = csr_wf_shape[OF swf]
  let ?m = "row_end t - row_start t" and ?k = "col_end t - col_start t"
  let ?Xt = "csr_of_rows ?m ?k (tile_block X t)"
  have b: "0 \<le> row_start t" "row_start t \<le> row_end t" "row_end t \<le> nrows X"
    "0 \<le> col_start t" "col_start t \<le> col_end t" "col_end t \<le> ncols X"
    using tb by (auto simp: tile_in_bounds_def)
  have Xt: "extract_tile_csr X t = Inr ?Xt" by (rule extract_tile_csr_ok[OF wf b(1-3)])
  have wft: "csr_wf ?Xt" by (rule tile_block_wf[OF swf tb])
  from extract_tile_W_ok[OF N W b(4-6)] obtain Wt where
    Wt: "extract_tile_W W (ncols X) N t = Inr Wt"
        "is_mat Wt ?k N (\<lambda>i j. W ! nat ((col_start t + i) * N + j))" by blast
  have lWt: "length Wt = nat (ncols ?Xt * N)" using Wt(2) by (simp add: is_mat_def)
  from dense_perm_spmm_tile_ok[OF wft srt N lWt] obtain Y where
    Y: "dense_perm_spmm_tile srt ?Xt Wt ?k N = Inr Y"
       "is_mat Y ?m N (row_dot ?Xt Wt N)" by auto
  have "int (length Wt) = ?k * N" using lWt b N by simp
  from spmm_baseline_ok[OF csr_wf_shape[OF wft] N _ this] obtain Y' where
    Y': "spmm_baseline ?Xt Wt ?k N = Inr Y'"
        "is_mat Y' ?m N (row_dot ?Xt Wt N)"
    by (auto simp: is_mat_def)
  have m0: "0 \<le> ?m" using b by simp
  have "Y = Y'" by (rule mat_eqI[OF Y(2) Y'(2) m0 N])
  moreover have "is_mat Y ?m N (\<lambda>i j. tile_dot X W N t (row_start t + i) j)"
    by (rule is_mat_cong[OF Y(2)]) (rule tile_block_row_dot[OF tb Wt(2)])
  ultimately show ?thesis using Xt Wt(1) Y(1) Y'(1) by (simp add: sparse_spmm_tile_def)
qed


lemma accumulate_tile:
  fixes Y :: "('a::semiring_0) list"
  assumes N: "0 \<le> N" and lenY: "length Y = nat (M * N)"
    and r: "0 \<le> rs" "rs \<le> re" "re \<le> M"
    and Yt: "is_mat Yt (re - rs) N G"
  shows "\<exists>Y'. for_each [0..(re - rs) - 1] (\<lambda>i Y.
                 let global_row = rs + i
                 in for_each [0..N - 1] (\<lambda>j Y.
                      rbind (vget Y (global_row * N + j)) (\<lambda>y.
                      rbind (vget Yt (i * N + j)) (\<lambda>y_tile.
                        vset Y (global_row * N + j) (y + y_tile)))) Y) Y = Inr Y'
           \<and> length Y' = length Y
           \<and> (\<forall>i j. 0 \<le> i \<and> i < M \<and> 0 \<le> j \<and> j < N \<longrightarrow>
                 Y' ! nat (i * N + j) =
                 Y ! nat (i * N + j) + (if rs \<le> i \<and> i < re then G (i - rs) j else 0))"
proof -
  let ?R = "re - rs"
  let ?inner = "\<lambda>i j Y. rbind (vget Y ((rs + i) * N + j)) (\<lambda>y.
                      rbind (vget Yt (i * N + j)) (\<lambda>y_tile.
                        vset Y ((rs + i) * N + j) (y + y_tile)))"
  have R: "0 \<le> ?R" using r by simp
  have "\<exists>Y'. for_each [0..?R - 1] (\<lambda>i Y. for_each [0..N - 1] (?inner i) Y) Y = Inr Y'
           \<and> length Y' = length Y
           \<and> (\<forall>i j. 0 \<le> i \<and> i < ?R \<and> 0 \<le> j \<and> j < N \<longrightarrow>
                  Y' ! nat ((rs + i) * N + j) = Y ! nat ((rs + i) * N + j) + G i j)
           \<and> (\<forall>q. (\<forall>i. 0 \<le> i \<and> i < ?R \<longrightarrow> q < nat ((rs + i) * N) \<or> nat ((rs + i) * N + N) \<le> q)
                  \<longrightarrow> Y' ! q = Y ! q)"
  proof (rule fill_rows_gen[where g = "\<lambda>i. rs + i" and H = "\<lambda>i j y. y + G i j", OF N R lenY])
    fix i assume "0 \<le> i" "i < ?R"
    then show "0 \<le> rs + i \<and> rs + i < M" using r by auto
  next
    fix i i' :: int assume "rs + i = rs + i'"
    then show "i = i'" by simp
  next
    fix i j and Y1 :: "'a list"
    assume i: "0 \<le> i" "i < ?R" and j: "0 \<le> j" "j < N" and l1: "length Y1 = length Y"
    have g: "0 \<le> rs + i" "rs + i < M" using i r by auto
    have a: "0 \<le> (rs + i) * N + j" "(rs + i) * N + j < M * N"
      using rm_nonneg[OF g(1) j(1) N] rm_less[OF g j] by auto
    have b: "0 \<le> i * N + j" "i * N + j < ?R * N"
      using rm_nonneg[OF i(1) j(1) N] rm_less[OF i j] by auto
    have lt: "length Yt = nat (?R * N)" using Yt by (simp add: is_mat_def)
    have v: "Yt ! nat (i * N + j) = G i j" using Yt i j unfolding is_mat_def by blast
    show "?inner i j Y1 = Inr (Y1[nat ((rs + i) * N + j) := Y1 ! nat ((rs + i) * N + j) + G i j])"
      using a b l1 lenY lt v by (simp add: vget_ok vset_ok)
  qed
  then obtain Y' where
    Y': "for_each [0..?R - 1] (\<lambda>i Y. for_each [0..N - 1] (?inner i) Y) Y = Inr Y'"
        "length Y' = length Y"
    and inside: "\<And>i j. 0 \<le> i \<Longrightarrow> i < ?R \<Longrightarrow> 0 \<le> j \<Longrightarrow> j < N \<Longrightarrow>
                  Y' ! nat ((rs + i) * N + j) = Y ! nat ((rs + i) * N + j) + G i j"
    and outside: "\<And>q. (\<forall>i. 0 \<le> i \<and> i < ?R \<longrightarrow> q < nat ((rs + i) * N) \<or> nat ((rs + i) * N + N) \<le> q)
                  \<Longrightarrow> Y' ! q = Y ! q"
    by blast
  have "Y' ! nat (i * N + j) = Y ! nat (i * N + j) + (if rs \<le> i \<and> i < re then G (i - rs) j else 0)"
    if ij: "0 \<le> i" "i < M" "0 \<le> j" "j < N" for i j
  proof (cases "rs \<le> i \<and> i < re")
    case True
    then have "0 \<le> i - rs" "i - rs < ?R" by auto
    from inside[OF this ij(3,4)] show ?thesis using True by simp
  next
    case False
    have "Y' ! nat (i * N + j) = Y ! nat (i * N + j)"
    proof (rule outside, intro allI impI)
      fix i' assume i': "0 \<le> i' \<and> i' < ?R"
      then have "i \<noteq> rs + i'" using False by auto
      then show "nat (i * N + j) < nat ((rs + i') * N) \<or> nat ((rs + i') * N + N) \<le> nat (i * N + j)"
        using rm_row_disjoint[of i "rs + i'" j N] ij i' r by auto
    qed
    then show ?thesis using False by auto
  qed
  then show ?thesis using Y' unfolding Let_def by blast
qed

lemma process_tile_step:
  fixes X :: "('a::semiring_0) CSR"
  assumes swf: "csr_wf X" and srt: "std_sort_spec srt" and N: "0 \<le> N"
    and W: "length W = nat (ncols X * N)" and tb: "tile_in_bounds X tile"
    and Y: "is_mat (Y_final st) (nrows X) N F"
  shows "\<exists>st'.
          rbind (extract_tile_csr X tile) (\<lambda>X_tile.
            rbind (extract_tile_W W (ncols X) N tile) (\<lambda>W_tile.
            let W_tile_rows = col_end tile - col_start tile
            in
            rbind
              (if density tile \<ge> DENSE_TILE_THRESHOLD
               then rbind (dense_perm_spmm_tile srt X_tile W_tile W_tile_rows N)
                      (\<lambda>Y_tile. Inr (Y_tile, Suc (cpu_dense_tiles st)))
               else rbind (sparse_spmm_tile X_tile W_tile W_tile_rows N)
                      (\<lambda>Y_tile. Inr (Y_tile, cpu_dense_tiles st)))
              (\<lambda>(Y_tile, dense_tiles).
            let tile_rows = row_end tile - row_start tile
            in
            rbind
              (for_each [0..tile_rows - 1] (\<lambda>i Y.
                 let global_row = row_start tile + i
                 in for_each [0..N - 1] (\<lambda>j Y.
                      rbind (vget Y (global_row * N + j)) (\<lambda>y.
                      rbind (vget Y_tile (i * N + j)) (\<lambda>y_tile.
                        vset Y (global_row * N + j) (y + y_tile)))) Y) (Y_final st))
              (\<lambda>Y. Inr \<lparr>Y_final = Y, total_nnz = total_nnz st + CSR.nnz X_tile,
                         cpu_dense_tiles = dense_tiles\<rparr>)))) = Inr st'
        \<and> is_mat (Y_final st') (nrows X) N (\<lambda>i j. F i j + tile_dot X W N tile i j)
        \<and> cpu_dense_tiles st' =
            cpu_dense_tiles st + (if density tile \<ge> DENSE_TILE_THRESHOLD then 1 else 0)"
proof -
  note wf = csr_wf_shape[OF swf]
  from tile_block_result[OF swf srt N W tb] obtain Xt Wt Yt where
    Xt: "extract_tile_csr X tile = Inr Xt" and Wt: "extract_tile_W W (ncols X) N tile = Inr Wt"
    and d: "dense_perm_spmm_tile srt Xt Wt (col_end tile - col_start tile) N = Inr Yt"
    and s: "sparse_spmm_tile Xt Wt (col_end tile - col_start tile) N = Inr Yt"
    and Yt: "is_mat Yt (row_end tile - row_start tile) N (\<lambda>i j. tile_dot X W N tile (row_start tile + i) j)"
    by blast
  have b: "0 \<le> row_start tile" "row_start tile \<le> row_end tile" "row_end tile \<le> nrows X"
    using tb by (auto simp: tile_in_bounds_def)
  have lY: "length (Y_final st) = nat (nrows X * N)" using Y by (simp add: is_mat_def)
  from accumulate_tile[OF N lY b Yt] obtain Y' where
    acc: "for_each [0..(row_end tile - row_start tile) - 1] (\<lambda>i Y.
                 let global_row = row_start tile + i
                 in for_each [0..N - 1] (\<lambda>j Y.
                      rbind (vget Y (global_row * N + j)) (\<lambda>y.
                      rbind (vget Yt (i * N + j)) (\<lambda>y_tile.
                        vset Y (global_row * N + j) (y + y_tile)))) Y) (Y_final st) = Inr Y'"
    and lY': "length Y' = length (Y_final st)"
    and val: "\<And>i j. 0 \<le> i \<Longrightarrow> i < nrows X \<Longrightarrow> 0 \<le> j \<Longrightarrow> j < N \<Longrightarrow>
                 Y' ! nat (i * N + j) =
                 Y_final st ! nat (i * N + j) +
                 (if row_start tile \<le> i \<and> i < row_end tile
                  then tile_dot X W N tile (row_start tile + (i - row_start tile)) j else 0)"
    by blast
  have m: "is_mat Y' (nrows X) N (\<lambda>i j. F i j + tile_dot X W N tile i j)"
  proof (rule is_mat_fill)
    show "length Y' = nat (nrows X * N)" using lY' lY by simp
    show "\<forall>i j. 0 \<le> i \<and> i < nrows X \<and> 0 \<le> j \<and> j < N \<longrightarrow>
            Y' ! nat (i * N + j) = F i j + tile_dot X W N tile i j"
    proof (intro allI impI)
      fix i j assume ij: "0 \<le> i \<and> i < nrows X \<and> 0 \<le> j \<and> j < N"
      then have "Y_final st ! nat (i * N + j) = F i j" using Y unfolding is_mat_def by blast
      moreover have "(if row_start tile \<le> i \<and> i < row_end tile
                    then tile_dot X W N tile (row_start tile + (i - row_start tile)) j else 0)
                   = tile_dot X W N tile i j"
        using tile_dot_outside[of tile i X W N j] by simp
      ultimately show "Y' ! nat (i * N + j) = F i j + tile_dot X W N tile i j"
        using val[of i j] ij by simp
    qed
  qed
  show ?thesis
    using m unfolding Xt Wt Let_def by (simp add: d s acc[unfolded Let_def])
qed


lemma process_tiles_loop_ok:
  fixes X :: "('a::semiring_0) CSR"
  assumes swf: "csr_wf X" and srt: "std_sort_spec srt" and N: "0 \<le> N"
    and W: "length W = nat (ncols X * N)" and tb: "\<forall>t \<in> set tiles. tile_in_bounds X t"
  shows "\<exists>st. process_tiles_loop srt X W (ncols X) N tiles = Inr st \<and>
           is_mat (Y_final st) (nrows X) N (\<lambda>i j. \<Sum>t \<leftarrow> tiles. tile_dot X W N t i j) \<and>
           cpu_dense_tiles st = length (filter (\<lambda>t. density t \<ge> DENSE_TILE_THRESHOLD) tiles)"
proof -
  note wf = csr_wf_shape[OF swf]
  let ?M = "nrows X"
  let ?body = "\<lambda>tile st.
            rbind (extract_tile_csr X tile) (\<lambda>X_tile.
            rbind (extract_tile_W W (ncols X) N tile) (\<lambda>W_tile.
            let W_tile_rows = col_end tile - col_start tile
            in
            rbind
              (if density tile \<ge> DENSE_TILE_THRESHOLD
               then rbind (dense_perm_spmm_tile srt X_tile W_tile W_tile_rows N)
                      (\<lambda>Y_tile. Inr (Y_tile, Suc (cpu_dense_tiles st)))
               else rbind (sparse_spmm_tile X_tile W_tile W_tile_rows N)
                      (\<lambda>Y_tile. Inr (Y_tile, cpu_dense_tiles st)))
              (\<lambda>(Y_tile, dense_tiles).
            let tile_rows = row_end tile - row_start tile
            in
            rbind
              (for_each [0..tile_rows - 1] (\<lambda>i Y.
                 let global_row = row_start tile + i
                 in for_each [0..N - 1] (\<lambda>j Y.
                      rbind (vget Y (global_row * N + j)) (\<lambda>y.
                      rbind (vget Y_tile (i * N + j)) (\<lambda>y_tile.
                        vset Y (global_row * N + j) (y + y_tile)))) Y) (Y_final st))
              (\<lambda>Y. Inr \<lparr>Y_final = Y, total_nnz = total_nnz st + CSR.nnz X_tile,
                         cpu_dense_tiles = dense_tiles\<rparr>))))"
  let ?st0 = "\<lparr>Y_final = replicate (nat (?M * N)) (0::'a), total_nnz = 0, cpu_dense_tiles = 0\<rparr>"
  define I where "I = (\<lambda>k (st :: 'a driver_state).
      is_mat (Y_final st) ?M N (\<lambda>i j. \<Sum>t \<leftarrow> take k tiles. tile_dot X W N t i j) \<and>
      cpu_dense_tiles st = length (filter (\<lambda>t. density t \<ge> DENSE_TILE_THRESHOLD) (take k tiles)))"
  have M: "0 \<le> ?M" using csr_shape_lengths[OF wf] by simp
  have "\<exists>st. for_each tiles ?body ?st0 = Inr st \<and> I (length tiles) st"
  proof (rule for_each_inv)
    have "replicate (nat (?M * N)) (0::'a) ! nat (i * N + j) = 0"
      if "0 \<le> i" "i < ?M" "0 \<le> j" "j < N" for i j
    proof -
      have "i * N + j < ?M * N" by (rule rm_less[OF that])
      moreover have "0 \<le> i * N + j" by (rule rm_nonneg[OF that(1,3) N])
      ultimately have "nat (i * N + j) < nat (?M * N)" by linarith
      then show ?thesis by simp
    qed
    then show "I 0 ?st0" by (simp add: I_def is_mat_def)
  next
    fix k and st :: "'a driver_state"
    assume k: "k < length tiles" and inv: "I k st"
    have tbk: "tile_in_bounds X (tiles ! k)" using tb k by simp
    have inv1: "is_mat (Y_final st) ?M N (\<lambda>i j. \<Sum>t \<leftarrow> take k tiles. tile_dot X W N t i j)"
      and inv2: "cpu_dense_tiles st
                 = length (filter (\<lambda>t. density t \<ge> DENSE_TILE_THRESHOLD) (take k tiles))"
      using inv by (simp_all add: I_def)
    from process_tile_step[OF swf srt N W tbk inv1]
    obtain st' where st': "?body (tiles ! k) st = Inr st'"
      and m: "is_mat (Y_final st') ?M N
                (\<lambda>i j. (\<Sum>t \<leftarrow> take k tiles. tile_dot X W N t i j) + tile_dot X W N (tiles ! k) i j)"
      and c: "cpu_dense_tiles st' =
            cpu_dense_tiles st + (if density (tiles ! k) \<ge> DENSE_TILE_THRESHOLD then 1 else 0)"
      by blast
    have "I (Suc k) st'"
      unfolding I_def take_Suc_conv_app_nth[OF k] using m c inv2 by simp
    then show "\<exists>s'. ?body (tiles ! k) st = Inr s' \<and> I (Suc k) s'" using st' by blast
  qed
  then obtain st where st: "for_each tiles ?body ?st0 = Inr st" "I (length tiles) st" by blast
  have MN: "\<not> ?M * N < 0" using M N by (simp add: not_less)
  have "process_tiles_loop srt X W (ncols X) N tiles = Inr st"
    unfolding process_tiles_loop_def Let_def using MN st(1)[unfolded Let_def]
    by (simp add: vnew_def)
  then show ?thesis using st(2) by (simp add: I_def)
qed










section \<open>The tiling scenario\<close>

lemma scenario_tiles:
  "make_2d_tiles scenario_X \<lparr>tile_rows = 2, tile_cols = 2\<rparr> =
     Inr [\<lparr>row_start = 0, row_end = 2, col_start = 0, col_end = 2, nnz = 2, is_dense = False\<rparr>,
          \<lparr>row_start = 0, row_end = 2, col_start = 2, col_end = 4, nnz = 1, is_dense = False\<rparr>,
          \<lparr>row_start = 2, row_end = 4, col_start = 0, col_end = 2, nnz = 1, is_dense = False\<rparr>,
          \<lparr>row_start = 2, row_end = 4, col_start = 2, col_end = 4, nnz = 2, is_dense = False\<rparr>]"
  by (simp add: make_2d_tiles_def scenario_X_def rbind_def vget_def vset_def upto_rec1
      signed_divide_int_def)

text \<open>
  C9, as the code has it: on the 4\<times>4 scenario matrix, tiled 2\<times>2, \<open>make_2d_tiles\<close> returns
  exactly four tiles; their nonzero counts are 2, 1, 1, 2 in grid order (row band 0:
  columns 0-1, columns 2-3; row band 1: columns 0-1, columns 2-3) and sum to 6.
\<close>

theorem make_2d_tiles_scenario_counts:
  "\<exists>tiles. make_2d_tiles scenario_X \<lparr>tile_rows = 2, tile_cols = 2\<rparr> = Inr tiles \<and>
     length tiles = 4 \<and> map Tile.nnz tiles = [2, 1, 1, 2] \<and>
     sum_list (map Tile.nnz tiles) = 6"
  by (simp add: scenario_tiles)

text \<open>C9 as stated fails: the counts are not the multiset {2, 0, 1, 3}.\<close>

theorem make_2d_tiles_scenario_counterexample:
  "\<not> (\<exists>tiles. make_2d_tiles scenario_X \<lparr>tile_rows = 2, tile_cols = 2\<rparr> = Inr tiles \<and>
        length tiles = 4 \<and> mset (map Tile.nnz tiles) = {#2, 0, 1, 3#} \<and>
        sum_list (map Tile.nnz tiles) = 6)"
proof
  assume "\<exists>tiles. make_2d_tiles scenario_X \<lparr>tile_rows = 2, tile_cols = 2\<rparr> = Inr tiles \<and>
        length tiles = 4 \<and> mset (map Tile.nnz tiles) = {#2, 0, 1, 3#} \<and>
        sum_list (map Tile.nnz tiles) = 6"
  then have "mset [2, 1, 1, 2 :: nat] = {#2, 0, 1, 3#}"
    by (auto simp: scenario_tiles)
  then have "(0 :: nat) \<in># mset [2, 1, 1, 2]"
    by (simp only: set_mset_add_mset_insert insertI1 insertI2)
  then show False by simp
qed

section \<open>Ordering by count\<close>




section \<open>Entries of the row map that are out of range\<close>

text \<open>
  C7 at two inputs. The map \<open>[1]\<close> has the length of a one-row matrix and its entry is
  outside \<open>[0, 1)\<close>. \<open>permute_csr_rows\<close> throws nothing: on a matrix whose \<open>indptr\<close> has a
  spare element it returns a matrix, and on the well-formed one it reads past the end of
  \<open>indptr\<close>. \<open>unpermute_csr_rows\<close> throws on the same input.
\<close>

theorem permute_csr_rows_entry_unchecked:
  "permute_csr_rows insertion_sort
     \<lparr>nrows = 1, ncols = 1, nnz = 1, indptr = [0, 1, 1], indices = [0], data = [7 :: int]\<rparr> [1]
   = Inr \<lparr>nrows = 1, ncols = 1, nnz = 1, indptr = [0, 0], indices = [0], data = [0]\<rparr> \<and>
   permute_csr_rows insertion_sort
     \<lparr>nrows = 1, ncols = 1, nnz = 1, indptr = [0, 1], indices = [0], data = [7 :: int]\<rparr> [1]
   = Inl Undefined \<and>
   unpermute_csr_rows insertion_sort
     \<lparr>nrows = 1, ncols = 1, nnz = 1, indptr = [0, 1], indices = [0], data = [7 :: int]\<rparr> [1]
   = Inl (Runtime_error ''unpermute_csr_rows: invalid row_new2old entry'')"
  by (simp add: permute_csr_rows_def unpermute_csr_rows_def sort_each_row_def rbind_def
      vget_def vset_def vnew_def insertion_sort_def eval_nat_numeral)

section \<open>The dense and the sparse tile pipeline agree\<close>


lemma scenario_X_wf: "csr_wf scenario_X"
  by (simp add: csr_wf_def csr_shape_def scenario_X_def csr_row_def upto_rec1)



text \<open>
  The two pipelines agree because a well-formed tile stores a position at most once. On a
  tile that stores a position twice they differ: \<open>materialize_csr_to_dense\<close> overwrites
  the position where \<open>spmm_baseline\<close> adds both entries.
\<close>

lemma repeated_column_pipelines_differ:
  "csr_sorted \<lparr>nrows = 1, ncols = 1, nnz = 2, indptr = [0, 2], indices = [0, 0], data = [1, 1 :: int]\<rparr> \<and>
   sparse_spmm_tile
     \<lparr>nrows = 1, ncols = 1, nnz = 2, indptr = [0, 2], indices = [0, 0], data = [1, 1 :: int]\<rparr> [1] 1 1
     = Inr [2] \<and>
   dense_perm_spmm_tile insertion_sort
     \<lparr>nrows = 1, ncols = 1, nnz = 2, indptr = [0, 2], indices = [0, 0], data = [1, 1 :: int]\<rparr> [1] 1 1
     = Inr [1]"
  by (simp add: csr_sorted_def csr_shape_def csr_row_def sparse_spmm_tile_def spmm_baseline_def
      dense_perm_spmm_tile_def materialize_csr_to_dense_def compute_nnz_per_row_def
      create_row_new2old_def create_col_new2old_def permute_dense_rows_def permute_dense_cols_def
      permute_weight_rows_def dense_spmm_cpu_tile_def unpermute_rows_def size_t_of_int_def
      rbind_def vget_def vset_def vnew_def insertion_sort_def upto_rec1 eval_nat_numeral Let_def)

section \<open>The row permutation round trip\<close>

text \<open>
  C4: for a well-formed \<open>X\<close> and a map \<open>row_new2old\<close> that is a bijection on
  \<open>[0, nrows X)\<close>, \<open>permute_csr_rows\<close> returns a matrix from which \<open>unpermute_csr_rows\<close>,
  with the same map, returns \<open>X\<close> itself: the same dimensions, \<open>nnz\<close>, \<open>indptr\<close>,
  \<open>indices\<close> and \<open>data\<close>.
\<close>

theorem permute_unpermute_csr_rows_roundtrip:
  fixes X :: "('a::zero) CSR"
  assumes "csr_wf X" and "std_sort_spec std_sort" and "is_perm (nrows X) row_new2old"
  shows "\<exists>Xp. permute_csr_rows std_sort X row_new2old = Inr Xp \<and>
              unpermute_csr_rows std_sort Xp row_new2old = Inr X"
  using permute_unpermute_rows[OF assms] permute_csr_rows_shape[OF assms] by simp

lemma scenario_permuted:
  "permute_csr_rows insertion_sort scenario_X [2, 0, 3, 1] =
     Inr \<lparr>nrows = 4, ncols = 4, nnz = 6, indptr = [0, 2, 4, 5, 6],
          indices = [0, 2, 0, 2, 3, 1], data = [4, 5, 1, 2, 6, 3]\<rparr>"
  by (simp add: permute_csr_rows_def scenario_X_def sort_each_row_def rbind_def
      vget_def vset_def vnew_def insertion_sort_def upto_rec1 eval_nat_numeral)

lemma is_perm_scenario: "is_perm 4 [2, 0, 3, 1]"
  by (simp add: is_perm_def upto_rec1)

theorem permute_unpermute_csr_rows_roundtrip_witness:
  "csr_wf scenario_X \<and> is_perm (nrows scenario_X) [2, 0, 3, 1] \<and>
   permute_csr_rows insertion_sort scenario_X [2, 0, 3, 1] =
     Inr \<lparr>nrows = 4, ncols = 4, nnz = 6, indptr = [0, 2, 4, 5, 6],
          indices = [0, 2, 0, 2, 3, 1], data = [4, 5, 1, 2, 6, 3]\<rparr> \<and>
   unpermute_csr_rows insertion_sort
     \<lparr>nrows = 4, ncols = 4, nnz = 6, indptr = [0, 2, 4, 5, 6],
      indices = [0, 2, 0, 2, 3, 1], data = [4, 5, 1, 2, 6, 3]\<rparr> [2, 0, 3, 1] = Inr scenario_X"
proof -
  have p: "is_perm (nrows scenario_X) [2, 0, 3, 1]"
    using is_perm_scenario by (simp add: scenario_X_def)
  from permute_unpermute_csr_rows_roundtrip[OF scenario_X_wf insertion_sort_spec p]
  show ?thesis using scenario_X_wf p scenario_permuted by simp
qed

section \<open>Permuting rows, multiplying and restoring the rows\<close>



section \<open>The operations that build a CSR matrix keep it well formed\<close>

text \<open>
  C10: for an \<open>X\<close> with \<open>indptr\<close> starting at 0, never decreasing and ending at
  \<open>nnz\<close>, every column index in \<open>[0, ncols)\<close> and the column indices of each row in
  ascending order (a column may even repeat within a row), a bijection \<open>row_new2old\<close> on \<open>[0, nrows X)\<close>, a bijection
  \<open>col_new2old\<close> on \<open>[0, ncols X)\<close> and a tile within the bounds of \<open>X\<close>, each of
  \<open>permute_csr_rows\<close>, \<open>permute_csr_cols\<close>, \<open>unpermute_csr_rows\<close> and
  \<open>extract_tile_csr\<close> returns a matrix, and that matrix meets the same conditions for its
  own dimensions: those of \<open>X\<close> for the three permutations, the extent of the tile for
  the extraction. Where the rows of \<open>X\<close> ascend strictly, that is where \<open>X\<close> is well
  formed in the sense of \<open>csr_wf\<close>, so do the rows of the result.
\<close>

theorem csr_operations_preserve_wf:
  fixes X :: "('a::zero) CSR"
  assumes s: "csr_sorted X" and srt: "std_sort_spec std_sort"
    and p: "is_perm (nrows X) row_new2old" and q: "is_perm (ncols X) col_new2old"
    and tb: "tile_in_bounds X tile"
  shows "(\<exists>Z. permute_csr_rows std_sort X row_new2old = Inr Z \<and> csr_sorted Z \<and>
              (csr_wf X \<longrightarrow> csr_wf Z) \<and> nrows Z = nrows X \<and> ncols Z = ncols X) \<and>
         (\<exists>Z. permute_csr_cols std_sort X col_new2old = Inr Z \<and> csr_sorted Z \<and>
              (csr_wf X \<longrightarrow> csr_wf Z) \<and> nrows Z = nrows X \<and> ncols Z = ncols X) \<and>
         (\<exists>Z. unpermute_csr_rows std_sort X row_new2old = Inr Z \<and> csr_sorted Z \<and>
              (csr_wf X \<longrightarrow> csr_wf Z) \<and> nrows Z = nrows X \<and> ncols Z = ncols X) \<and>
         (\<exists>Z. extract_tile_csr X tile = Inr Z \<and> csr_sorted Z \<and>
              (csr_wf X \<longrightarrow> csr_wf Z) \<and>
              nrows Z = row_end tile - row_start tile \<and> ncols Z = col_end tile - col_start tile)"
proof (intro conjI)
  note wf = csr_sorted_shape[OF s]
  have "csr_wf X \<longrightarrow> csr_wf (csr_of_rows (nrows X) (ncols X)
          (map (\<lambda>i. std_sort (\<lambda>a b. fst a < fst b) (csr_row X (row_new2old ! nat i))) [0..nrows X - 1]))"
  proof
    assume swf: "csr_wf X"
    show "csr_wf (csr_of_rows (nrows X) (ncols X)
          (map (\<lambda>i. std_sort (\<lambda>a b. fst a < fst b) (csr_row X (row_new2old ! nat i))) [0..nrows X - 1]))"
      using permute_csr_rows_ok[OF wf srt p] permute_csr_rows_shape[OF swf srt p]
        permuted_rows_wf[OF swf p] by simp
  qed
  then show "\<exists>Z. permute_csr_rows std_sort X row_new2old = Inr Z \<and> csr_sorted Z \<and>
              (csr_wf X \<longrightarrow> csr_wf Z) \<and> nrows Z = nrows X \<and> ncols Z = ncols X"
    using permute_csr_rows_ok[OF wf srt p] permuted_rows_sorted[OF wf srt p] by simp
  have "csr_wf X \<longrightarrow> csr_wf (csr_of_rows (nrows X) (ncols X)
          (map (\<lambda>i. std_sort (\<lambda>a b. fst a < fst b)
                      (map (\<lambda>e. (index_of col_new2old (fst e), snd e)) (csr_row X i)))
             [0..nrows X - 1]))"
    using col_permuted_rows_wf[OF _ srt q] by blast
  then show "\<exists>Z. permute_csr_cols std_sort X col_new2old = Inr Z \<and> csr_sorted Z \<and>
              (csr_wf X \<longrightarrow> csr_wf Z) \<and> nrows Z = nrows X \<and> ncols Z = ncols X"
    using permute_csr_cols_ok[OF wf srt q] col_permuted_rows_sorted[OF wf srt q] by simp
  have "csr_wf X \<longrightarrow> csr_wf (csr_of_rows (nrows X) (ncols X)
          (map (\<lambda>t. std_sort (\<lambda>a b. fst a < fst b) (csr_row X (index_of row_new2old t))) [0..nrows X - 1]))"
  proof
    assume swf: "csr_wf X"
    show "csr_wf (csr_of_rows (nrows X) (ncols X)
          (map (\<lambda>t. std_sort (\<lambda>a b. fst a < fst b) (csr_row X (index_of row_new2old t))) [0..nrows X - 1]))"
      using unpermute_csr_rows_ok[OF wf srt p] unpermute_csr_rows_shape[OF swf srt p]
        unpermuted_rows_wf[OF swf p] by simp
  qed
  then show "\<exists>Z. unpermute_csr_rows std_sort X row_new2old = Inr Z \<and> csr_sorted Z \<and>
              (csr_wf X \<longrightarrow> csr_wf Z) \<and> nrows Z = nrows X \<and> ncols Z = ncols X"
    using unpermute_csr_rows_ok[OF wf srt p] unpermuted_rows_sorted[OF wf srt p] by simp
  have b: "0 \<le> row_start tile" "row_start tile \<le> row_end tile" "row_end tile \<le> nrows X"
    using tb by (auto simp: tile_in_bounds_def)
  have "csr_wf X \<longrightarrow> csr_wf (csr_of_rows (row_end tile - row_start tile)
          (col_end tile - col_start tile) (tile_block X tile))"
    using tile_block_wf[OF _ tb] by blast
  then show "\<exists>Z. extract_tile_csr X tile = Inr Z \<and> csr_sorted Z \<and>
              (csr_wf X \<longrightarrow> csr_wf Z) \<and>
              nrows Z = row_end tile - row_start tile \<and> ncols Z = col_end tile - col_start tile"
    using extract_tile_csr_ok[OF wf b] tile_block_sorted[OF s tb] by simp
qed

lemma scenario_cols_permuted:
  "permute_csr_cols insertion_sort scenario_X [2, 0, 3, 1] =
     Inr \<lparr>nrows = 4, ncols = 4, nnz = 6, indptr = [0, 2, 3, 5, 6],
          indices = [0, 1, 3, 0, 1, 2], data = [2, 1, 3, 5, 4, 6]\<rparr>"
  by (simp add: permute_csr_cols_def scenario_X_def sort_each_row_def rbind_def
      vget_def vset_def vnew_def insertion_sort_def upto_rec1 eval_nat_numeral)

lemma scenario_unpermuted:
  "unpermute_csr_rows insertion_sort scenario_X [2, 0, 3, 1] =
     Inr \<lparr>nrows = 4, ncols = 4, nnz = 6, indptr = [0, 1, 2, 4, 6],
          indices = [1, 3, 0, 2, 0, 2], data = [3, 6, 1, 2, 4, 5]\<rparr>"
  by (simp add: unpermute_csr_rows_def scenario_X_def sort_each_row_def rbind_def
      vget_def vset_def vnew_def insertion_sort_def upto_rec1 eval_nat_numeral)

lemma scenario_tile_extracted:
  "extract_tile_csr scenario_X
      \<lparr>row_start = 0, row_end = 2, col_start = 2, col_end = 4, nnz = 1, is_dense = False\<rparr> =
     Inr \<lparr>nrows = 2, ncols = 2, nnz = 1, indptr = [0, 1, 1], indices = [0], data = [2]\<rparr>"
  by (simp add: extract_tile_csr_def scenario_X_def rbind_def
      vget_def vset_def vnew_def upto_rec1 eval_nat_numeral)

theorem csr_operations_preserve_wf_witness:
  "csr_sorted scenario_X \<and> csr_wf scenario_X \<and> is_perm (nrows scenario_X) [2, 0, 3, 1] \<and>
   is_perm (ncols scenario_X) [2, 0, 3, 1] \<and>
   tile_in_bounds scenario_X
      \<lparr>row_start = 0, row_end = 2, col_start = 2, col_end = 4, nnz = 1, is_dense = False\<rparr> \<and>
   csr_wf \<lparr>nrows = 4, ncols = 4, nnz = 6, indptr = [0, 2, 4, 5, 6],
          indices = [0, 2, 0, 2, 3, 1], data = [4, 5, 1, 2, 6, 3::int]\<rparr> \<and>
   csr_wf \<lparr>nrows = 4, ncols = 4, nnz = 6, indptr = [0, 2, 3, 5, 6],
          indices = [0, 1, 3, 0, 1, 2], data = [2, 1, 3, 5, 4, 6::int]\<rparr> \<and>
   csr_wf \<lparr>nrows = 4, ncols = 4, nnz = 6, indptr = [0, 1, 2, 4, 6],
          indices = [1, 3, 0, 2, 0, 2], data = [3, 6, 1, 2, 4, 5::int]\<rparr> \<and>
   csr_wf \<lparr>nrows = 2, ncols = 2, nnz = 1, indptr = [0, 1, 1], indices = [0], data = [2::int]\<rparr>"
proof -
  have p: "is_perm (nrows scenario_X) [2, 0, 3, 1]" "is_perm (ncols scenario_X) [2, 0, 3, 1]"
    using is_perm_scenario by (simp_all add: scenario_X_def)
  have tb: "tile_in_bounds scenario_X
      \<lparr>row_start = 0, row_end = 2, col_start = 2, col_end = 4, nnz = 1, is_dense = False\<rparr>"
    by (simp add: tile_in_bounds_def scenario_X_def)
  from csr_operations_preserve_wf[OF csr_wf_sorted[OF scenario_X_wf] insertion_sort_spec p tb]
  show ?thesis
    using scenario_X_wf csr_wf_sorted[OF scenario_X_wf] p tb
    unfolding scenario_permuted scenario_cols_permuted scenario_unpermuted scenario_tile_extracted
    by simp
qed

section \<open>The tiles partition the stored entries\<close>




section \<open>The tiled product is the baseline product\<close>



section \<open>Which pipeline a tile is sent to\<close>

lemma scenario_classified:
  "fst (predict_tile_density
     [\<lparr>row_start = 0, row_end = 2, col_start = 0, col_end = 2, nnz = 2, is_dense = False\<rparr>,
      \<lparr>row_start = 0, row_end = 2, col_start = 2, col_end = 4, nnz = 1, is_dense = False\<rparr>,
      \<lparr>row_start = 2, row_end = 4, col_start = 0, col_end = 2, nnz = 1, is_dense = False\<rparr>,
      \<lparr>row_start = 2, row_end = 4, col_start = 2, col_end = 4, nnz = 2, is_dense = False\<rparr>] (1 / 2))
   = [\<lparr>row_start = 0, row_end = 2, col_start = 0, col_end = 2, nnz = 2, is_dense = True\<rparr>,
      \<lparr>row_start = 0, row_end = 2, col_start = 2, col_end = 4, nnz = 1, is_dense = False\<rparr>,
      \<lparr>row_start = 2, row_end = 4, col_start = 0, col_end = 2, nnz = 1, is_dense = False\<rparr>,
      \<lparr>row_start = 2, row_end = 4, col_start = 2, col_end = 4, nnz = 2, is_dense = True\<rparr>]"
  by (simp add: predict_tile_density_def density_def)

text \<open>
  C5 fails on the code: the driver does not read \<open>is_dense\<close>. On the scenario matrix,
  tiled 2\<times>2 and classified by \<open>predict_tile_density\<close> with the threshold \<open>1/2\<close>, the
  flags are dense, sparse, sparse, dense, and yet \<open>process_tiles_with_predictor\<close> sends
  all four tiles to the dense pipeline (its counter of dense tiles ends at 4): it compares
  the density of each tile with the constant \<open>DENSE_TILE_THRESHOLD = 0.05\<close>, and the
  two tiles flagged sparse have density \<open>1/4\<close>.
\<close>

theorem process_tiles_routes_by_fixed_threshold:
  "\<exists>tiles st.
     make_2d_tiles scenario_X \<lparr>tile_rows = 2, tile_cols = 2\<rparr> = Inr tiles \<and>
     map is_dense (fst (predict_tile_density tiles (1 / 2))) = [True, False, False, True] \<and>
     process_tiles_loop insertion_sort scenario_X [1, 2, 3, 4, 5, 6, 7, 8] 4 2
       (fst (predict_tile_density tiles (1 / 2))) = Inr st \<and>
     cpu_dense_tiles st = 4"
proof -
  let ?grid = "[\<lparr>row_start = 0, row_end = 2, col_start = 0, col_end = 2, nnz = 2, is_dense = False\<rparr>,
      \<lparr>row_start = 0, row_end = 2, col_start = 2, col_end = 4, nnz = 1, is_dense = False\<rparr>,
      \<lparr>row_start = 2, row_end = 4, col_start = 0, col_end = 2, nnz = 1, is_dense = False\<rparr>,
      \<lparr>row_start = 2, row_end = 4, col_start = 2, col_end = 4, nnz = 2, is_dense = False\<rparr>]"
  let ?tiles = "[\<lparr>row_start = 0, row_end = 2, col_start = 0, col_end = 2, nnz = 2, is_dense = True\<rparr>,
      \<lparr>row_start = 0, row_end = 2, col_start = 2, col_end = 4, nnz = 1, is_dense = False\<rparr>,
      \<lparr>row_start = 2, row_end = 4, col_start = 0, col_end = 2, nnz = 1, is_dense = False\<rparr>,
      \<lparr>row_start = 2, row_end = 4, col_start = 2, col_end = 4, nnz = 2, is_dense = True\<rparr>]"
  have tb: "\<forall>t \<in> set ?tiles. tile_in_bounds scenario_X t"
    by (simp add: tile_in_bounds_def scenario_X_def)
  have W: "length [1, 2, 3, 4, 5, 6, 7, 8 :: int] = nat (ncols scenario_X * 2)"
    by (simp add: scenario_X_def)
  from process_tiles_loop_ok[OF scenario_X_wf insertion_sort_spec _ W tb]
  obtain st where
    st: "process_tiles_loop insertion_sort scenario_X [1, 2, 3, 4, 5, 6, 7, 8] (ncols scenario_X) 2 ?tiles = Inr st"
    and c: "cpu_dense_tiles st = length (filter (\<lambda>t. density t \<ge> DENSE_TILE_THRESHOLD) ?tiles)"
    by auto
  have c4: "cpu_dense_tiles st = 4"
    unfolding c by (simp add: density_def DENSE_TILE_THRESHOLD_def)
  have n4: "ncols scenario_X = 4" by (simp add: scenario_X_def)
  show ?thesis
  proof (intro exI conjI)
    show "make_2d_tiles scenario_X \<lparr>tile_rows = 2, tile_cols = 2\<rparr> = Inr ?grid"
      by (rule scenario_tiles)
    show "map is_dense (fst (predict_tile_density ?grid (1 / 2))) = [True, False, False, True]"
      unfolding scenario_classified by simp
    show "process_tiles_loop insertion_sort scenario_X [1, 2, 3, 4, 5, 6, 7, 8] 4 2
       (fst (predict_tile_density ?grid (1 / 2))) = Inr st"
      unfolding scenario_classified using st unfolding n4 .
    show "cpu_dense_tiles st = 4" by (rule c4)
  qed
qed

end
